(* ===== verification/Prelude.thy ===== *)
theory Prelude
  imports Main "HOL-Library.Word"
begin

text \<open>
  Shared vocabulary of the development: the machine integers of the source (a 64-bit target, so
  \<open>usize\<close> and \<open>u64\<close> are both 64-bit words), the faults an unsafe or panicking operation can end
  in, Rust's \<open>?\<close> operator on results, the slots of a \<open>[MaybeUninit<T>]\<close> buffer, and the arithmetic
  of free-running sequence numbers that are reduced to an index by a power-of-two mask.
\<close>

unbundle bit_operations_syntax

section \<open>Machine integers\<close>

type_synonym u8 = "8 word"
type_synonym u16 = "16 word"
type_synonym u32 = "32 word"
type_synonym u64 = "64 word"
type_synonym usize = "64 word"

text \<open>\<open>usize::saturating_sub\<close>: subtraction that stops at zero.\<close>

definition saturating_sub :: "'w::len word \<Rightarrow> 'w word \<Rightarrow> 'w word" where
  "saturating_sub a b = (if b \<le> a then a - b else 0)"

lemma unat_saturating_sub: "unat (saturating_sub a b) = unat a - unat b"
  by (auto simp: saturating_sub_def unat_sub word_le_nat_alt)

section \<open>Faults and results\<close>

text \<open>
  What an operation can end in instead of a value: a panic (a failed assertion, an explicit
  \<open>panic!\<close>), an index outside a slice (a panic on a slice, undefined behaviour through a raw
  pointer), and a read of a slot that holds no value (undefined behaviour of
  \<open>assume_init_read\<close> and of a reference to it).
\<close>

datatype fault = Panicked | Out_Of_Bounds | Uninit_Read

text \<open>Rust's \<open>?\<close>: continue with the value, or return the error.\<close>

definition try_bind :: "'e + 'a \<Rightarrow> ('a \<Rightarrow> 'e + 'b) \<Rightarrow> 'e + 'b" where
  "try_bind m f = (case m of Inl e \<Rightarrow> Inl e | Inr x \<Rightarrow> f x)"

lemma try_bind_simps [simp]:
  "try_bind (Inl e) f = Inl e"
  "try_bind (Inr x) f = f x"
  by (simp_all add: try_bind_def)

lemma try_bind_Inr_iff: "try_bind m f = Inr y \<longleftrightarrow> (\<exists>x. m = Inr x \<and> f x = Inr y)"
  by (cases m) auto

lemma try_bind_Inl_iff: "try_bind m f = Inl e \<longleftrightarrow> m = Inl e \<or> (\<exists>x. m = Inr x \<and> f x = Inl e)"
  by (cases m) auto

section \<open>Slots of a MaybeUninit buffer\<close>

text \<open>
  A buffer is a list of slots; \<open>None\<close> is a slot that holds no live value (never written, or moved
  out of), \<open>Some x\<close> a slot whose value is owned by the buffer.
\<close>

type_synonym 'a slots = "'a option list"

definition slot_get :: "'a slots \<Rightarrow> usize \<Rightarrow> fault + 'a" where
  "slot_get b i =
     (if unat i < length b
      then (case b ! unat i of None \<Rightarrow> Inl Uninit_Read | Some x \<Rightarrow> Inr x)
      else Inl Out_Of_Bounds)"

text \<open>\<open>assume_init_read\<close> (and \<open>ptr::read\<close>): move the value out; the slot no longer owns it.\<close>

definition slot_take :: "'a slots \<Rightarrow> usize \<Rightarrow> fault + 'a \<times> 'a slots" where
  "slot_take b i = try_bind (slot_get b i) (\<lambda>x. Inr (x, b[unat i := None]))"

definition slot_put :: "'a slots \<Rightarrow> usize \<Rightarrow> 'a \<Rightarrow> fault + 'a slots" where
  "slot_put b i x = (if unat i < length b then Inr (b[unat i := Some x]) else Inl Out_Of_Bounds)"

lemma slot_get_Some [simp]:
  "unat i < length b \<Longrightarrow> b ! unat i = Some x \<Longrightarrow> slot_get b i = Inr x"
  by (simp add: slot_get_def)

lemma slot_take_Some [simp]:
  "unat i < length b \<Longrightarrow> b ! unat i = Some x \<Longrightarrow> slot_take b i = Inr (x, b[unat i := None])"
  by (simp add: slot_take_def)

lemma slot_put_in_range [simp]:
  "unat i < length b \<Longrightarrow> slot_put b i x = Inr (b[unat i := Some x])"
  by (simp add: slot_put_def)

section \<open>Windows of a circular buffer\<close>

text \<open>
  \<open>window b s n\<close> is what the \<open>n\<close> consecutive sequence numbers from \<open>s\<close> on select in the circular
  buffer \<open>b\<close>.  Everything a ring holds is one window, so the lemmas below (splitting a window,
  updating a slot outside it, rotating its start) carry the proofs about both rings.
\<close>

definition window :: "'a list \<Rightarrow> nat \<Rightarrow> nat \<Rightarrow> 'a list" where
  "window b s n = map (\<lambda>i. b ! ((s + i) mod length b)) [0..<n]"

lemma length_window [simp]: "length (window b s n) = n"
  by (simp add: window_def)

lemma nth_window [simp]: "i < n \<Longrightarrow> window b s n ! i = b ! ((s + i) mod length b)"
  by (simp add: window_def)

lemma window_0 [simp]: "window b s 0 = []"
  by (simp add: window_def)

lemma window_add: "window b s (m + n) = window b s m @ window b (s + m) n"
  by (rule nth_equalityI) (auto simp: nth_append ac_simps)

lemma window_Suc: "window b s (Suc n) = b ! (s mod length b) # window b (Suc s) n"
  using window_add [of b s 1 n] by (simp add: window_def)

lemma take_window: "m \<le> n \<Longrightarrow> take m (window b s n) = window b s m"
  by (simp add: window_def take_map)

lemma drop_window: "m \<le> n \<Longrightarrow> drop m (window b s n) = window b (s + m) (n - m)"
  by (rule nth_equalityI) (auto simp: ac_simps)

lemma window_cong_start: "s mod length b = s' mod length b \<Longrightarrow> window b s n = window b s' n"
  by (rule nth_equalityI) (auto intro: arg_cong [where f = "(!) b"] mod_add_cong)

lemma mod_add_inj:
  fixes s :: nat
  assumes "i < L" "j < L" "(s + i) mod L = (s + j) mod L"
  shows "i = j"
proof -
  have *: "i = j" if "i \<le> j" "j < L" "(s + j) mod L = (s + i) mod L" for i j
  proof -
    from that have "L dvd (s + j) - (s + i)" by (subst mod_eq_dvd_iff_nat [symmetric]) auto
    then have "L dvd j - i" by simp
    with that show ?thesis by (auto dest: dvd_imp_le)
  qed
  show ?thesis
    using * [of i j] * [of j i] assms by (cases "i \<le> j") auto
qed

lemma window_update_outside:
  assumes "n \<le> j" "j < length b"
  shows "window (b[(s + j) mod length b := x]) s n = window b s n"
proof (rule nth_equalityI)
  fix i assume "i < length (window (b[(s + j) mod length b := x]) s n)"
  then have "i < n" by simp
  moreover have "(s + i) mod length b \<noteq> (s + j) mod length b"
    using mod_add_inj [of i "length b" j s] assms \<open>i < n\<close> by auto
  ultimately show "window (b[(s + j) mod length b := x]) s n ! i = window b s n ! i"
    by simp
qed simp

lemma window_update_last:
  assumes "n < length b"
  shows "window (b[(s + n) mod length b := x]) s (Suc n) = window b s n @ [x]"
proof -
  have "window (b[(s + n) mod length b := x]) s (n + 1) =
        window (b[(s + n) mod length b := x]) s n @ window (b[(s + n) mod length b := x]) (s + n) 1"
    by (rule window_add)
  also have "\<dots> = window b s n @ [x]"
    using assms by (subst window_update_outside) (auto simp: window_def nth_list_update_eq
        dest: gr_implies_not0 intro!: nth_list_update_eq mod_less_divisor)
  finally show ?thesis by simp
qed

text \<open>Taking the first slot of a window leaves the rest of the window as it was.\<close>

lemma window_update_first:
  assumes "n < length b"
  shows "window (b[s mod length b := x]) (Suc s) n = window b (Suc s) n"
proof (rule nth_equalityI)
  fix i assume "i < length (window (b[s mod length b := x]) (Suc s) n)"
  then have "Suc i < length b" and "i < n" using assms by auto
  moreover have "(s + Suc i) mod length b \<noteq> (s + 0) mod length b"
    using mod_add_inj [of "Suc i" "length b" 0 s] \<open>Suc i < length b\<close> by (cases "length b") auto
  ultimately show "window (b[s mod length b := x]) (Suc s) n ! i = window b (Suc s) n ! i"
    by simp
qed simp

section \<open>Sequence numbers and masks\<close>

lemma unat_and_mask: "unat ((s :: 'w::len word) AND mask b) = unat s mod 2 ^ b"
  by (simp flip: take_bit_eq_mask take_bit_eq_mod add: unsigned_take_bit_eq)

lemma exp_minus_1_eq_mask: "push_bit b (1 :: 'w::len word) - 1 = mask b"
  by (simp add: mask_eq_exp_minus_1 push_bit_eq_mult)

lemma unat_2_power: "2 ^ b < (2::nat) ^ LENGTH('w) \<Longrightarrow> unat (2 ^ b :: 'w::len word) = 2 ^ b"
  using unat_of_nat [of "2 ^ b", where 'a = 'w] by simp

lemma unat_add_mod_pow2:
  fixes s k :: u64
  assumes "b \<le> 64"
  shows "unat (s + k) mod 2 ^ b = (unat s + unat k) mod 2 ^ b"
proof -
  have "(2::nat) ^ b dvd 2 ^ 64" using assms by (rule le_imp_power_dvd)
  then have "(unat s + unat k) mod 2 ^ 64 mod 2 ^ b = (unat s + unat k) mod 2 ^ b"
    by (rule mod_mod_cancel)
  then show ?thesis by (simp add: unat_word_ariths)
qed

text \<open>Distances between sequence numbers: how appending and consuming change them.\<close>

lemma unat_diff_step: "pos \<noteq> tail \<Longrightarrow> unat (tail - pos) = Suc (unat (tail - (pos + 1)))"
  for pos tail :: "'w::len word"
  using unat_minus_one [of "tail - pos"] unat_gt_0 [of "tail - pos"] by (simp add: algebra_simps)

lemma unat_Suc_bounded: "i < n \<Longrightarrow> unat (i + 1) = Suc (unat i)" for i n :: "'w::len word"
proof -
  assume "i < n"
  then have "Suc (unat i) \<le> unat n" by (simp add: word_less_nat_alt)
  also have "unat n < 2 ^ LENGTH('w)" by (rule unsigned_less)
  finally show ?thesis using unat_add_lem [of i 1] by simp
qed

lemma unat_dist_add:
  fixes t h n :: "'w::len word"
  assumes "unat (t - h) + unat n < 2 ^ LENGTH('w)"
  shows "unat (t + n - h) = unat (t - h) + unat n"
proof -
  have *: "t + n - h = (t - h) + n" by (simp add: algebra_simps)
  show ?thesis unfolding * by (rule iffD1 [OF unat_add_lem assms])
qed

lemma unat_dist_sub:
  fixes t h n :: "'w::len word"
  assumes "unat n \<le> unat (t - h)"
  shows "unat (t - (h + n)) = unat (t - h) - unat n"
proof -
  have *: "t - (h + n) = (t - h) - n" by (simp add: algebra_simps)
  have "n \<le> t - h" using assms by (simp add: word_le_nat_alt)
  then show ?thesis unfolding * by (rule unat_sub)
qed

end
