(* ===== verification/Ring_Config.thy ===== *)
theory Ring_Config
  imports Prelude
begin

text \<open>
  Configuration, metrics and backoff of crate \<open>ringmpsc\<close> (\<open>config.rs\<close>, \<open>metrics.rs\<close>,
  \<open>backoff.rs\<close>): the three small components the rings are built from.  The lemmas show that a
  validated configuration has a power-of-two capacity between 2 and \<open>2^20\<close> whose mask is
  capacity minus one, and that the backoff is exhausted after exactly eleven snoozes.
\<close>

section \<open>Config\<close>

record config =
  ring_bits :: u8
  max_producers :: usize
  enable_metrics :: bool

text \<open>\<open>Config::new\<close>: the two assertions, then the struct.\<close>

definition config_new :: "u8 \<Rightarrow> usize \<Rightarrow> bool \<Rightarrow> fault + config" where
  "config_new bits producers met =
     (if \<not> (0 < bits \<and> bits \<le> 20) then Inl Panicked
      else if \<not> (0 < producers \<and> producers \<le> 128) then Inl Panicked
      else Inr \<lparr>ring_bits = bits, max_producers = producers, enable_metrics = met\<rparr>)"

text \<open>
  \<open>1 << self.ring_bits\<close>.  A release build masks the shift amount to the width of \<open>usize\<close>;
  \<open>Config::new\<close> keeps the amount below 21, where masking changes nothing.
\<close>

definition config_capacity :: "config \<Rightarrow> usize" where
  "config_capacity c = push_bit (unat (ring_bits c) mod 64) 1"

definition config_mask :: "config \<Rightarrow> usize" where
  "config_mask c = config_capacity c - 1"

definition config_default :: config where
  "config_default = \<lparr>ring_bits = 16, max_producers = 16, enable_metrics = False\<rparr>"

definition LOW_LATENCY_CONFIG :: "fault + config" where
  "LOW_LATENCY_CONFIG = config_new 12 16 False"

definition HIGH_THROUGHPUT_CONFIG :: "fault + config" where
  "HIGH_THROUGHPUT_CONFIG = config_new 18 32 False"

definition valid_config :: "config \<Rightarrow> bool" where
  "valid_config c \<longleftrightarrow> 0 < ring_bits c \<and> ring_bits c \<le> 20 \<and>
     0 < max_producers c \<and> max_producers c \<le> 128"

text \<open>The number of slots, as a natural number.\<close>

definition cap :: "config \<Rightarrow> nat" where
  "cap c = 2 ^ unat (ring_bits c)"

lemma config_new_valid: "config_new bits producers met = Inr c \<Longrightarrow> valid_config c"
  by (auto simp: config_new_def valid_config_def split: if_splits)

lemma valid_config_bits: "valid_config c \<Longrightarrow> 0 < unat (ring_bits c) \<and> unat (ring_bits c) \<le> 20"
  by (auto simp: valid_config_def word_le_nat_alt word_less_nat_alt)

lemma valid_config_producers:
  "valid_config c \<Longrightarrow> 0 < unat (max_producers c) \<and> unat (max_producers c) \<le> 128"
  by (auto simp: valid_config_def word_le_nat_alt word_less_nat_alt)

lemma cap_pos [simp]: "0 < cap c"
  by (simp add: cap_def)

lemma cap_bounds: "valid_config c \<Longrightarrow> 2 \<le> cap c \<and> cap c \<le> 2 ^ 20"
  using valid_config_bits [of c] power_increasing [of 1 "unat (ring_bits c)" "2::nat"]
    power_increasing [of "unat (ring_bits c)" 20 "2::nat"]
  by (simp add: cap_def)

text \<open>
  All that the index arithmetic of the rings needs: the shift that computes the capacity stays
  inside the word.  The rings are proved correct under this weaker condition, because the fields
  of \<open>Config\<close> are public and \<open>span_collector\<close> builds one without calling \<open>Config::new\<close>.
\<close>

definition shift_ok :: "config \<Rightarrow> bool" where
  "shift_ok c \<longleftrightarrow> ring_bits c < 64"

lemma valid_config_shift_ok: "valid_config c \<Longrightarrow> shift_ok c"
  by (auto simp: valid_config_def shift_ok_def word_le_nat_alt word_less_nat_alt)

lemma shift_ok_bits: "shift_ok c \<Longrightarrow> unat (ring_bits c) < 64"
  by (simp add: shift_ok_def word_less_nat_alt)

lemma cap_less: "shift_ok c \<Longrightarrow> cap c < 2 ^ 64"
  using shift_ok_bits [of c] power_strict_increasing [of "unat (ring_bits c)" 64 "2::nat"]
  by (simp add: cap_def)

lemma unat_config_capacity: "shift_ok c \<Longrightarrow> unat (config_capacity c) = cap c"
  using shift_ok_bits [of c] cap_less [of c]
  by (simp add: config_capacity_def cap_def push_bit_eq_mult unat_2_power)

lemma config_mask_eq_mask: "shift_ok c \<Longrightarrow> config_mask c = mask (unat (ring_bits c))"
  using shift_ok_bits [of c] by (simp add: config_mask_def config_capacity_def mask_eq_exp_minus_1)

lemma unat_and_config_mask: "shift_ok c \<Longrightarrow> unat (s AND config_mask c) = unat s mod cap c"
  by (simp add: config_mask_eq_mask unat_and_mask cap_def)

lemma unat_add_mod_cap:
  "shift_ok c \<Longrightarrow> unat (s + k) mod cap c = (unat s + unat k) mod cap c"
  for s k :: u64
  using shift_ok_bits [of c] by (simp add: cap_def unat_add_mod_pow2)

section \<open>Metrics\<close>

text \<open>
  Five counters, each an \<open>AtomicU64\<close> updated by \<open>fetch_add\<close>, which wraps.  The snapshot is a
  plain copy of the same five values.
\<close>

record metrics =
  messages_sent :: u64
  messages_received :: u64
  batches_sent :: u64
  batches_received :: u64
  reserve_spins :: u64

definition metrics_new :: metrics where
  "metrics_new = \<lparr>messages_sent = 0, messages_received = 0, batches_sent = 0,
     batches_received = 0, reserve_spins = 0\<rparr>"

definition add_messages_sent :: "u64 \<Rightarrow> metrics \<Rightarrow> metrics" where
  "add_messages_sent n m = m\<lparr>messages_sent := messages_sent m + n\<rparr>"

definition add_batches_sent :: "u64 \<Rightarrow> metrics \<Rightarrow> metrics" where
  "add_batches_sent n m = m\<lparr>batches_sent := batches_sent m + n\<rparr>"

definition add_messages_received :: "u64 \<Rightarrow> metrics \<Rightarrow> metrics" where
  "add_messages_received n m = m\<lparr>messages_received := messages_received m + n\<rparr>"

definition add_batches_received :: "u64 \<Rightarrow> metrics \<Rightarrow> metrics" where
  "add_batches_received n m = m\<lparr>batches_received := batches_received m + n\<rparr>"

definition add_reserve_spins :: "u64 \<Rightarrow> metrics \<Rightarrow> metrics" where
  "add_reserve_spins n m = m\<lparr>reserve_spins := reserve_spins m + n\<rparr>"

definition metrics_snapshot :: "metrics \<Rightarrow> metrics" where
  "metrics_snapshot m = \<lparr>messages_sent = messages_sent m, messages_received = messages_received m,
     batches_sent = batches_sent m, batches_received = batches_received m,
     reserve_spins = reserve_spins m\<rparr>"

section \<open>Backoff\<close>

record backoff =
  bo_step :: u32

definition SPIN_LIMIT :: u32 where "SPIN_LIMIT = 6"

definition YIELD_LIMIT :: u32 where "YIELD_LIMIT = 10"

definition backoff_new :: backoff where
  "backoff_new = \<lparr>bo_step = 0\<rparr>"

text \<open>\<open>spin\<close>: the number of \<open>spin_loop\<close> hints issued, and the new state.\<close>

definition backoff_spin :: "backoff \<Rightarrow> nat \<times> backoff" where
  "backoff_spin b =
     (2 ^ unat (min (bo_step b) SPIN_LIMIT),
      if bo_step b \<le> SPIN_LIMIT then b\<lparr>bo_step := bo_step b + 1\<rparr> else b)"

text \<open>\<open>snooze\<close>: spin while the step is within \<open>SPIN_LIMIT\<close>, otherwise yield (zero hints).\<close>

definition backoff_snooze :: "backoff \<Rightarrow> nat \<times> backoff" where
  "backoff_snooze b =
     (if bo_step b \<le> SPIN_LIMIT then backoff_spin b
      else (0, if bo_step b \<le> YIELD_LIMIT then b\<lparr>bo_step := bo_step b + 1\<rparr> else b))"

definition backoff_is_completed :: "backoff \<Rightarrow> bool" where
  "backoff_is_completed b \<longleftrightarrow> YIELD_LIMIT < bo_step b"

definition backoff_reset :: "backoff \<Rightarrow> backoff" where
  "backoff_reset b = b\<lparr>bo_step := 0\<rparr>"

text \<open>How many snoozes are left before the backoff is exhausted.\<close>

definition patience :: "backoff \<Rightarrow> nat" where
  "patience b = 11 - unat (bo_step b)"

lemma patience_completed: "backoff_is_completed b \<longleftrightarrow> patience b = 0"
  by (auto simp: backoff_is_completed_def patience_def YIELD_LIMIT_def word_less_nat_alt)

lemma patience_snooze:
  assumes "\<not> backoff_is_completed b"
  shows "patience (snd (backoff_snooze b)) + 1 = patience b"
proof -
  have "unat (bo_step b) \<le> 10"
    using assms by (auto simp: backoff_is_completed_def YIELD_LIMIT_def word_less_nat_alt)
  moreover from this have "unat (bo_step b + 1) = unat (bo_step b) + 1"
    by (simp add: unat_word_ariths)
  ultimately show ?thesis
    by (auto simp: backoff_snooze_def backoff_spin_def patience_def SPIN_LIMIT_def YIELD_LIMIT_def
        word_le_nat_alt)
qed

lemma patience_new [simp]: "patience backoff_new = 11"
  by (simp add: patience_def backoff_new_def)

end
