(* ===== verification/Ring_Asserts.thy ===== *)
theory Ring_Asserts
  imports Prelude
begin

text \<open>
  The debug assertions of crate \<open>ringmpsc\<close> (\<open>invariants.rs\<close>), each macro as the predicate it
  checks.  They are compiled out of release builds, so the operations of the rings do not branch
  on them; the ring theories prove where they hold and where they do not.
\<close>

text \<open>INV-SEQ-01\<close>

definition debug_assert_bounded_count :: "usize \<Rightarrow> usize \<Rightarrow> bool" where
  "debug_assert_bounded_count count capacity \<longleftrightarrow> count \<le> capacity"

text \<open>INV-ORD-03\<close>

definition debug_assert_head_not_past_tail :: "u64 \<Rightarrow> u64 \<Rightarrow> bool" where
  "debug_assert_head_not_past_tail new_head tail \<longleftrightarrow> new_head \<le> tail"

text \<open>INV-SEQ-02\<close>

definition debug_assert_monotonic :: "u64 \<Rightarrow> u64 \<Rightarrow> bool" where
  "debug_assert_monotonic old new \<longleftrightarrow> old \<le> new"

text \<open>INV-SEQ-03\<close>

definition debug_assert_no_wrap :: "u64 \<Rightarrow> u64 \<Rightarrow> bool" where
  "debug_assert_no_wrap old new \<longleftrightarrow> old < new \<or> push_bit 32 1 < old - new"

text \<open>INV-INIT-01\<close>

definition debug_assert_initialized_read :: "u64 \<Rightarrow> u64 \<Rightarrow> u64 \<Rightarrow> bool" where
  "debug_assert_initialized_read pos head tail \<longleftrightarrow> head \<le> pos \<and> pos < tail"

text \<open>INV-CH-03\<close>

definition debug_assert_fifo_count :: "u64 \<Rightarrow> u64 \<Rightarrow> bool" where
  "debug_assert_fifo_count old_count new_count \<longleftrightarrow> old_count \<le> new_count"

text \<open>INV-DROP-01\<close>

definition debug_assert_drop_bounds :: "usize \<Rightarrow> usize \<Rightarrow> usize \<Rightarrow> bool" where
  "debug_assert_drop_bounds count capacity idx \<longleftrightarrow> count \<le> capacity \<and> idx < capacity"

end
