(* ===== verification/Ring.thy ===== *)
theory Ring
  imports Ring_Config Ring_Asserts
begin

text \<open>
  The heap-allocated SPSC ring (\<open>ring.rs\<close>) and its reservations (\<open>reservation.rs\<close>).  The state is
  the struct with its atomics and \<open>UnsafeCell\<close>s as plain fields; each operation is one function
  from the state to its result and the new state, run without interference (the interleaving of
  the two sides is the subject of theory \<open>Spsc\<close>).  The main results are the invariant
  \<open>ring_inv\<close>, which every operation keeps, and the refinement of the buffer and its four
  sequence numbers to the list \<open>ring_contents\<close>, which holds across wrap-around of the 64-bit
  sequence numbers.
\<close>

section \<open>State\<close>

record 'a ring =
  r_tail :: u64
  r_cached_head :: u64
  r_head :: u64
  r_cached_tail :: u64
  r_active :: bool
  r_closed :: bool
  r_metrics :: metrics
  r_config :: config
  r_buffer :: "'a slots"

text \<open>
  A \<open>Reservation\<close> borrows the slots \<open>res_start ..< res_start + res_len\<close> of its ring's buffer; its
  \<open>ring_ptr\<close> is the ring the operations below are applied to.
\<close>

record reservation =
  res_start :: usize
  res_len :: usize

record commit_error =
  attempted :: usize
  available :: usize

section \<open>Construction and status\<close>

text \<open>\<open>HeapAllocator::allocate\<close>: \<open>capacity\<close> uninitialised slots.\<close>

definition heap_allocate :: "usize \<Rightarrow> 'a slots" where
  "heap_allocate capacity = replicate (unat capacity) None"

definition ring_new_in :: "config \<Rightarrow> (usize \<Rightarrow> 'a slots) \<Rightarrow> 'a ring" where
  "ring_new_in c allocate =
     \<lparr>r_tail = 0, r_cached_head = 0, r_head = 0, r_cached_tail = 0, r_active = False,
      r_closed = False, r_metrics = metrics_new, r_config = c,
      r_buffer = allocate (config_capacity c)\<rparr>"

definition ring_new :: "config \<Rightarrow> 'a ring" where
  "ring_new c = ring_new_in c heap_allocate"

definition ring_capacity :: "'a ring \<Rightarrow> usize" where
  "ring_capacity r = config_capacity (r_config r)"

definition ring_mask :: "'a ring \<Rightarrow> usize" where
  "ring_mask r = config_mask (r_config r)"

definition ring_len :: "'a ring \<Rightarrow> usize" where
  "ring_len r = r_tail r - r_head r"

definition ring_is_empty :: "'a ring \<Rightarrow> bool" where
  "ring_is_empty r \<longleftrightarrow> r_tail r = r_head r"

definition ring_is_full :: "'a ring \<Rightarrow> bool" where
  "ring_is_full r \<longleftrightarrow> ring_capacity r \<le> ring_len r"

definition ring_is_closed :: "'a ring \<Rightarrow> bool" where
  "ring_is_closed r = r_closed r"

definition ring_set_active :: "bool \<Rightarrow> 'a ring \<Rightarrow> 'a ring" where
  "ring_set_active a r = r\<lparr>r_active := a\<rparr>"

definition ring_close :: "'a ring \<Rightarrow> 'a ring" where
  "ring_close r = r\<lparr>r_closed := True\<rparr>"

definition ring_metrics :: "'a ring \<Rightarrow> metrics" where
  "ring_metrics r =
     (if enable_metrics (r_config r) then metrics_snapshot (r_metrics r) else metrics_new)"

section \<open>Producer side\<close>

text \<open>
  \<open>make_reservation\<close>: mask the tail, cut the request at the end of the buffer, take the slice.
  Slicing the buffer panics when the range is not inside it.
\<close>

definition ring_make_reservation :: "u64 \<Rightarrow> usize \<Rightarrow> 'a ring \<Rightarrow> fault + reservation" where
  "ring_make_reservation tail n r =
     (let idx = tail AND ring_mask r;
          contiguous = min n (ring_capacity r - idx)
      in if unat idx + unat contiguous \<le> length (r_buffer r)
         then Inr \<lparr>res_start = idx, res_len = contiguous\<rparr> else Inl Out_Of_Bounds)"

text \<open>
  \<open>reserve\<close>: reject 0 and more than the capacity; try the cached head; refresh the cache from the
  consumer's head and try again.
\<close>

definition ring_reserve :: "usize \<Rightarrow> 'a ring \<Rightarrow> fault + reservation option \<times> 'a ring" where
  "ring_reserve n r =
     (if n = 0 \<or> ring_capacity r < n then Inr (None, r)
      else
        (let tail = r_tail r;
             space = saturating_sub (ring_capacity r) (tail - r_cached_head r)
         in if n \<le> space
            then try_bind (ring_make_reservation tail n r) (\<lambda>v. Inr (Some v, r))
            else
              (let head = r_head r;
                   r' = r\<lparr>r_cached_head := head\<rparr>;
                   space' = saturating_sub (ring_capacity r) (tail - head)
               in if space' < n then Inr (None, r')
                  else try_bind (ring_make_reservation tail n r') (\<lambda>v. Inr (Some v, r')))))"

text \<open>Writing \<open>as_mut_slice()[i]\<close> of a reservation; the slice index panics past its length.\<close>

definition reservation_write :: "reservation \<Rightarrow> usize \<Rightarrow> 'a \<Rightarrow> 'a ring \<Rightarrow> fault + 'a ring" where
  "reservation_write v i x r =
     (if i < res_len v
      then try_bind (slot_put (r_buffer r) (res_start v + i) x) (\<lambda>b. Inr (r\<lparr>r_buffer := b\<rparr>))
      else Inl Out_Of_Bounds)"

text \<open>The loop \<open>for i in 0..n { slice[i].write(items[i]) }\<close>, from index \<open>i\<close> on.\<close>

fun reservation_fill :: "reservation \<Rightarrow> usize \<Rightarrow> 'a list \<Rightarrow> 'a ring \<Rightarrow> fault + 'a ring" where
  "reservation_fill v i [] r = Inr r"
| "reservation_fill v i (x # xs) r =
     try_bind (reservation_write v i x r) (reservation_fill v (i + 1) xs)"

definition record_sent :: "usize \<Rightarrow> 'a ring \<Rightarrow> 'a ring" where
  "record_sent n r =
     (if enable_metrics (r_config r)
      then r\<lparr>r_metrics := add_batches_sent 1 (add_messages_sent n (r_metrics r))\<rparr> else r)"

definition ring_commit_internal :: "usize \<Rightarrow> 'a ring \<Rightarrow> 'a ring" where
  "ring_commit_internal n r = record_sent n (r\<lparr>r_tail := r_tail r + n\<rparr>)"

text \<open>What \<open>commit_internal\<close> asserts in a debug build.\<close>

definition ring_commit_asserts :: "usize \<Rightarrow> 'a ring \<Rightarrow> bool" where
  "ring_commit_asserts n r \<longleftrightarrow>
     debug_assert_bounded_count (r_tail r + n - r_head r) (ring_capacity r) \<and>
     debug_assert_monotonic (r_tail r) (r_tail r + n) \<and>
     debug_assert_no_wrap (r_tail r) (r_tail r + n)"

definition reservation_commit :: "reservation \<Rightarrow> 'a ring \<Rightarrow> 'a ring" where
  "reservation_commit v r = ring_commit_internal (res_len v) r"

definition reservation_try_commit_n ::
    "reservation \<Rightarrow> usize \<Rightarrow> 'a ring \<Rightarrow> (commit_error + unit) \<times> 'a ring" where
  "reservation_try_commit_n v n r =
     (if res_len v < n then (Inl \<lparr>attempted = n, available = res_len v\<rparr>, r)
      else (Inr (), ring_commit_internal n r))"

definition reservation_commit_up_to :: "reservation \<Rightarrow> usize \<Rightarrow> 'a ring \<Rightarrow> usize \<times> 'a ring" where
  "reservation_commit_up_to v n r =
     (let to_commit = min n (res_len v) in (to_commit, ring_commit_internal to_commit r))"

definition ring_push :: "'a \<Rightarrow> 'a ring \<Rightarrow> fault + bool \<times> 'a ring" where
  "ring_push item r =
     try_bind (ring_reserve 1 r) (\<lambda>(res, r1).
       case res of
         None \<Rightarrow> Inr (False, r1)
       | Some v \<Rightarrow> try_bind (reservation_write v 0 item r1)
                     (\<lambda>r2. Inr (True, reservation_commit v r2)))"

definition ring_send :: "'a list \<Rightarrow> 'a ring \<Rightarrow> fault + usize \<times> 'a ring" where
  "ring_send items r =
     try_bind (ring_reserve (of_nat (length items)) r) (\<lambda>(res, r1).
       case res of
         None \<Rightarrow> Inr (0, r1)
       | Some v \<Rightarrow> (let n = res_len v in
           try_bind (reservation_fill v 0 (take (unat n) items) r1)
             (\<lambda>r2. Inr (n, reservation_commit v r2))))"

text \<open>
  \<open>reserve_with_backoff\<close>: attempt, give up when closed, snooze, until the backoff is exhausted.
  While the producer snoozes the other side may run; \<open>env k\<close> is what it does to the ring during
  the \<open>k\<close>-th snooze.
\<close>

function reserve_backoff_loop ::
    "(nat \<Rightarrow> 'a ring \<Rightarrow> 'a ring) \<Rightarrow> usize \<Rightarrow> nat \<Rightarrow> backoff \<Rightarrow> 'a ring \<Rightarrow> fault + reservation option \<times> 'a ring"
where
  "reserve_backoff_loop env n k b r =
     (if backoff_is_completed b then Inr (None, r)
      else try_bind (ring_reserve n r) (\<lambda>(res, r1).
        case res of
          Some v \<Rightarrow> Inr (Some v, r1)
        | None \<Rightarrow>
            if ring_is_closed r1 then Inr (None, r1)
            else reserve_backoff_loop env n (Suc k) (snd (backoff_snooze b)) (env k r1)))"
  by pat_completeness auto
termination
  by (relation "measure (\<lambda>(env, n, k, b, r). patience b)") (auto dest: patience_snooze)

definition ring_reserve_with_backoff ::
    "(nat \<Rightarrow> 'a ring \<Rightarrow> 'a ring) \<Rightarrow> usize \<Rightarrow> 'a ring \<Rightarrow> fault + reservation option \<times> 'a ring" where
  "ring_reserve_with_backoff env n r = reserve_backoff_loop env n 0 backoff_new r"

section \<open>Consumer side\<close>

text \<open>
  \<open>readable\<close>: the contiguous readable slice as its start and length, refreshing the cached tail
  only when the cache says the ring is empty.
\<close>

definition ring_readable :: "'a ring \<Rightarrow> fault + (usize \<times> usize) option \<times> 'a ring" where
  "ring_readable r =
     (let head = r_head r;
          cached = r_cached_tail r;
          r' = (if cached - head = 0 then r\<lparr>r_cached_tail := r_tail r\<rparr> else r);
          avail = (if cached - head = 0 then r_tail r - head else cached - head)
      in if avail = 0 then Inr (None, r')
         else
           (let idx = head AND ring_mask r;
                contiguous = min avail (ring_capacity r - idx)
            in if unat idx \<le> length (r_buffer r) then Inr (Some (idx, contiguous), r')
               else Inl Out_Of_Bounds))"

text \<open>Reading \<open>n\<close> elements of a slice that starts at slot \<open>i\<close>.\<close>

fun slots_get :: "'a slots \<Rightarrow> usize \<Rightarrow> nat \<Rightarrow> fault + 'a list" where
  "slots_get b i 0 = Inr []"
| "slots_get b i (Suc n) =
     try_bind (slot_get b i) (\<lambda>x. try_bind (slots_get b (i + 1) n) (\<lambda>xs. Inr (x # xs)))"

definition record_received :: "usize \<Rightarrow> 'a ring \<Rightarrow> 'a ring" where
  "record_received n r =
     (if enable_metrics (r_config r)
      then r\<lparr>r_metrics := add_batches_received 1 (add_messages_received n (r_metrics r))\<rparr> else r)"

definition ring_advance :: "usize \<Rightarrow> 'a ring \<Rightarrow> 'a ring" where
  "ring_advance n r = record_received n (r\<lparr>r_head := r_head r + n\<rparr>)"

definition ring_advance_asserts :: "usize \<Rightarrow> 'a ring \<Rightarrow> bool" where
  "ring_advance_asserts n r \<longleftrightarrow>
     debug_assert_head_not_past_tail (r_head r + n) (r_tail r) \<and>
     debug_assert_monotonic (r_head r) (r_head r + n)"

text \<open>\<open>recv\<close>: copy what the readable slice and \<open>out\<close> both have room for, then advance.\<close>

definition ring_recv :: "'a list \<Rightarrow> 'a ring \<Rightarrow> fault + usize \<times> 'a list \<times> 'a ring" where
  "ring_recv out r =
     try_bind (ring_readable r) (\<lambda>(s, r1).
       case s of
         None \<Rightarrow> Inr (0, out, r1)
       | Some (idx, len) \<Rightarrow>
           (let n = min len (of_nat (length out)) in
            try_bind (slots_get (r_buffer r1) idx (unat n)) (\<lambda>xs.
              Inr (n, xs @ drop (unat n) out, ring_advance n r1))))"

text \<open>
  The loop \<open>while pos != tail\<close> of the batch consumers: move the slot's value out, hand it to the
  handler \<open>f\<close> (whose captured state is \<open>h\<close>), step to the next sequence number.
\<close>

function consume_loop ::
    "usize \<Rightarrow> u64 \<Rightarrow> ('h \<Rightarrow> 'a \<Rightarrow> 'h) \<Rightarrow> u64 \<Rightarrow> usize \<Rightarrow> 'h \<Rightarrow> 'a slots \<Rightarrow> fault + usize \<times> 'h \<times> 'a slots"
where
  "consume_loop m tail f pos count h b =
     (if pos = tail then Inr (count, h, b)
      else try_bind (slot_take b (pos AND m)) (\<lambda>(item, b').
        consume_loop m tail f (pos + 1) (count + 1) (f h item) b'))"
  by pat_completeness auto
termination
  by (relation "measure (\<lambda>(m, tail, f, pos, count, h, b). unat (tail - pos))")
    (auto dest: unat_diff_step)

text \<open>The loop \<open>while count < to_consume\<close> of the bounded consumers.\<close>

function consume_count_loop ::
    "usize \<Rightarrow> usize \<Rightarrow> ('h \<Rightarrow> 'a \<Rightarrow> 'h) \<Rightarrow> u64 \<Rightarrow> usize \<Rightarrow> 'h \<Rightarrow> 'a slots \<Rightarrow> fault + usize \<times> 'h \<times> 'a slots"
where
  "consume_count_loop m to_consume f pos count h b =
     (if count < to_consume
      then try_bind (slot_take b (pos AND m)) (\<lambda>(item, b').
        consume_count_loop m to_consume f (pos + 1) (count + 1) (f h item) b')
      else Inr (count, h, b))"
  by pat_completeness auto
termination
  by (relation "measure (\<lambda>(m, to_consume, f, pos, count, h, b). unat to_consume - unat count)")
    (auto simp: word_less_nat_alt unat_Suc_bounded [unfolded word_less_nat_alt])

declare reserve_backoff_loop.simps [simp del] consume_loop.simps [simp del]
  consume_count_loop.simps [simp del]

text \<open>
  A handler that is lent the item: the item is dropped when the handler returns.  The second
  component of the state collects the dropped items in order.
\<close>

definition drop_after :: "('h \<Rightarrow> 'a \<Rightarrow> 'h) \<Rightarrow> 'h \<times> 'a list \<Rightarrow> 'a \<Rightarrow> 'h \<times> 'a list" where
  "drop_after f = (\<lambda>(h, dropped) item. (f h item, dropped @ [item]))"

definition ring_consume_batch_owned ::
    "('h \<Rightarrow> 'a \<Rightarrow> 'h) \<Rightarrow> 'h \<Rightarrow> 'a ring \<Rightarrow> fault + usize \<times> 'h \<times> 'a ring" where
  "ring_consume_batch_owned f h r =
     (let head = r_head r; tail = r_tail r; avail = tail - head
      in if avail = 0 then Inr (0, h, r)
         else try_bind (consume_loop (ring_mask r) tail f head 0 h (r_buffer r))
           (\<lambda>(count, h', b).
              Inr (count, h', record_received count (r\<lparr>r_buffer := b, r_head := tail\<rparr>))))"

definition ring_consume_batch ::
    "('h \<Rightarrow> 'a \<Rightarrow> 'h) \<Rightarrow> 'h \<times> 'a list \<Rightarrow> 'a ring \<Rightarrow> fault + usize \<times> ('h \<times> 'a list) \<times> 'a ring" where
  "ring_consume_batch f s r =
     (let head = r_head r; tail = r_tail r; avail = tail - head
      in if avail = 0 then Inr (0, s, r)
         else try_bind (consume_loop (ring_mask r) tail (drop_after f) head 0 s (r_buffer r))
           (\<lambda>(count, s', b).
              Inr (count, s', record_received count (r\<lparr>r_buffer := b, r_head := tail\<rparr>))))"

definition ring_consume_up_to_owned ::
    "usize \<Rightarrow> ('h \<Rightarrow> 'a \<Rightarrow> 'h) \<Rightarrow> 'h \<Rightarrow> 'a ring \<Rightarrow> fault + usize \<times> 'h \<times> 'a ring" where
  "ring_consume_up_to_owned max_items f h r =
     (if max_items = 0 then Inr (0, h, r)
      else
        (let head = r_head r; tail = r_tail r; avail = tail - head
         in if avail = 0 then Inr (0, h, r)
            else try_bind
              (consume_count_loop (ring_mask r) (min avail max_items) f head 0 h (r_buffer r))
              (\<lambda>(count, h', b).
                 Inr (count, h', record_received count (r\<lparr>r_buffer := b, r_head := head + count\<rparr>)))))"

definition ring_consume_up_to ::
    "usize \<Rightarrow> ('h \<Rightarrow> 'a \<Rightarrow> 'h) \<Rightarrow> 'h \<times> 'a list \<Rightarrow> 'a ring \<Rightarrow> fault + usize \<times> ('h \<times> 'a list) \<times> 'a ring"
where
  "ring_consume_up_to max_items f s r =
     (if max_items = 0 then Inr (0, s, r)
      else
        (let head = r_head r; tail = r_tail r; avail = tail - head
         in if avail = 0 then Inr (0, s, r)
            else try_bind
              (consume_count_loop (ring_mask r) (min avail max_items) (drop_after f) head 0 s
                (r_buffer r))
              (\<lambda>(count, s', b).
                 Inr (count, s', record_received count (r\<lparr>r_buffer := b, r_head := head + count\<rparr>)))))"

section \<open>Drop\<close>

text \<open>
  \<open>Drop for Ring\<close>: \<open>drop_in_place\<close> on the \<open>count\<close> slots from the head on; the result is the list of
  dropped values in order.
\<close>

fun drop_loop :: "usize \<Rightarrow> u64 \<Rightarrow> nat \<Rightarrow> nat \<Rightarrow> 'a slots \<Rightarrow> fault + 'a list \<times> 'a slots" where
  "drop_loop m head i 0 b = Inr ([], b)"
| "drop_loop m head i (Suc k) b =
     try_bind (slot_take b ((head + of_nat i) AND m)) (\<lambda>(x, b').
       try_bind (drop_loop m head (Suc i) k b') (\<lambda>(xs, b''). Inr (x # xs, b'')))"

definition ring_drop :: "'a ring \<Rightarrow> fault + 'a list \<times> 'a slots" where
  "ring_drop r = drop_loop (ring_mask r) (r_head r) 0 (unat (r_tail r - r_head r)) (r_buffer r)"

end
