(* ===== verification/Ring_Interface.thy ===== *)
theory Ring_Interface
  imports Prelude "HOL-Library.Sublist"
begin

text \<open>
  What the channels rely on from their rings, as locales over an invariant \<open>inv\<close> and an
  abstraction \<open>contents\<close>: pushing appends, consuming hands the items to the handler in order and
  removes them.  The loops the channels run over their rings are defined here once, parametric in
  the ring operation, and proved correct inside the locales; theories \<open>Ring_Props\<close> and
  \<open>Stack_Ring_Props\<close> interpret them for the heap ring and the stack ring.
\<close>

section \<open>Loops over rings\<close>

text \<open>
  \<open>consumed_counts\<close>, kept in builds with debug assertions: the checked addition of such a build
  panics on overflow.
\<close>

definition count_consumed :: "bool \<Rightarrow> nat \<Rightarrow> usize \<Rightarrow> u64 list \<Rightarrow> fault + u64 list" where
  "count_consumed debug i consumed counts =
     (if \<not> debug then Inr counts
      else if length counts \<le> i then Inl Out_Of_Bounds
      else if 2 ^ 64 \<le> unat (counts ! i) + unat consumed then Inl Panicked
      else Inr (counts[i := counts ! i + consumed]))"

text \<open>\<open>for (id, ring) in rings[..count].iter().enumerate()\<close>, consuming each ring completely.\<close>

fun consume_rings ::
    "bool \<Rightarrow> ('h \<Rightarrow> 'r \<Rightarrow> fault + usize \<times> 'h \<times> 'r) \<Rightarrow> nat \<Rightarrow> usize \<Rightarrow> 'h \<Rightarrow> u64 list \<Rightarrow> 'r list \<Rightarrow>
     fault + usize \<times> 'h \<times> u64 list \<times> 'r list" where
  "consume_rings debug consume i tot h counts [] = Inr (tot, h, counts, [])"
| "consume_rings debug consume i tot h counts (r # rs) =
     try_bind (consume h r) (\<lambda>(consumed, h', r').
       try_bind (count_consumed debug i consumed counts) (\<lambda>counts'.
         try_bind (consume_rings debug consume (Suc i) (tot + consumed) h' counts' rs)
           (\<lambda>(tot', h'', counts'', rs'). Inr (tot', h'', counts'', r' # rs'))))"

text \<open>The same with a budget: stop as soon as \<open>max_total\<close> is reached.\<close>

fun consume_rings_up_to ::
    "bool \<Rightarrow> (usize \<Rightarrow> 'h \<Rightarrow> 'r \<Rightarrow> fault + usize \<times> 'h \<times> 'r) \<Rightarrow> usize \<Rightarrow> nat \<Rightarrow> usize \<Rightarrow> 'h \<Rightarrow> u64 list \<Rightarrow>
     'r list \<Rightarrow> fault + usize \<times> 'h \<times> u64 list \<times> 'r list" where
  "consume_rings_up_to debug consume max_total i tot h counts [] = Inr (tot, h, counts, [])"
| "consume_rings_up_to debug consume max_total i tot h counts (r # rs) =
     (if max_total \<le> tot then Inr (tot, h, counts, r # rs)
      else try_bind (consume (max_total - tot) h r) (\<lambda>(consumed, h', r').
        try_bind (count_consumed debug i consumed counts) (\<lambda>counts'.
          try_bind
            (consume_rings_up_to debug consume max_total (Suc i) (tot + consumed) h' counts' rs)
            (\<lambda>(tot', h'', counts'', rs'). Inr (tot', h'', counts'', r' # rs')))))"

section \<open>Counters\<close>

text \<open>The counters a loop that consumes \<open>ns\<close> items, ring by ring from \<open>i\<close> on, leaves.\<close>

fun add_counts :: "nat \<Rightarrow> nat list \<Rightarrow> u64 list \<Rightarrow> u64 list" where
  "add_counts i [] counts = counts"
| "add_counts i (n # ns) counts = add_counts (Suc i) ns (counts[i := counts ! i + of_nat n])"

definition counts_fit :: "bool \<Rightarrow> nat \<Rightarrow> nat list \<Rightarrow> u64 list \<Rightarrow> bool" where
  "counts_fit debug i ns counts \<longleftrightarrow>
     (debug \<longrightarrow> i + length ns \<le> length counts \<and>
        (\<forall>j < length ns. unat (counts ! (i + j)) + ns ! j < 2 ^ 64))"

lemma counts_fit_Nil [simp]: "counts_fit False i ns counts"
  by (simp add: counts_fit_def)

lemma count_consumed_fit:
  assumes "counts_fit debug i (n # ns) counts"
  shows "n < 2 ^ 64 \<Longrightarrow> count_consumed debug i (of_nat n) counts =
           Inr (if debug then counts[i := counts ! i + of_nat n] else counts)"
    and "counts_fit debug (Suc i) ns (if debug then counts[i := counts ! i + of_nat n] else counts)"
proof -
  assume n: "n < 2 ^ 64"
  have "debug \<Longrightarrow> i < length counts \<and> unat (counts ! i) + n < 2 ^ 64"
    using assms by (auto simp: counts_fit_def)
  then show "count_consumed debug i (of_nat n) counts =
           Inr (if debug then counts[i := counts ! i + of_nat n] else counts)"
    using n by (auto simp: count_consumed_def unat_of_nat)
next
  have "unat (counts ! (Suc i + j)) + ns ! j < 2 ^ 64" if "debug" "j < length ns" for j
    using assms that by (auto simp: counts_fit_def dest: spec [of _ "Suc j"])
  then show "counts_fit debug (Suc i) ns (if debug then counts[i := counts ! i + of_nat n] else counts)"
    using assms by (auto simp: counts_fit_def)
qed

section \<open>Contracts\<close>

locale ring_view =
  fixes inv :: "'r \<Rightarrow> bool" and contents :: "'r \<Rightarrow> 'a list"
  assumes contents_less: "inv r \<Longrightarrow> length (contents r) < 2 ^ 64"

text \<open>Pushing: \<open>accepts\<close> says whether there is room (and, where it matters, that the ring is open).\<close>

locale ring_producer = ring_view +
  fixes push :: "'a \<Rightarrow> 'r \<Rightarrow> fault + bool \<times> 'r" and accepts :: "'r \<Rightarrow> bool"
  assumes push_law: "inv r \<Longrightarrow> \<exists>r'. push x r = Inr (accepts r, r') \<and> inv r' \<and>
    contents r' = (if accepts r then contents r @ [x] else contents r)"

text \<open>Consuming everything, with a handler whose effect on its captured state is \<open>act\<close>.\<close>

locale ring_batch_consumer = ring_view +
  fixes consume :: "'h \<Rightarrow> 'r \<Rightarrow> fault + usize \<times> 'h \<times> 'r" and act :: "'h \<Rightarrow> 'a \<Rightarrow> 'h"
  assumes consume_law: "inv r \<Longrightarrow> \<exists>r'. consume h r =
    Inr (of_nat (length (contents r)), foldl act h (contents r), r') \<and> inv r' \<and> contents r' = []"
begin

lemma consume_rings_spec:
  assumes "\<forall>r\<in>set rs. inv r" "counts_fit debug i (map (\<lambda>r. length (contents r)) rs) counts"
  shows "\<exists>rs'. consume_rings debug consume i tot h counts rs =
           Inr (tot + of_nat (length (concat (map contents rs))),
                foldl act h (concat (map contents rs)),
                (if debug then add_counts i (map (\<lambda>r. length (contents r)) rs) counts else counts), rs') \<and>
         length rs' = length rs \<and> (\<forall>r\<in>set rs'. inv r \<and> contents r = [])"
  using assms
proof (induction rs arbitrary: i tot h counts)
  case (Cons r rs)
  obtain r' where r': "consume h r =
      Inr (of_nat (length (contents r)), foldl act h (contents r), r')" "inv r'" "contents r' = []"
    using consume_law [of r h] Cons.prems(1) by auto
  have fit: "counts_fit debug i (length (contents r) # map (\<lambda>r. length (contents r)) rs) counts"
    using Cons.prems(2) by simp
  have "length (contents r) < 2 ^ 64" using contents_less Cons.prems(1) by simp
  note cc = count_consumed_fit(1) [OF fit this]
  let ?counts = "if debug then counts[i := counts ! i + of_nat (length (contents r))] else counts"
  obtain rs' where "consume_rings debug consume (Suc i) (tot + of_nat (length (contents r)))
        (foldl act h (contents r)) ?counts rs =
      Inr (tot + of_nat (length (contents r)) + of_nat (length (concat (map contents rs))),
           foldl act (foldl act h (contents r)) (concat (map contents rs)),
           (if debug then add_counts (Suc i) (map (\<lambda>r. length (contents r)) rs) ?counts else ?counts), rs')"
    "length rs' = length rs" "\<forall>r\<in>set rs'. inv r \<and> contents r = []"
    using Cons.IH [OF _ count_consumed_fit(2) [OF fit], of "tot + of_nat (length (contents r))"
        "foldl act h (contents r)"] Cons.prems(1) by (meson list.set_intros(2))
  with r' cc show ?case by (auto simp: add.assoc)
qed simp

end

text \<open>Consuming at most \<open>m\<close> items.\<close>

locale ring_bounded_consumer = ring_view +
  fixes consume_up_to :: "usize \<Rightarrow> 'h \<Rightarrow> 'r \<Rightarrow> fault + usize \<times> 'h \<times> 'r" and act :: "'h \<Rightarrow> 'a \<Rightarrow> 'h"
  assumes consume_up_to_law: "inv r \<Longrightarrow> \<exists>r'. consume_up_to m h r =
    Inr (of_nat (min (length (contents r)) (unat m)), foldl act h (take (unat m) (contents r)), r') \<and>
    inv r' \<and> contents r' = drop (unat m) (contents r)"
begin

text \<open>
  A budgeted pass takes a prefix of the concatenated contents, ring by ring, and leaves the rest:
  earlier rings are preferred, as documented.
\<close>

lemma consume_rings_up_to_spec:
  assumes "\<forall>r\<in>set rs. inv r" "unat tot \<le> unat max_total"
  shows "\<exists>rs'. consume_rings_up_to False consume_up_to max_total i tot h counts rs =
           Inr (of_nat (min (unat tot + length (concat (map contents rs))) (unat max_total)),
                foldl act h (take (unat max_total - unat tot) (concat (map contents rs))),
                counts, rs') \<and>
         list_all2 (\<lambda>r r'. inv r' \<and> suffix (contents r') (contents r)) rs rs' \<and>
         concat (map contents rs') = drop (unat max_total - unat tot) (concat (map contents rs))"
  using assms
proof (induction rs arbitrary: i tot h)
  case (Cons r rs)
  show ?case
  proof (cases "max_total \<le> tot")
    case True
    then have "tot = max_total" using Cons.prems(2) by (simp add: word_le_nat_alt word_unat_eq_iff)
    moreover have "list_all2 (\<lambda>r r'. inv r' \<and> suffix (contents r') (contents r)) rs rs"
      using Cons.prems(1) by (auto simp: list_all2_same)
    ultimately show ?thesis using Cons.prems by (auto intro: exI [of _ "r # rs"])
  next
    case False
    define c where "c = contents r"
    define m where "m = unat max_total - unat tot"
    have m: "unat (max_total - tot) = m"
      using Cons.prems(2) by (simp add: m_def unat_sub word_le_nat_alt)
    obtain r' where r': "consume_up_to (max_total - tot) h r =
        Inr (of_nat (min (length c) m), foldl act h (take m c), r')" "inv r'" "contents r' = drop m c"
      using consume_up_to_law [of r "max_total - tot" h] Cons.prems(1) m by (auto simp: c_def)
    have k: "unat tot + min (length c) m \<le> unat max_total"
      using Cons.prems(2) by (auto simp: m_def)
    have "length c < 2 ^ 64" using contents_less [of r] Cons.prems(1) by (simp add: c_def)
    then have "min (length c) m < 2 ^ 64" by (rule min.strict_coboundedI1)
    then have uk: "unat (of_nat (min (length c) m) :: usize) = min (length c) m"
      by (simp add: unat_of_nat)
    then have t: "unat (tot + of_nat (min (length c) m)) = unat tot + min (length c) m"
      using k unsigned_less [of max_total, where 'a = nat] unat_add_lem [of tot "of_nat (min (length c) m)"] by simp
    have rest: "unat max_total - (unat tot + min (length c) m) = m - length c"
      by (simp add: m_def)
    let ?R = "concat (map contents rs)"
    obtain rs' where "consume_rings_up_to False consume_up_to max_total (Suc i)
          (tot + of_nat (min (length c) m)) (foldl act h (take m c)) counts rs =
        Inr (of_nat (min (unat tot + min (length c) m + length ?R) (unat max_total)),
             foldl act (foldl act h (take m c)) (take (m - length c) ?R), counts, rs')"
      "list_all2 (\<lambda>r r'. inv r' \<and> suffix (contents r') (contents r)) rs rs'" "concat (map contents rs') = drop (m - length c) ?R"
      using Cons.IH [of "tot + of_nat (min (length c) m)" "Suc i" "foldl act h (take m c)"]
        Cons.prems(1) k by (auto simp: t rest)
    moreover have "min (unat tot + min (length c) m + length ?R) (unat max_total) =
        min (unat tot + (length c + length ?R)) (unat max_total)"
      using Cons.prems(2) by (auto simp: m_def min_def)
    ultimately show ?thesis
      using False r' suffix_drop [of m c] by (auto simp: count_consumed_def c_def [symmetric] m_def [symmetric])
  qed
qed simp

end

end
