(* ===== verification/Ring_Refine.thy ===== *)
theory Ring_Refine
  imports Ring Ring_Interface
begin

text \<open>
  The invariant of the ring and its refinement to a bounded FIFO list.  \<open>ring_contents\<close> reads the
  window of the buffer that the head and the tail delimit; each operation is characterised by
  what it does to that list, on every branch, and keeps \<open>ring_inv\<close>.  No lemma here asks that the
  sequence numbers do not wrap.
\<close>

section \<open>Clearing a window\<close>

text \<open>What moving the values of \<open>n\<close> consecutive slots out leaves behind.\<close>

fun clear_window :: "'a slots \<Rightarrow> nat \<Rightarrow> nat \<Rightarrow> 'a slots" where
  "clear_window b s 0 = b"
| "clear_window b s (Suc n) = clear_window (b[s mod length b := None]) (Suc s) n"

lemma length_clear_window [simp]: "length (clear_window b s n) = length b"
  by (induction b s n rule: clear_window.induct) auto

lemma window_clear_window:
  "n + k \<le> length b \<Longrightarrow> window (clear_window b s n) (s + n) k = window b (s + n) k"
proof (induction b s n rule: clear_window.induct)
  case (2 b s n)
  have "window (clear_window b s (Suc n)) (s + Suc n) k =
        window (b[s mod length b := None]) (Suc s + n) k"
    using 2 by simp
  also have "\<dots> = drop n (window (b[s mod length b := None]) (Suc s) (n + k))"
    by (simp add: drop_window)
  also have "\<dots> = drop n (window b (Suc s) (n + k))"
    using 2(2) by (simp add: window_update_first)
  finally show ?case by (simp add: drop_window)
qed simp

lemma clear_window_cong:
  "s mod length b = s' mod length b \<Longrightarrow> clear_window b s n = clear_window b s' n"
proof (induction n arbitrary: b s s')
  case (Suc n)
  have "Suc s mod length b = Suc s' mod length b"
    using Suc.prems by (metis mod_Suc_eq)
  then show ?case using Suc.IH [of "Suc s" "b[s mod length b := None]" "Suc s'"] Suc.prems by simp
qed simp

section \<open>Invariant and abstraction\<close>

definition occupied :: "'a ring \<Rightarrow> nat" where
  "occupied r = unat (r_tail r - r_head r)"

definition ring_window :: "'a ring \<Rightarrow> 'a slots" where
  "ring_window r = window (r_buffer r) (unat (r_head r)) (occupied r)"

definition ring_contents :: "'a ring \<Rightarrow> 'a list" where
  "ring_contents r = map the (ring_window r)"

definition ring_cap :: "'a ring \<Rightarrow> nat" where
  "ring_cap r = cap (r_config r)"

text \<open>
  The shift that computes the capacity is in range, the buffer has the capacity's length, the head the producer has
  cached lags behind the head by no more than the capacity allows, and every slot between head and
  tail holds a value.
\<close>

definition ring_inv :: "'a ring \<Rightarrow> bool" where
  "ring_inv r \<longleftrightarrow>
     shift_ok (r_config r) \<and> length (r_buffer r) = ring_cap r \<and>
     occupied r \<le> unat (r_tail r - r_cached_head r) \<and>
     unat (r_tail r - r_cached_head r) \<le> ring_cap r \<and>
     None \<notin> set (ring_window r)"

lemma length_ring_contents [simp]: "length (ring_contents r) = occupied r"
  by (simp add: ring_contents_def ring_window_def)

lemma occupied_0_iff: "occupied r = 0 \<longleftrightarrow> ring_contents r = []"
  by (metis length_0_conv length_ring_contents)

lemma ring_inv_buffer: "ring_inv r \<Longrightarrow> length (r_buffer r) = ring_cap r"
  by (simp add: ring_inv_def)

lemma ring_inv_occupied: "ring_inv r \<Longrightarrow> occupied r \<le> ring_cap r"
  by (simp add: ring_inv_def)

lemma ring_cap_small: "ring_inv r \<Longrightarrow> 1 \<le> ring_cap r \<and> ring_cap r < 2 ^ 64"
  using cap_less [of "r_config r"] by (simp add: ring_inv_def ring_cap_def Suc_le_eq)

lemma unat_ring_capacity: "ring_inv r \<Longrightarrow> unat (ring_capacity r) = ring_cap r"
  by (simp add: ring_inv_def ring_capacity_def ring_cap_def unat_config_capacity)

lemma unat_and_ring_mask: "ring_inv r \<Longrightarrow> unat (s AND ring_mask r) = unat s mod ring_cap r"
  by (simp add: ring_inv_def ring_mask_def ring_cap_def unat_and_config_mask)

lemma unat_add_mod_ring_cap:
  "ring_inv r \<Longrightarrow> unat (s + k) mod ring_cap r = (unat s + unat k) mod ring_cap r" for s k :: u64
  by (simp add: ring_inv_def ring_cap_def unat_add_mod_cap)

lemma window_Some_contents: "ring_inv r \<Longrightarrow> ring_window r = map Some (ring_contents r)"
  by (auto simp: ring_inv_def ring_contents_def intro!: map_idI [symmetric])
    (metis option.collapse)

text \<open>An update of fields other than the sequence numbers, the buffer and the configuration.\<close>

lemma ring_inv_frame [simp]:
  "ring_inv (r\<lparr>r_metrics := m\<rparr>) = ring_inv r"
  "ring_inv (r\<lparr>r_active := a\<rparr>) = ring_inv r"
  "ring_inv (r\<lparr>r_closed := c\<rparr>) = ring_inv r"
  "ring_inv (r\<lparr>r_cached_tail := t\<rparr>) = ring_inv r"
  by (simp_all add: ring_inv_def occupied_def ring_window_def ring_cap_def)

lemma ring_contents_frame [simp]:
  "ring_contents (r\<lparr>r_metrics := m\<rparr>) = ring_contents r"
  "ring_contents (r\<lparr>r_active := a\<rparr>) = ring_contents r"
  "ring_contents (r\<lparr>r_closed := c\<rparr>) = ring_contents r"
  "ring_contents (r\<lparr>r_cached_tail := t\<rparr>) = ring_contents r"
  "ring_contents (r\<lparr>r_cached_head := h\<rparr>) = ring_contents r"
  by (simp_all add: ring_contents_def occupied_def ring_window_def)

lemma ring_inv_record [simp]:
  "ring_inv (record_sent n r) = ring_inv r" "ring_inv (record_received n r) = ring_inv r"
  by (simp_all add: record_sent_def record_received_def)

lemma ring_contents_record [simp]:
  "ring_contents (record_sent n r) = ring_contents r"
  "ring_contents (record_received n r) = ring_contents r"
  by (simp_all add: record_sent_def record_received_def)

lemma ring_fields_record [simp]:
  "r_config (record_sent n r) = r_config r" "r_config (record_received n r) = r_config r"
  "r_closed (record_sent n r) = r_closed r" "r_closed (record_received n r) = r_closed r"
  "r_head (record_sent n r) = r_head r" "r_tail (record_received n r) = r_tail r"
  "r_head (record_received n r) = r_head r" "r_tail (record_sent n r) = r_tail r"
  "r_cached_tail (record_sent n r) = r_cached_tail r"
  "r_cached_tail (record_received n r) = r_cached_tail r"
  by (simp_all add: record_sent_def record_received_def)

lemma ring_inv_refresh_cached_head:
  "ring_inv r \<Longrightarrow> ring_inv (r\<lparr>r_cached_head := r_head r\<rparr>)"
  by (simp add: ring_inv_def occupied_def ring_window_def ring_cap_def)

lemma unat_ring_len: "unat (ring_len r) = length (ring_contents r)"
  by (simp add: ring_len_def occupied_def)

lemma ring_is_empty_iff: "ring_is_empty r \<longleftrightarrow> ring_contents r = []"
  by (metis ring_is_empty_def length_0_conv length_ring_contents occupied_def
      right_minus_eq unat_eq_zero)

lemma ring_is_full_iff: "ring_inv r \<Longrightarrow> ring_is_full r \<longleftrightarrow> length (ring_contents r) = ring_cap r"
  using ring_inv_occupied [of r] unat_ring_capacity [of r]
  by (auto simp: ring_is_full_def word_le_nat_alt unat_ring_len)

section \<open>Construction\<close>

text \<open>
  The contract of the unsafe trait \<open>BufferAllocator\<close>: a request for \<open>capacity\<close> slots returns
  exactly that many.
\<close>

locale buffer_allocator =
  fixes allocate :: "usize \<Rightarrow> 'a slots"
  assumes allocate_length: "length (allocate capacity) = unat capacity"
begin

lemma new_in_inv:
  assumes "shift_ok c"
  shows "ring_inv (ring_new_in c allocate)"
  using assms by (simp add: ring_inv_def ring_new_in_def ring_cap_def occupied_def ring_window_def
      allocate_length unat_config_capacity)

lemma new_in_contents: "ring_contents (ring_new_in c allocate) = []"
  by (simp add: ring_contents_def ring_window_def ring_new_in_def occupied_def)

end

interpretation heap: buffer_allocator heap_allocate
  by unfold_locales (simp add: heap_allocate_def)

lemma ring_new_inv: "shift_ok c \<Longrightarrow> ring_inv (ring_new c)"
  unfolding ring_new_def by (rule heap.new_in_inv)

lemma ring_new_contents [simp]: "ring_contents (ring_new c) = []"
  unfolding ring_new_def by (rule heap.new_in_contents)

section \<open>Reserving\<close>

text \<open>
  A reservation the ring may hand out: it starts at the masked tail, is not empty, stays inside the
  buffer and fits the free space the producer's cached head leaves.
\<close>

definition reserved :: "'a ring \<Rightarrow> reservation \<Rightarrow> bool" where
  "reserved r v \<longleftrightarrow>
     res_start v = r_tail r AND ring_mask r \<and> 0 < unat (res_len v) \<and>
     unat (res_start v) + unat (res_len v) \<le> ring_cap r \<and>
     unat (r_tail r - r_cached_head r) + unat (res_len v) \<le> ring_cap r"

text \<open>How many contiguous slots there are from the tail to the end of the buffer.\<close>

definition room_to_end :: "'a ring \<Rightarrow> nat" where
  "room_to_end r = ring_cap r - unat (r_tail r) mod ring_cap r"

lemma room_to_end_pos: "ring_inv r \<Longrightarrow> 0 < room_to_end r"
  using ring_cap_small [of r] by (simp add: room_to_end_def)

lemma make_reservation_spec:
  assumes inv: "ring_inv r" and n: "0 < unat n"
    and fits: "unat (r_tail r - r_cached_head r) + unat n \<le> ring_cap r"
  shows "\<exists>v. ring_make_reservation (r_tail r) n r = Inr v \<and> reserved r v \<and>
             unat (res_len v) = min (unat n) (room_to_end r)"
proof -
  let ?idx = "r_tail r AND ring_mask r"
  let ?len = "min n (ring_capacity r - ?idx)"
  have idx: "unat ?idx = unat (r_tail r) mod ring_cap r"
    by (rule unat_and_ring_mask [OF inv])
  have "unat ?idx < ring_cap r"
    using ring_cap_small [OF inv] by (simp add: idx)
  then have rest: "unat (ring_capacity r - ?idx) = room_to_end r"
    by (simp add: unat_sub word_le_nat_alt unat_ring_capacity [OF inv] idx room_to_end_def)
  have len: "unat ?len = min (unat n) (room_to_end r)"
    by (simp add: min_def word_le_nat_alt rest)
  have "unat ?idx + room_to_end r = ring_cap r"
    using \<open>unat ?idx < ring_cap r\<close> by (simp add: idx room_to_end_def)
  then have inside: "unat ?idx + unat ?len \<le> ring_cap r" by (simp add: len)
  have "ring_make_reservation (r_tail r) n r = Inr \<lparr>res_start = ?idx, res_len = ?len\<rparr>"
    using inside inv by (simp add: ring_make_reservation_def Let_def ring_inv_def)
  moreover have "reserved r \<lparr>res_start = ?idx, res_len = ?len\<rparr>"
    using inside len n fits room_to_end_pos [OF inv] by (simp add: reserved_def)
  ultimately show ?thesis using len by auto
qed

lemma reserve_space_iff:
  assumes "ring_inv r" "unat (r_tail r - h) \<le> ring_cap r"
  shows "n \<le> saturating_sub (ring_capacity r) (r_tail r - h) \<longleftrightarrow>
         unat (r_tail r - h) + unat n \<le> ring_cap r"
  using assms by (auto simp: word_le_nat_alt unat_saturating_sub unat_ring_capacity)

text \<open>
  \<open>reserve\<close> succeeds exactly when \<open>0 < n\<close> and \<open>n\<close> slots are free, whatever the cache says; it never
  changes anything but the cached head.
\<close>

definition can_reserve :: "usize \<Rightarrow> 'a ring \<Rightarrow> bool" where
  "can_reserve n r \<longleftrightarrow> 0 < unat n \<and> occupied r + unat n \<le> ring_cap r"

lemma ring_reserve_Some:
  assumes inv: "ring_inv r" and ok: "can_reserve n r"
  shows "\<exists>v h. ring_reserve n r = Inr (Some v, r\<lparr>r_cached_head := h\<rparr>) \<and>
           ring_inv (r\<lparr>r_cached_head := h\<rparr>) \<and> reserved (r\<lparr>r_cached_head := h\<rparr>) v \<and>
           unat (res_len v) = min (unat n) (room_to_end r)"
proof -
  let ?r' = "r\<lparr>r_cached_head := r_head r\<rparr>"
  have n: "n \<noteq> 0" "\<not> ring_capacity r < n" "0 < unat n"
    using ok by (auto simp: can_reserve_def word_less_nat_alt unat_ring_capacity [OF inv])
  show ?thesis
  proof (cases "n \<le> saturating_sub (ring_capacity r) (r_tail r - r_cached_head r)")
    case True
    then have "unat (r_tail r - r_cached_head r) + unat n \<le> ring_cap r"
      using inv by (simp add: reserve_space_iff ring_inv_def)
    from make_reservation_spec [OF inv n(3) this] True n inv show ?thesis
      by (auto simp: ring_reserve_def Let_def intro!: exI [of _ "r_cached_head r"])
  next
    case False
    have inv': "ring_inv ?r'" using inv by (rule ring_inv_refresh_cached_head)
    have "unat (r_tail ?r' - r_cached_head ?r') + unat n \<le> ring_cap ?r'"
      using ok by (simp add: can_reserve_def occupied_def ring_cap_def)
    from make_reservation_spec [OF inv' n(3) this] obtain v where
      v: "ring_make_reservation (r_tail r) n ?r' = Inr v" "reserved ?r' v"
        "unat (res_len v) = min (unat n) (room_to_end r)"
      by (auto simp: room_to_end_def ring_cap_def)
    have "\<not> saturating_sub (ring_capacity r) (r_tail r - r_head r) < n"
      using ok ring_inv_occupied [OF inv] reserve_space_iff [OF inv, of "r_head r" n]
      by (simp add: can_reserve_def occupied_def not_less)
    with False n v inv' show ?thesis
      by (auto simp: ring_reserve_def Let_def intro!: exI [of _ "r_head r"])
  qed
qed

lemma ring_reserve_None:
  assumes inv: "ring_inv r" and no: "\<not> can_reserve n r"
  shows "\<exists>h. ring_reserve n r = Inr (None, r\<lparr>r_cached_head := h\<rparr>) \<and>
           ring_inv (r\<lparr>r_cached_head := h\<rparr>)"
proof (cases "n = 0 \<or> ring_capacity r < n")
  case True
  then show ?thesis using inv by (auto simp: ring_reserve_def intro!: exI [of _ "r_cached_head r"])
next
  case False
  then have full: "ring_cap r < occupied r + unat n"
    using no by (auto simp: can_reserve_def unat_gt_0)
  have fast: "\<not> n \<le> saturating_sub (ring_capacity r) (r_tail r - r_cached_head r)"
    using full inv reserve_space_iff [OF inv, of "r_cached_head r" n] by (auto simp: ring_inv_def)
  have "saturating_sub (ring_capacity r) (r_tail r - r_head r) < n"
    using full ring_inv_occupied [OF inv] reserve_space_iff [OF inv, of "r_head r" n]
    by (simp add: occupied_def not_le)
  with fast False show ?thesis
    using ring_inv_refresh_cached_head [OF inv]
    by (auto simp: ring_reserve_def Let_def intro!: exI [of _ "r_head r"])
qed

section \<open>Writing and committing\<close>

lemma unat_res_start:
  assumes inv: "ring_inv r" and v: "reserved r v"
  shows "unat (res_start v) = (unat (r_head r) + occupied r) mod ring_cap r"
proof -
  have "unat (res_start v) = unat (r_head r + (r_tail r - r_head r)) mod ring_cap r"
    using v by (simp add: reserved_def unat_and_ring_mask [OF inv])
  also have "\<dots> = (unat (r_head r) + occupied r) mod ring_cap r"
    by (simp only: unat_add_mod_ring_cap [OF inv] occupied_def)
  finally show ?thesis .
qed

lemma reservation_write_slot:
  assumes inv: "ring_inv r" and v: "reserved r v" and i: "i < unat (res_len v)"
  shows "reservation_write v (of_nat i) x (r\<lparr>r_buffer := b\<rparr>) =
         try_bind (if (unat (r_head r) + (occupied r + i)) mod ring_cap r < length b
                   then Inr (b[(unat (r_head r) + (occupied r + i)) mod ring_cap r := Some x])
                   else Inl Out_Of_Bounds) (\<lambda>b'. Inr (r\<lparr>r_buffer := b'\<rparr>))"
proof -
  have small: "unat (res_start v) + i < ring_cap r" "i < 2 ^ 64" "ring_cap r < 2 ^ 64"
    using v i ring_cap_small [OF inv] unsigned_less [of "res_len v"]
    by (auto simp: reserved_def)
  have ui: "unat (of_nat i :: usize) = i" using small by (simp add: unat_of_nat)
  have "unat (res_start v + of_nat i) = unat (res_start v) + i"
    using small ui unat_add_lem [of "res_start v" "of_nat i"] by simp
  also have "\<dots> = (unat (res_start v) + i) mod ring_cap r" using small by simp
  also have "\<dots> = (unat (r_head r) + (occupied r + i)) mod ring_cap r"
    by (simp add: unat_res_start [OF inv v] mod_add_left_eq add.assoc)
  finally have slot: "unat (res_start v + of_nat i) = \<dots>" .
  have "(of_nat i :: usize) < res_len v" using i by (simp add: word_less_nat_alt ui)
  then show ?thesis by (simp add: reservation_write_def slot_put_def slot)
qed

lemma reservation_fill_spec:
  assumes inv: "ring_inv r" and v: "reserved r v"
  shows "length b = ring_cap r \<Longrightarrow> i + length xs \<le> unat (res_len v) \<Longrightarrow>
    \<exists>b'. reservation_fill v (of_nat i) xs (r\<lparr>r_buffer := b\<rparr>) = Inr (r\<lparr>r_buffer := b'\<rparr>) \<and>
         length b' = ring_cap r \<and>
         window b' (unat (r_head r)) (occupied r + i + length xs) =
         window b (unat (r_head r)) (occupied r + i) @ map Some xs"
proof (induction xs arbitrary: i b)
  case Nil
  then show ?case by auto
next
  case (Cons x xs)
  let ?ix = "(unat (r_head r) + (occupied r + i)) mod ring_cap r"
  let ?b = "b[?ix := Some x]"
  have "occupied r + i < ring_cap r"
    using v inv Cons.prems by (auto simp: reserved_def ring_inv_def)
  then have win: "window ?b (unat (r_head r)) (Suc (occupied r + i)) =
                  window b (unat (r_head r)) (occupied r + i) @ [Some x]"
    using window_update_last [of "occupied r + i" b "unat (r_head r)" "Some x"] Cons.prems(1)
    by simp
  have "?ix < length b" using ring_cap_small [OF inv] Cons.prems(1) by simp
  then have step: "reservation_write v (of_nat i) x (r\<lparr>r_buffer := b\<rparr>) = Inr (r\<lparr>r_buffer := ?b\<rparr>)"
    using reservation_write_slot [OF inv v, of i x b] Cons.prems(2) by simp
  obtain b' where "reservation_fill v (of_nat (Suc i)) xs (r\<lparr>r_buffer := ?b\<rparr>) = Inr (r\<lparr>r_buffer := b'\<rparr>)"
    "length b' = ring_cap r"
    "window b' (unat (r_head r)) (occupied r + Suc i + length xs) =
     window ?b (unat (r_head r)) (occupied r + Suc i) @ map Some xs"
    using Cons.IH [of ?b "Suc i"] Cons.prems by auto
  with step win show ?case by (auto simp: add.commute)
qed

text \<open>
  Committing \<open>n\<close> of the reserved slots after they have been written appends what was written.
\<close>

lemma ring_commit_spec:
  assumes inv: "ring_inv r" and v: "reserved r v" and n: "unat n \<le> unat (res_len v)"
    and b: "length b = ring_cap r"
      "window b (unat (r_head r)) (occupied r + unat n) = ring_window r @ map Some xs"
  shows "ring_inv (ring_commit_internal n (r\<lparr>r_buffer := b\<rparr>)) \<and>
         ring_contents (ring_commit_internal n (r\<lparr>r_buffer := b\<rparr>)) = ring_contents r @ xs"
proof -
  let ?r = "r\<lparr>r_buffer := b, r_tail := r_tail r + n\<rparr>"
  have room: "unat (r_tail r - r_cached_head r) + unat n \<le> ring_cap r" "ring_cap r < 2 ^ 64"
    "occupied r \<le> unat (r_tail r - r_cached_head r)"
    using v n inv ring_cap_small [OF inv] by (auto simp: reserved_def ring_inv_def)
  have cached: "unat (r_tail r + n - r_cached_head r) = unat (r_tail r - r_cached_head r) + unat n"
    using room by (intro unat_dist_add) simp
  have occ: "occupied ?r = occupied r + unat n"
    unfolding occupied_def using room by (simp add: occupied_def unat_dist_add)
  have win: "ring_window ?r = ring_window r @ map Some xs"
    unfolding ring_window_def [of ?r] occ using b(2) by simp
  have "ring_inv ?r"
    using inv room cached occ win b(1)
    by (auto simp: ring_inv_def ring_cap_def)
  moreover have "ring_contents ?r = ring_contents r @ xs"
    by (simp add: ring_contents_def win o_def)
  ultimately show ?thesis by (simp add: ring_commit_internal_def)
qed

lemma fill_commit_spec:
  assumes inv: "ring_inv r" and v: "reserved r v" and n: "unat n = length xs"
    "length xs \<le> unat (res_len v)"
  shows "\<exists>b. reservation_fill v 0 xs r = Inr (r\<lparr>r_buffer := b\<rparr>) \<and>
           ring_inv (ring_commit_internal n (r\<lparr>r_buffer := b\<rparr>)) \<and>
           ring_contents (ring_commit_internal n (r\<lparr>r_buffer := b\<rparr>)) = ring_contents r @ xs"
proof -
  obtain b where b: "reservation_fill v 0 xs r = Inr (r\<lparr>r_buffer := b\<rparr>)" "length b = ring_cap r"
    "window b (unat (r_head r)) (occupied r + length xs) = ring_window r @ map Some xs"
    using reservation_fill_spec [OF inv v, of "r_buffer r" 0 xs] n inv
    by (auto simp: ring_inv_def ring_window_def)
  then show ?thesis using ring_commit_spec [OF inv v, of n b xs] n by auto
qed

section \<open>Push and send\<close>

text \<open>
  Which fields an operation of one side leaves alone: the configuration and the flags; for the
  producer also the consumer's head and cached tail, for the consumer the producer's tail and
  cached head (the single-writer rules INV-SW-01 and INV-SW-02).
\<close>

definition same_ring :: "'a ring \<Rightarrow> 'a ring \<Rightarrow> bool" where
  "same_ring r r' \<longleftrightarrow> r_config r' = r_config r \<and> r_closed r' = r_closed r \<and> r_active r' = r_active r"

definition producer_frame :: "'a ring \<Rightarrow> 'a ring \<Rightarrow> bool" where
  "producer_frame r r' \<longleftrightarrow>
     same_ring r r' \<and> r_head r' = r_head r \<and> r_cached_tail r' = r_cached_tail r"

definition consumer_frame :: "'a ring \<Rightarrow> 'a ring \<Rightarrow> bool" where
  "consumer_frame r r' \<longleftrightarrow>
     same_ring r r' \<and> r_tail r' = r_tail r \<and> r_cached_head r' = r_cached_head r"

lemma same_ring_refl [simp]: "same_ring r r"
  by (simp add: same_ring_def)

lemma same_ring_cap: "same_ring r r' \<Longrightarrow> ring_cap r' = ring_cap r"
  by (simp add: same_ring_def ring_cap_def)

lemma producer_frame_commit [simp]:
  "producer_frame r (ring_commit_internal n (r\<lparr>r_cached_head := h, r_buffer := b\<rparr>))"
  by (simp add: producer_frame_def same_ring_def ring_commit_internal_def record_sent_def)

lemma producer_frame_cached_head [simp]: "producer_frame r (r\<lparr>r_cached_head := h\<rparr>)"
  by (simp add: producer_frame_def same_ring_def)

lemma consumer_frame_advance [simp]:
  "consumer_frame r (record_received n (r\<lparr>r_buffer := b, r_head := h\<rparr>))"
  "consumer_frame r (ring_advance n r)" "consumer_frame r r"
  "consumer_frame r (r\<lparr>r_cached_tail := t\<rparr>)"
  by (simp_all add: consumer_frame_def same_ring_def record_received_def ring_advance_def)

lemma occupied_cached_head [simp]:
  "occupied (r\<lparr>r_cached_head := h\<rparr>) = occupied r" "ring_cap (r\<lparr>r_cached_head := h\<rparr>) = ring_cap r"
  by (simp_all add: occupied_def ring_cap_def)

lemma ring_push_spec:
  assumes inv: "ring_inv r"
  shows "\<exists>r'. ring_push x r = Inr (occupied r < ring_cap r, r') \<and> ring_inv r' \<and> producer_frame r r' \<and>
           ring_contents r' = (if occupied r < ring_cap r then ring_contents r @ [x] else ring_contents r)"
proof (cases "occupied r < ring_cap r")
  case True
  then have "can_reserve 1 r" by (simp add: can_reserve_def)
  from ring_reserve_Some [OF inv this] obtain v h where
    res: "ring_reserve 1 r = Inr (Some v, r\<lparr>r_cached_head := h\<rparr>)"
    and inv': "ring_inv (r\<lparr>r_cached_head := h\<rparr>)" and v: "reserved (r\<lparr>r_cached_head := h\<rparr>) v"
    and len: "unat (res_len v) = min 1 (room_to_end r)" by auto
  have "unat (res_len v) = 1" using len room_to_end_pos [OF inv] by simp
  with fill_commit_spec [OF inv' v, of "res_len v" "[x]"] obtain b where
    "reservation_write v 0 x (r\<lparr>r_cached_head := h\<rparr>) = Inr (r\<lparr>r_cached_head := h, r_buffer := b\<rparr>)"
    "ring_inv (ring_commit_internal (res_len v) (r\<lparr>r_cached_head := h, r_buffer := b\<rparr>))"
    "ring_contents (ring_commit_internal (res_len v) (r\<lparr>r_cached_head := h, r_buffer := b\<rparr>)) =
     ring_contents r @ [x]"
    by (auto simp: try_bind_Inr_iff)
  then show ?thesis
    using True res by (auto simp: ring_push_def reservation_commit_def)
next
  case False
  then have "\<not> can_reserve 1 r" by (simp add: can_reserve_def)
  from ring_reserve_None [OF inv this] False show ?thesis by (auto simp: ring_push_def)
qed

text \<open>How many of \<open>k\<close> items one \<open>send\<close> takes: none unless all would fit, and then no further than
  the end of the buffer.\<close>

definition send_count :: "'a ring \<Rightarrow> nat \<Rightarrow> nat" where
  "send_count r k = (if occupied r + k \<le> ring_cap r then min k (room_to_end r) else 0)"

lemma ring_send_spec:
  assumes inv: "ring_inv r" and len: "length items < 2 ^ 64"
  shows "\<exists>r'. ring_send items r = Inr (of_nat (send_count r (length items)), r') \<and> ring_inv r' \<and>
           producer_frame r r' \<and>
           ring_contents r' = ring_contents r @ take (send_count r (length items)) items"
proof -
  have un: "unat (of_nat (length items) :: usize) = length items"
    using len by (simp add: unat_of_nat)
  show ?thesis
  proof (cases "can_reserve (of_nat (length items)) r")
    case True
    from ring_reserve_Some [OF inv True] obtain v h where
      res: "ring_reserve (of_nat (length items)) r = Inr (Some v, r\<lparr>r_cached_head := h\<rparr>)"
      and inv': "ring_inv (r\<lparr>r_cached_head := h\<rparr>)" and v: "reserved (r\<lparr>r_cached_head := h\<rparr>) v"
      and len: "unat (res_len v) = send_count r (length items)"
      using True by (auto simp: un can_reserve_def send_count_def)
    let ?xs = "take (unat (res_len v)) items"
    have xs: "unat (res_len v) = length ?xs" using len by (simp add: send_count_def)
    from fill_commit_spec [OF inv' v, of "res_len v" ?xs] xs obtain b where
      "reservation_fill v 0 ?xs (r\<lparr>r_cached_head := h\<rparr>) = Inr (r\<lparr>r_cached_head := h, r_buffer := b\<rparr>)"
      "ring_inv (ring_commit_internal (res_len v) (r\<lparr>r_cached_head := h, r_buffer := b\<rparr>))"
      "ring_contents (ring_commit_internal (res_len v) (r\<lparr>r_cached_head := h, r_buffer := b\<rparr>)) =
       ring_contents r @ ?xs" by auto
    moreover have "res_len v = of_nat (send_count r (length items))" by (simp flip: len)
    ultimately show ?thesis
      using res len by (auto simp: ring_send_def reservation_commit_def Let_def)
  next
    case False
    then have "send_count r (length items) = 0"
      by (auto simp: can_reserve_def send_count_def un)
    with ring_reserve_None [OF inv False] show ?thesis by (auto simp: ring_send_def)
  qed
qed

section \<open>The consume loops\<close>

lemma slot_take_masked:
  assumes "length b = 2 ^ k" "k \<le> 64" "window b (unat pos) (Suc n) = map Some (x # xs)"
  shows "slot_take b (pos AND mask k) = Inr (x, b[unat pos mod length b := None])"
    and "n < length b \<Longrightarrow> window (b[unat pos mod length b := None]) (unat (pos + 1)) n = map Some xs"
    and "clear_window (b[unat pos mod length b := None]) (unat (pos + 1)) n =
         clear_window b (unat pos) (Suc n)"
proof -
  have ix: "unat (pos AND mask k) = unat pos mod length b"
    using assms(1) by (simp add: unat_and_mask)
  have next_ix: "unat (pos + 1) mod length b = Suc (unat pos) mod length b"
    using unat_add_mod_pow2 [OF assms(2), of pos 1] assms(1) by simp
  have fst: "b ! (unat pos mod length b) = Some x" and rest: "window b (Suc (unat pos)) n = map Some xs"
    using assms(3) by (auto simp: window_Suc)
  show "slot_take b (pos AND mask k) = Inr (x, b[unat pos mod length b := None])"
    using fst assms(1) by (simp add: slot_take_def slot_get_def ix)
  show "window (b[unat pos mod length b := None]) (unat (pos + 1)) n = map Some xs" if "n < length b"
  proof -
    have "window (b[unat pos mod length b := None]) (unat (pos + 1)) n =
          window (b[unat pos mod length b := None]) (Suc (unat pos)) n"
      by (rule window_cong_start) (simp add: next_ix)
    with that rest show ?thesis by (simp add: window_update_first)
  qed
  show "clear_window (b[unat pos mod length b := None]) (unat (pos + 1)) n =
        clear_window b (unat pos) (Suc n)"
    using clear_window_cong [of "unat (pos + 1)" "b[unat pos mod length b := None]"] next_ix by simp
qed

lemma consume_loop_spec:
  assumes "length b = 2 ^ k" "k \<le> 64" "window b (unat pos) (length xs) = map Some xs"
    "unat (tail - pos) = length xs" "length xs \<le> length b"
  shows "consume_loop (mask k) tail f pos n h b =
         Inr (n + of_nat (length xs), foldl f h xs, clear_window b (unat pos) (length xs))"
  using assms
proof (induction xs arbitrary: b pos n h)
  case Nil
  then have "pos = tail" by (metis eq_iff_diff_eq_0 list.size(3) unat_eq_zero)
  then show ?case by (simp add: consume_loop.simps)
next
  case (Cons x xs)
  let ?b = "b[unat pos mod length b := None]"
  have "pos \<noteq> tail" using Cons.prems(4) by auto
  then have dist: "unat (tail - (pos + 1)) = length xs"
    using Cons.prems(4) unat_diff_step [of pos tail] by simp
  note tk = slot_take_masked [OF Cons.prems(1,2), of pos "length xs" x xs]
  have "consume_loop (mask k) tail f pos n h b =
        consume_loop (mask k) tail f (pos + 1) (n + 1) (f h x) ?b"
    using \<open>pos \<noteq> tail\<close> tk(1) Cons.prems(3) by (subst consume_loop.simps) simp
  also have "\<dots> = Inr (n + 1 + of_nat (length xs), foldl f (f h x) xs,
                       clear_window ?b (unat (pos + 1)) (length xs))"
    using Cons.IH [of ?b "pos + 1" "n + 1" "f h x"] tk(2) dist Cons.prems by simp
  finally show ?case using tk(3) Cons.prems(3) by (simp add: algebra_simps)
qed

lemma consume_count_loop_spec:
  assumes "length b = 2 ^ k" "k \<le> 64" "window b (unat pos) (length xs) = map Some xs"
    "unat c + length xs = unat limit" "length xs \<le> length b"
  shows "consume_count_loop (mask k) limit f pos c h b =
         Inr (limit, foldl f h xs, clear_window b (unat pos) (length xs))"
  using assms
proof (induction xs arbitrary: b pos c h)
  case Nil
  then have "c = limit" by (simp add: word_unat_eq_iff)
  then show ?case by (simp add: consume_count_loop.simps)
next
  case (Cons x xs)
  let ?b = "b[unat pos mod length b := None]"
  have lt: "c < limit" using Cons.prems(4) by (simp add: word_less_nat_alt)
  then have "unat (c + 1) + length xs = unat limit"
    using Cons.prems(4) unat_Suc_bounded [of c limit] by simp
  note tk = slot_take_masked [OF Cons.prems(1,2), of pos "length xs" x xs]
  have "consume_count_loop (mask k) limit f pos c h b =
        consume_count_loop (mask k) limit f (pos + 1) (c + 1) (f h x) ?b"
    using lt tk(1) Cons.prems(3) by (subst consume_count_loop.simps) simp
  also have "\<dots> = Inr (limit, foldl f (f h x) xs, clear_window ?b (unat (pos + 1)) (length xs))"
    using Cons.IH [of ?b "pos + 1" "c + 1" "f h x"] tk(2) \<open>unat (c + 1) + _ = _\<close> Cons.prems by simp
  finally show ?case using tk(3) Cons.prems(3) by simp
qed

section \<open>Consuming\<close>

text \<open>Moving the head over \<open>n\<close> occupied slots drops the first \<open>n\<close> items, provided the slots behind
  them were left alone.\<close>

lemma ring_advance_head:
  assumes inv: "ring_inv r" and n: "unat n \<le> occupied r"
    and b: "length b = ring_cap r"
      "window b (unat (r_head r) + unat n) (occupied r - unat n) = drop (unat n) (ring_window r)"
  shows "ring_inv (r\<lparr>r_buffer := b, r_head := r_head r + n\<rparr>) \<and>
         ring_contents (r\<lparr>r_buffer := b, r_head := r_head r + n\<rparr>) = drop (unat n) (ring_contents r)"
proof -
  let ?r = "r\<lparr>r_buffer := b, r_head := r_head r + n\<rparr>"
  have occ: "occupied ?r = occupied r - unat n"
    using unat_dist_sub [of n "r_tail r" "r_head r"] n by (simp add: occupied_def)
  have "window b (unat (r_head r + n)) (occupied r - unat n) =
        window b (unat (r_head r) + unat n) (occupied r - unat n)"
    by (rule window_cong_start) (simp add: b(1) unat_add_mod_ring_cap [OF inv])
  then have win: "ring_window ?r = drop (unat n) (ring_window r)"
    using b(2) by (simp add: ring_window_def occ)
  have "None \<notin> set (ring_window ?r)"
    using inv win in_set_dropD [of None "unat n" "ring_window r"] by (auto simp: ring_inv_def)
  moreover have "occupied ?r \<le> unat (r_tail r - r_cached_head r)"
    unfolding occ using inv by (auto simp: ring_inv_def)
  ultimately have "ring_inv ?r"
    using inv b(1) by (simp add: ring_inv_def ring_cap_def)
  then show ?thesis by (simp add: ring_contents_def win drop_map)
qed

lemma ring_advance_spec:
  assumes inv: "ring_inv r" and n: "unat n \<le> occupied r"
  shows "ring_inv (ring_advance n r) \<and> ring_contents (ring_advance n r) = drop (unat n) (ring_contents r)"
proof -
  have "r\<lparr>r_head := r_head r + n\<rparr> = r\<lparr>r_buffer := r_buffer r, r_head := r_head r + n\<rparr>" by simp
  then show ?thesis
    using ring_advance_head [OF inv n, of "r_buffer r"] n ring_inv_buffer [OF inv]
    by (simp add: ring_advance_def ring_window_def drop_window)
qed

lemma ring_clear_advance:
  assumes inv: "ring_inv r" and n: "n \<le> occupied r"
  shows "ring_inv (r\<lparr>r_buffer := clear_window (r_buffer r) (unat (r_head r)) n, r_head := r_head r + of_nat n\<rparr>) \<and>
         ring_contents (r\<lparr>r_buffer := clear_window (r_buffer r) (unat (r_head r)) n,
                          r_head := r_head r + of_nat n\<rparr>) = drop n (ring_contents r)"
proof -
  have "n < 2 ^ 64" using n ring_inv_occupied [OF inv] ring_cap_small [OF inv] by simp
  then have un: "unat (of_nat n :: u64) = n" by (simp add: unat_of_nat)
  have "window (clear_window (r_buffer r) (unat (r_head r)) n) (unat (r_head r) + n) (occupied r - n) =
        drop n (ring_window r)"
    using n inv ring_inv_occupied [OF inv]
    by (simp add: ring_window_def drop_window window_clear_window ring_inv_def)
  then show ?thesis
    using ring_advance_head [OF inv, of "of_nat n" "clear_window (r_buffer r) (unat (r_head r)) n"]
      n un ring_inv_buffer [OF inv] by simp
qed

lemma ring_mask_eq: "ring_inv r \<Longrightarrow> ring_mask r = mask (unat (ring_bits (r_config r)))"
  by (simp add: ring_inv_def ring_mask_def config_mask_eq_mask)

lemma ring_buffer_pow2: "ring_inv r \<Longrightarrow> length (r_buffer r) = 2 ^ unat (ring_bits (r_config r))"
  by (simp add: ring_inv_def ring_cap_def cap_def)

lemma ring_bits_le: "ring_inv r \<Longrightarrow> unat (ring_bits (r_config r)) \<le> 64"
  using shift_ok_bits [of "r_config r"] by (simp add: ring_inv_def)

lemma take_ring_window:
  "ring_inv r \<Longrightarrow> n \<le> occupied r \<Longrightarrow>
   window (r_buffer r) (unat (r_head r)) n = map Some (take n (ring_contents r))"
  using window_Some_contents [of r] take_window [of n "occupied r" "r_buffer r" "unat (r_head r)"]
  by (simp add: ring_window_def take_map)

text \<open>Running the loop over the first \<open>n\<close> occupied slots of a ring.\<close>

lemma ring_consume_loop:
  assumes inv: "ring_inv r" and n: "n \<le> occupied r"
  shows "consume_loop (ring_mask r) (r_head r + of_nat n) f (r_head r) 0 h (r_buffer r) =
         Inr (of_nat n, foldl f h (take n (ring_contents r)),
              clear_window (r_buffer r) (unat (r_head r)) n)"
proof -
  have "n < 2 ^ 64" using n ring_inv_occupied [OF inv] ring_cap_small [OF inv] by simp
  then have "unat (r_head r + of_nat n - r_head r) = n" by (simp add: unat_of_nat)
  then show ?thesis
    using consume_loop_spec [OF ring_buffer_pow2 [OF inv] ring_bits_le [OF inv],
        of "r_head r" "take n (ring_contents r)" "r_head r + of_nat n" f 0 h]
      take_ring_window [OF inv n] ring_inv_occupied [OF inv] ring_mask_eq [OF inv]
      ring_inv_buffer [OF inv] n
    by (simp add: min_absorb2)
qed

lemma ring_consume_batch_owned_spec:
  assumes inv: "ring_inv r"
  shows "\<exists>r'. ring_consume_batch_owned f h r =
           Inr (of_nat (occupied r), foldl f h (ring_contents r), r') \<and>
         ring_inv r' \<and> consumer_frame r r' \<and> ring_contents r' = []"
proof (cases "r_tail r - r_head r = 0")
  case True
  then have "occupied r = 0" unfolding occupied_def by (metis unat_0)
  then have "ring_contents r = []" by (simp add: occupied_0_iff)
  then show ?thesis using True inv \<open>occupied r = 0\<close> by (simp add: ring_consume_batch_owned_def Let_def)
next
  case False
  have "r_tail r = r_head r + of_nat (occupied r)" by (simp add: occupied_def)
  with ring_consume_loop [OF inv order.refl, of f h] have
    loop: "consume_loop (ring_mask r) (r_tail r) f (r_head r) 0 h (r_buffer r) =
      Inr (of_nat (occupied r), foldl f h (ring_contents r),
           clear_window (r_buffer r) (unat (r_head r)) (occupied r))" by simp
  have "r_tail r = r_head r + of_nat (occupied r)" by (simp add: occupied_def)
  then show ?thesis
    using False loop ring_clear_advance [OF inv, of "occupied r"]
    by (auto simp: ring_consume_batch_owned_def Let_def)
qed

lemma ring_consume_up_to_owned_spec:
  assumes inv: "ring_inv r"
  shows "\<exists>r'. ring_consume_up_to_owned m f h r =
           Inr (of_nat (min (occupied r) (unat m)),
                foldl f h (take (unat m) (ring_contents r)), r') \<and>
         ring_inv r' \<and> consumer_frame r r' \<and> ring_contents r' = drop (unat m) (ring_contents r)"
proof (cases "m = 0 \<or> r_tail r - r_head r = 0")
  case True
  then have "unat m = 0 \<or> occupied r = 0" unfolding occupied_def by (metis unat_0)
  moreover from this have "take (unat m) (ring_contents r) = []"
    "drop (unat m) (ring_contents r) = ring_contents r"
    by (auto simp: occupied_0_iff)
  ultimately show ?thesis
    using True inv by (auto simp: ring_consume_up_to_owned_def Let_def)
next
  case False
  let ?n = "min (occupied r) (unat m)" and ?lim = "min (r_tail r - r_head r) m"
  have lim: "unat ?lim = ?n" by (simp add: min_def word_le_nat_alt occupied_def)
  then have lim': "?lim = of_nat ?n" by (metis of_nat_unat id_apply ucast_id)
  have len: "length (take ?n (ring_contents r)) = ?n" by simp
  have "consume_count_loop (ring_mask r) ?lim f (r_head r) 0 h (r_buffer r) =
      Inr (?lim, foldl f h (take ?n (ring_contents r)), clear_window (r_buffer r) (unat (r_head r)) ?n)"
    using consume_count_loop_spec [OF ring_buffer_pow2 [OF inv] ring_bits_le [OF inv],
        of "r_head r" "take ?n (ring_contents r)" 0 ?lim f h]
      take_ring_window [OF inv, of ?n] ring_inv_occupied [OF inv] ring_mask_eq [OF inv]
      ring_inv_buffer [OF inv] lim
    by (simp add: len)
  moreover have "take ?n (ring_contents r) = take (unat m) (ring_contents r)"
    "drop ?n (ring_contents r) = drop (unat m) (ring_contents r)"
    by (auto simp: min_def)
  ultimately show ?thesis
    using False ring_clear_advance [OF inv, of ?n]
    by (auto simp: ring_consume_up_to_owned_def Let_def lim')
qed

text \<open>The reference variants are the owned ones run with a handler that drops the item after use.\<close>

lemma ring_consume_batch_eq_owned: "ring_consume_batch f s r = ring_consume_batch_owned (drop_after f) s r"
  by (simp add: ring_consume_batch_def ring_consume_batch_owned_def)

lemma ring_consume_up_to_eq_owned:
  "ring_consume_up_to m f s r = ring_consume_up_to_owned m (drop_after f) s r"
  by (simp add: ring_consume_up_to_def ring_consume_up_to_owned_def)

lemma foldl_drop_after: "foldl (drop_after f) (h, d) xs = (foldl f h xs, d @ xs)"
  by (induction xs arbitrary: h d) (auto simp: drop_after_def)

section \<open>Reading in place\<close>

text \<open>
  The consumer's cached tail lies between head and tail.  \<open>readable\<close> relies on it; the batch
  consumers do not maintain it.
\<close>

definition cache_ok :: "'a ring \<Rightarrow> bool" where
  "cache_ok r \<longleftrightarrow> unat (r_cached_tail r - r_head r) \<le> occupied r"

lemma slots_get_window:
  assumes "unat i + n \<le> length b" "length b < 2 ^ 64" "window b (unat i) n = map Some xs"
  shows "slots_get b i n = Inr xs"
  using assms
proof (induction n arbitrary: i xs)
  case (Suc n)
  then obtain y ys where xs: "xs = y # ys" by (cases xs) (auto simp: window_Suc)
  have "unat (i + 1) = Suc (unat i)"
    using Suc.prems(1,2) unat_add_lem [of i 1] by simp
  moreover have "unat i mod length b = unat i" using Suc.prems(1) by simp
  ultimately show ?case
    using Suc.IH [of "i + 1" ys] Suc.prems by (auto simp: window_Suc xs slot_get_def)
qed simp

lemma slots_get_prefix: "slots_get b i n = Inr xs \<Longrightarrow> m \<le> n \<Longrightarrow> slots_get b i m = Inr (take m xs)"
proof (induction n arbitrary: i xs m)
  case (Suc n)
  then show ?case by (cases m) (auto simp: try_bind_Inr_iff)
qed simp

lemma ring_readable_spec:
  assumes inv: "ring_inv r" and cache: "cache_ok r"
  shows "\<exists>t. (if ring_contents r = [] then ring_readable r = Inr (None, r\<lparr>r_cached_tail := t\<rparr>)
              else \<exists>i n. ring_readable r = Inr (Some (i, n), r\<lparr>r_cached_tail := t\<rparr>) \<and> 0 < unat n \<and>
                     unat n \<le> unat (t - r_head r) \<and>
                     slots_get (r_buffer r) i (unat n) = Inr (take (unat n) (ring_contents r))) \<and>
             cache_ok (r\<lparr>r_cached_tail := t\<rparr>)"
proof -
  define t where "t = (if r_cached_tail r - r_head r = 0 then r_tail r else r_cached_tail r)"
  define avail where "avail = t - r_head r"
  have av: "unat avail \<le> occupied r"
    using cache by (auto simp: t_def avail_def cache_ok_def occupied_def)
  have empty: "avail = 0 \<longleftrightarrow> ring_contents r = []"
  proof -
    have "ring_contents r = [] \<longleftrightarrow> r_tail r - r_head r = 0"
      by (metis length_0_conv length_ring_contents occupied_def unat_eq_zero)
    moreover have "r_tail r - r_head r = 0 \<Longrightarrow> avail = 0"
      using av by (metis le_zero_eq occupied_def unat_0 unat_eq_zero)
    ultimately show ?thesis by (auto simp: avail_def t_def)
  qed
  let ?i = "r_head r AND ring_mask r"
  let ?n = "min avail (ring_capacity r - ?i)"
  have i: "unat ?i = unat (r_head r) mod ring_cap r" by (rule unat_and_ring_mask [OF inv])
  have lt: "unat ?i < ring_cap r" using ring_cap_small [OF inv] by (simp add: i)
  have rest: "unat (ring_capacity r - ?i) = ring_cap r - unat ?i"
    using lt by (simp add: unat_sub word_le_nat_alt unat_ring_capacity [OF inv])
  then have n: "unat ?n = min (unat avail) (ring_cap r - unat ?i)"
    by (simp add: min_def word_le_nat_alt)
  have lb: "length (r_buffer r) = ring_cap r" using inv by (simp add: ring_inv_def)
  have "window (r_buffer r) (unat ?i) (unat ?n) = window (r_buffer r) (unat (r_head r)) (unat ?n)"
    by (rule window_cong_start) (simp add: i lb)
  also have "\<dots> = map Some (take (unat ?n) (ring_contents r))"
    using av n by (intro take_ring_window [OF inv]) simp
  finally have items: "slots_get (r_buffer r) ?i (unat ?n) = Inr (take (unat ?n) (ring_contents r))"
    using lt n lb ring_cap_small [OF inv] by (intro slots_get_window) auto
  have rd: "ring_readable r = (if avail = 0 then Inr (None, r\<lparr>r_cached_tail := t\<rparr>)
                               else Inr (Some (?i, ?n), r\<lparr>r_cached_tail := t\<rparr>))"
    using lt lb by (auto simp: ring_readable_def Let_def avail_def t_def)
  have "cache_ok (r\<lparr>r_cached_tail := t\<rparr>)"
    using av by (simp add: cache_ok_def avail_def occupied_def)
  moreover have "avail \<noteq> 0 \<Longrightarrow> 0 < unat ?n \<and> unat ?n \<le> unat (t - r_head r)"
    using lt unat_gt_0 [of avail] by (simp add: n flip: avail_def)
  ultimately show ?thesis using rd items empty by (intro exI [of _ t]) auto
qed

lemma ring_recv_spec:
  assumes inv: "ring_inv r" and cache: "cache_ok r" and out: "length out < 2 ^ 64"
  shows "\<exists>n r'. ring_recv out r = Inr (of_nat n, take n (ring_contents r) @ drop n out, r') \<and>
           n \<le> length out \<and> n \<le> occupied r \<and> (n = 0 \<longleftrightarrow> out = [] \<or> ring_contents r = []) \<and>
           ring_inv r' \<and> cache_ok r' \<and> consumer_frame r r' \<and>
           ring_contents r' = drop n (ring_contents r)"
proof -
  obtain t where rd: "if ring_contents r = [] then ring_readable r = Inr (None, r\<lparr>r_cached_tail := t\<rparr>)
      else \<exists>i n. ring_readable r = Inr (Some (i, n), r\<lparr>r_cached_tail := t\<rparr>) \<and> 0 < unat n \<and>
             unat n \<le> unat (t - r_head r) \<and>
             slots_get (r_buffer r) i (unat n) = Inr (take (unat n) (ring_contents r))"
    and ct: "cache_ok (r\<lparr>r_cached_tail := t\<rparr>)"
    using ring_readable_spec [OF inv cache] by auto
  show ?thesis
  proof (cases "ring_contents r = []")
    case True
    with rd ct inv show ?thesis by (auto simp: ring_recv_def intro!: exI [of _ 0])
  next
    case False
    with rd obtain i m where m: "ring_readable r = Inr (Some (i, m), r\<lparr>r_cached_tail := t\<rparr>)"
      "0 < unat m" "unat m \<le> unat (t - r_head r)"
      "slots_get (r_buffer r) i (unat m) = Inr (take (unat m) (ring_contents r))" by auto
    let ?n = "min m (of_nat (length out))"
    have ol: "unat (of_nat (length out) :: usize) = length out" using out by (simp add: unat_of_nat)
    have un: "unat ?n = min (unat m) (length out)" by (simp add: min_def word_le_nat_alt ol)
    have mo: "unat m \<le> occupied r" using m(3) ct by (simp add: cache_ok_def occupied_def)
    have sg: "slots_get (r_buffer r) i (unat ?n) = Inr (take (unat ?n) (ring_contents r))"
      using slots_get_prefix [OF m(4), of "unat ?n"] un by (simp add: min_def)
    let ?r = "ring_advance ?n (r\<lparr>r_cached_tail := t\<rparr>)"
    have adv: "ring_inv ?r" "ring_contents ?r = drop (unat ?n) (ring_contents r)"
      using ring_advance_spec [of "r\<lparr>r_cached_tail := t\<rparr>" ?n] inv un mo by (auto simp: occupied_def)
    have "cache_ok ?r"
      using ct m(3) un by (auto simp: cache_ok_def occupied_def ring_advance_def unat_dist_sub)
    moreover have "consumer_frame r ?r"
      by (simp add: consumer_frame_def same_ring_def ring_advance_def record_received_def)
    moreover have "?n = of_nat (unat ?n)" by simp
    moreover have "unat ?n = 0 \<longleftrightarrow> out = []" "unat ?n \<le> length out" "unat ?n \<le> occupied r"
      using m(2) mo unfolding un by (auto simp: min_def split: if_splits)
    moreover have "ring_recv out r = Inr (?n, take (unat ?n) (ring_contents r) @ drop (unat ?n) out, ?r)"
      using m(1) sg by (simp add: ring_recv_def Let_def)
    ultimately show ?thesis
      using adv False by (intro exI [of _ "unat ?n"] exI [of _ ?r]) (metis)
  qed
qed

text \<open>The producer never invalidates the consumer's cache.\<close>

lemma cache_ok_producer:
  "cache_ok r \<Longrightarrow> producer_frame r r' \<Longrightarrow> occupied r \<le> occupied r' \<Longrightarrow> cache_ok r'"
  by (auto simp: cache_ok_def producer_frame_def)

section \<open>Drop\<close>

lemma drop_loop_spec:
  assumes "length b = 2 ^ k" "k \<le> 64" "window b (unat (head + of_nat i)) (length xs) = map Some xs"
    "length xs \<le> length b"
  shows "drop_loop (mask k) head i (length xs) b =
         Inr (xs, clear_window b (unat (head + of_nat i)) (length xs))"
  using assms
proof (induction xs arbitrary: b i)
  case (Cons x xs)
  note tk = slot_take_masked [OF Cons.prems(1,2), of "head + of_nat i" "length xs" x xs]
  have eq: "head + of_nat i + 1 = head + of_nat (Suc i)" by simp
  show ?case
    using Cons.IH [of "b[unat (head + of_nat i) mod length b := None]" "Suc i"]
      tk [unfolded eq] Cons.prems by simp
qed simp

lemma ring_drop_spec:
  assumes inv: "ring_inv r"
  shows "ring_drop r = Inr (ring_contents r, clear_window (r_buffer r) (unat (r_head r)) (occupied r))"
  using drop_loop_spec [OF ring_buffer_pow2 [OF inv] ring_bits_le [OF inv], of "r_head r" 0 "ring_contents r"]
    take_ring_window [OF inv, of "occupied r"] ring_inv_occupied [OF inv] ring_mask_eq [OF inv]
    ring_inv_buffer [OF inv]
  by (simp add: ring_drop_def flip: occupied_def)

section \<open>Backoff loop\<close>

text \<open>
  With an environment that keeps the invariant, the loop returns, keeps the invariant, and a
  reservation it returns is a good one.
\<close>

lemma reserve_backoff_loop_spec:
  "(\<And>k r. ring_inv r \<Longrightarrow> ring_inv (env k r)) \<Longrightarrow> ring_inv r \<Longrightarrow>
     \<exists>res r'. reserve_backoff_loop env n k b r = Inr (res, r') \<and> ring_inv r' \<and>
       (\<forall>v. res = Some v \<longrightarrow> reserved r' v \<and> unat (res_len v) \<le> unat n)"
proof (induction env n k b r rule: reserve_backoff_loop.induct)
  case (1 env n k b r)
  note inv = "1.prems"(2)
  show ?case
  proof (cases "backoff_is_completed b")
    case True
    then show ?thesis using inv by (simp add: reserve_backoff_loop.simps)
  next
    case False
    show ?thesis
    proof (cases "can_reserve n r")
      case True
      from ring_reserve_Some [OF inv True] False show ?thesis
        by (auto simp: reserve_backoff_loop.simps [of env n k b r])
    next
      case no: False
      then obtain h where h: "ring_reserve n r = Inr (None, r\<lparr>r_cached_head := h\<rparr>)"
        "ring_inv (r\<lparr>r_cached_head := h\<rparr>)"
        using ring_reserve_None [OF inv no] by auto
      let ?r = "r\<lparr>r_cached_head := h\<rparr>"
      show ?thesis
      proof (cases "ring_is_closed ?r")
        case True
        then show ?thesis using h False by (simp add: reserve_backoff_loop.simps [of env n k b r])
      next
        case opn: False
        have "ring_inv (env k ?r)" using "1.prems"(1) h(2) by blast
        with "1.IH" [OF False refl opn] "1.prems"(1) h opn False
        show ?thesis by (simp add: reserve_backoff_loop.simps [of env n k b r])
      qed
    qed
  qed
qed

section \<open>The heap ring meets the contracts of the channel\<close>

interpretation ring_push: ring_producer ring_inv ring_contents ring_push
    "\<lambda>r. occupied r < ring_cap r"
proof
  show "length (ring_contents r) < 2 ^ 64" if "ring_inv r" for r :: "'a ring"
    using ring_inv_occupied [OF that] ring_cap_small [OF that] by simp
qed (use ring_push_spec in fastforce)

interpretation ring_owned: ring_batch_consumer ring_inv ring_contents
    "ring_consume_batch_owned f" f for f
  by unfold_locales (use ring_consume_batch_owned_spec in fastforce)

interpretation ring_ref: ring_batch_consumer ring_inv ring_contents
    "ring_consume_batch f" "drop_after f" for f
  by unfold_locales (use ring_consume_batch_owned_spec in \<open>fastforce simp: ring_consume_batch_eq_owned\<close>)

interpretation ring_owned_up_to: ring_bounded_consumer ring_inv ring_contents
    "\<lambda>m. ring_consume_up_to_owned m f" f for f
  by unfold_locales (use ring_consume_up_to_owned_spec in fastforce)

interpretation ring_ref_up_to: ring_bounded_consumer ring_inv ring_contents
    "\<lambda>m. ring_consume_up_to m f" "drop_after f" for f
  by unfold_locales (use ring_consume_up_to_owned_spec in \<open>fastforce simp: ring_consume_up_to_eq_owned\<close>)

end
