(* ===== verification/Channel.thy ===== *)
theory Channel
  imports Ring_Refine
begin

text \<open>
  The multi-producer channel over heap rings (\<open>channel.rs\<close>): one ring per producer slot, a count of
  registered producers and a closed flag.  Registration is split at its atomic increment
  (\<open>register_claim\<close>, \<open>register_finish\<close>) so that what other threads see in between can be stated.
  The consumers drain the rings of the registered producers in order; the lemmas say which items
  reach the handler and what stays behind, for every number of rings.
\<close>

section \<open>State\<close>

datatype channel_error = TooManyProducers usize | Closed

text \<open>
  \<open>ChannelInner\<close>.  \<open>ch_debug\<close> is whether the build has debug assertions, in which case
  \<open>ch_consumed_counts\<close> exists and is maintained.
\<close>

record 'a channel =
  ch_rings :: "'a ring list"
  ch_producer_count :: usize
  ch_closed :: bool
  ch_config :: config
  ch_debug :: bool
  ch_consumed_counts :: "u64 list"

definition channel_new_in :: "bool \<Rightarrow> config \<Rightarrow> (usize \<Rightarrow> 'a slots) \<Rightarrow> 'a channel" where
  "channel_new_in debug c allocate =
     \<lparr>ch_rings = replicate (unat (max_producers c)) (ring_new_in c allocate),
      ch_producer_count = 0, ch_closed = False, ch_config = c, ch_debug = debug,
      ch_consumed_counts = replicate (unat (max_producers c)) 0\<rparr>"

definition channel_new :: "bool \<Rightarrow> config \<Rightarrow> 'a channel" where
  "channel_new debug c = channel_new_in debug c heap_allocate"

section \<open>Registration\<close>

text \<open>The closed check and \<open>fetch_add\<close>; the value it returns is the claimed id.\<close>

definition register_claim :: "'a channel \<Rightarrow> (channel_error + usize) \<times> 'a channel" where
  "register_claim ch =
     (if ch_closed ch then (Inl Closed, ch)
      else (Inr (ch_producer_count ch),
            ch\<lparr>ch_producer_count := ch_producer_count ch + 1\<rparr>))"

text \<open>The rest: roll back when the id is too large, otherwise activate the ring.\<close>

definition register_finish :: "usize \<Rightarrow> 'a channel \<Rightarrow> fault + (channel_error + usize) \<times> 'a channel" where
  "register_finish i ch =
     (if max_producers (ch_config ch) \<le> i
      then Inr (Inl (TooManyProducers (max_producers (ch_config ch))),
                ch\<lparr>ch_producer_count := ch_producer_count ch - 1\<rparr>)
      else if unat i < length (ch_rings ch)
      then Inr (Inr i, ch\<lparr>ch_rings := (ch_rings ch)[unat i := ring_set_active True (ch_rings ch ! unat i)]\<rparr>)
      else Inl Out_Of_Bounds)"

definition channel_register :: "'a channel \<Rightarrow> fault + (channel_error + usize) \<times> 'a channel" where
  "channel_register ch =
     (case register_claim ch of
        (Inl e, ch') \<Rightarrow> Inr (Inl e, ch')
      | (Inr i, ch') \<Rightarrow> register_finish i ch')"

section \<open>Consumer side\<close>

text \<open>\<open>rings[..count]\<close>: the slice panics when \<open>count\<close> exceeds the number of rings.\<close>

definition slice_to :: "usize \<Rightarrow> 'r list \<Rightarrow> fault + 'r list" where
  "slice_to n rs = (if unat n \<le> length rs then Inr (take (unat n) rs) else Inl Panicked)"

definition put_rings :: "'a ring list \<Rightarrow> 'a channel \<Rightarrow> 'a channel" where
  "put_rings rs ch = ch\<lparr>ch_rings := rs @ drop (length rs) (ch_rings ch)\<rparr>"

definition channel_consume_all_owned ::
    "('h \<Rightarrow> 'a \<Rightarrow> 'h) \<Rightarrow> 'h \<Rightarrow> 'a channel \<Rightarrow> fault + usize \<times> 'h \<times> 'a channel" where
  "channel_consume_all_owned f h ch =
     try_bind (slice_to (ch_producer_count ch) (ch_rings ch)) (\<lambda>rs.
       try_bind (consume_rings (ch_debug ch) (ring_consume_batch_owned f) 0 0 h (ch_consumed_counts ch) rs)
         (\<lambda>(n, h', counts, rs'). Inr (n, h', put_rings rs' (ch\<lparr>ch_consumed_counts := counts\<rparr>))))"

definition channel_consume_all ::
    "('h \<Rightarrow> 'a \<Rightarrow> 'h) \<Rightarrow> 'h \<times> 'a list \<Rightarrow> 'a channel \<Rightarrow> fault + usize \<times> ('h \<times> 'a list) \<times> 'a channel" where
  "channel_consume_all f h ch =
     try_bind (slice_to (ch_producer_count ch) (ch_rings ch)) (\<lambda>rs.
       try_bind (consume_rings (ch_debug ch) (ring_consume_batch f) 0 0 h (ch_consumed_counts ch) rs)
         (\<lambda>(n, h', counts, rs'). Inr (n, h', put_rings rs' (ch\<lparr>ch_consumed_counts := counts\<rparr>))))"

definition channel_consume_all_up_to_owned ::
    "usize \<Rightarrow> ('h \<Rightarrow> 'a \<Rightarrow> 'h) \<Rightarrow> 'h \<Rightarrow> 'a channel \<Rightarrow> fault + usize \<times> 'h \<times> 'a channel" where
  "channel_consume_all_up_to_owned max_total f h ch =
     try_bind (slice_to (ch_producer_count ch) (ch_rings ch)) (\<lambda>rs.
       try_bind (consume_rings_up_to (ch_debug ch) (\<lambda>m. ring_consume_up_to_owned m f) max_total 0 0 h
                   (ch_consumed_counts ch) rs)
         (\<lambda>(n, h', counts, rs'). Inr (n, h', put_rings rs' (ch\<lparr>ch_consumed_counts := counts\<rparr>))))"

definition channel_consume_all_up_to ::
    "usize \<Rightarrow> ('h \<Rightarrow> 'a \<Rightarrow> 'h) \<Rightarrow> 'h \<times> 'a list \<Rightarrow> 'a channel \<Rightarrow>
     fault + usize \<times> ('h \<times> 'a list) \<times> 'a channel" where
  "channel_consume_all_up_to max_total f h ch =
     try_bind (slice_to (ch_producer_count ch) (ch_rings ch)) (\<lambda>rs.
       try_bind (consume_rings_up_to (ch_debug ch) (\<lambda>m. ring_consume_up_to m f) max_total 0 0 h
                   (ch_consumed_counts ch) rs)
         (\<lambda>(n, h', counts, rs'). Inr (n, h', put_rings rs' (ch\<lparr>ch_consumed_counts := counts\<rparr>))))"

text \<open>\<open>recv\<close>: each ring fills what is left of \<open>out\<close>; stop when \<open>out\<close> is full.\<close>

fun recv_rings :: "usize \<Rightarrow> 'a list \<Rightarrow> 'a ring list \<Rightarrow> fault + usize \<times> 'a list \<times> 'a ring list" where
  "recv_rings tot out [] = Inr (tot, out, [])"
| "recv_rings tot out (r # rs) =
     (if length out \<le> unat tot then Inr (tot, out, r # rs)
      else try_bind (ring_recv (drop (unat tot) out) r) (\<lambda>(n, part, r').
        try_bind (recv_rings (tot + n) (take (unat tot) out @ part) rs)
          (\<lambda>(tot', out', rs'). Inr (tot', out', r' # rs'))))"

definition channel_recv :: "'a list \<Rightarrow> 'a channel \<Rightarrow> fault + usize \<times> 'a list \<times> 'a channel" where
  "channel_recv out ch =
     try_bind (slice_to (ch_producer_count ch) (ch_rings ch)) (\<lambda>rs.
       try_bind (recv_rings 0 out rs)
         (\<lambda>(n, out', rs'). Inr (n, out', put_rings rs' ch)))"

section \<open>Lifecycle and status\<close>

definition channel_close :: "'a channel \<Rightarrow> fault + 'a channel" where
  "channel_close ch =
     (let ch' = ch\<lparr>ch_closed := True\<rparr>
      in try_bind (slice_to (ch_producer_count ch') (ch_rings ch'))
           (\<lambda>rs. Inr (put_rings (map ring_close rs) ch')))"

definition channel_is_closed :: "'a channel \<Rightarrow> bool" where
  "channel_is_closed ch = ch_closed ch"

definition channel_producer_count :: "'a channel \<Rightarrow> usize" where
  "channel_producer_count ch = ch_producer_count ch"

definition metrics_add :: "metrics \<Rightarrow> metrics \<Rightarrow> metrics" where
  "metrics_add m rm =
     \<lparr>messages_sent = messages_sent m + messages_sent rm,
      messages_received = messages_received m + messages_received rm,
      batches_sent = batches_sent m + batches_sent rm,
      batches_received = batches_received m + batches_received rm,
      reserve_spins = reserve_spins m + reserve_spins rm\<rparr>"

definition channel_metrics :: "'a channel \<Rightarrow> fault + metrics" where
  "channel_metrics ch =
     try_bind (slice_to (ch_producer_count ch) (ch_rings ch))
       (\<lambda>rs. Inr (foldl (\<lambda>m r. metrics_add m (ring_metrics r)) metrics_new rs))"

definition channel_get_ring :: "usize \<Rightarrow> 'a channel \<Rightarrow> fault + 'a ring option" where
  "channel_get_ring i ch =
     (if i < max_producers (ch_config ch)
      then (if unat i < length (ch_rings ch) then Inr (Some (ch_rings ch ! unat i)) else Inl Out_Of_Bounds)
      else Inr None)"

section \<open>Producer handles\<close>

text \<open>
  A \<open>Producer\<close> is the shared channel and its id; each method is the ring's method on
  \<open>rings[id]\<close>.
\<close>

definition on_ring :: "usize \<Rightarrow> ('a ring \<Rightarrow> fault + 'b \<times> 'a ring) \<Rightarrow> 'a channel \<Rightarrow> fault + 'b \<times> 'a channel" where
  "on_ring i g ch =
     (if unat i < length (ch_rings ch)
      then try_bind (g (ch_rings ch ! unat i))
             (\<lambda>(x, r). Inr (x, ch\<lparr>ch_rings := (ch_rings ch)[unat i := r]\<rparr>))
      else Inl Out_Of_Bounds)"

definition producer_reserve :: "usize \<Rightarrow> usize \<Rightarrow> 'a channel \<Rightarrow> fault + reservation option \<times> 'a channel" where
  "producer_reserve i n = on_ring i (ring_reserve n)"

definition producer_reserve_with_backoff ::
    "(nat \<Rightarrow> 'a ring \<Rightarrow> 'a ring) \<Rightarrow> usize \<Rightarrow> usize \<Rightarrow> 'a channel \<Rightarrow> fault + reservation option \<times> 'a channel" where
  "producer_reserve_with_backoff env i n = on_ring i (ring_reserve_with_backoff env n)"

definition producer_push :: "usize \<Rightarrow> 'a \<Rightarrow> 'a channel \<Rightarrow> fault + bool \<times> 'a channel" where
  "producer_push i x = on_ring i (ring_push x)"

definition producer_send :: "usize \<Rightarrow> 'a list \<Rightarrow> 'a channel \<Rightarrow> fault + usize \<times> 'a channel" where
  "producer_send i xs = on_ring i (ring_send xs)"

definition producer_close :: "usize \<Rightarrow> 'a channel \<Rightarrow> fault + unit \<times> 'a channel" where
  "producer_close i = on_ring i (\<lambda>r. Inr ((), ring_close r))"

definition producer_is_closed :: "usize \<Rightarrow> 'a channel \<Rightarrow> fault + bool \<times> 'a channel" where
  "producer_is_closed i = on_ring i (\<lambda>r. Inr (ring_is_closed r, r))"

section \<open>Invariant\<close>

text \<open>
  As many rings as the configuration allows, every one of them well formed, no more registered
  producers than rings, and nothing in the rings no producer has.
\<close>

definition channel_inv :: "'a channel \<Rightarrow> bool" where
  "channel_inv ch \<longleftrightarrow>
     valid_config (ch_config ch) \<and>
     length (ch_rings ch) = unat (max_producers (ch_config ch)) \<and>
     length (ch_consumed_counts ch) = length (ch_rings ch) \<and>
     unat (ch_producer_count ch) \<le> length (ch_rings ch) \<and>
     (\<forall>r\<in>set (ch_rings ch). ring_inv r)"

text \<open>The rings of the registered producers, and what they hold.\<close>

definition registered :: "'a channel \<Rightarrow> 'a ring list" where
  "registered ch = take (unat (ch_producer_count ch)) (ch_rings ch)"

definition queued :: "'a channel \<Rightarrow> 'a list list" where
  "queued ch = map ring_contents (registered ch)"

text \<open>What the consumer leaves alone: everything but the rings of registered producers.\<close>

definition same_channel :: "'a channel \<Rightarrow> 'a channel \<Rightarrow> bool" where
  "same_channel ch ch' \<longleftrightarrow>
     ch_producer_count ch' = ch_producer_count ch \<and> ch_closed ch' = ch_closed ch \<and>
     ch_config ch' = ch_config ch \<and> ch_debug ch' = ch_debug ch \<and>
     drop (unat (ch_producer_count ch)) (ch_rings ch') = drop (unat (ch_producer_count ch)) (ch_rings ch)"

lemma slice_registered: "channel_inv ch \<Longrightarrow> slice_to (ch_producer_count ch) (ch_rings ch) = Inr (registered ch)"
  by (simp add: slice_to_def channel_inv_def registered_def)

lemma registered_inv: "channel_inv ch \<Longrightarrow> r \<in> set (registered ch) \<Longrightarrow> ring_inv r"
  by (auto simp: channel_inv_def registered_def dest: in_set_takeD)

lemma length_registered: "channel_inv ch \<Longrightarrow> length (registered ch) = unat (ch_producer_count ch)"
  by (simp add: channel_inv_def registered_def)

lemma put_rings_spec:
  assumes "channel_inv ch" "length rs = length (registered ch)" "\<forall>r\<in>set rs. ring_inv r"
    "length counts = length (ch_consumed_counts ch)"
  shows "channel_inv (put_rings rs (ch\<lparr>ch_consumed_counts := counts\<rparr>))"
    "registered (put_rings rs (ch\<lparr>ch_consumed_counts := counts\<rparr>)) = rs"
  using assms length_registered [OF assms(1)]
  by (auto simp: channel_inv_def registered_def put_rings_def dest: in_set_dropD)

lemma channel_new_inv: "valid_config c \<Longrightarrow> channel_inv (channel_new debug c)"
  using ring_new_inv [OF valid_config_shift_ok]
  by (auto simp: channel_inv_def channel_new_def channel_new_in_def ring_new_def)

lemma length_add_counts [simp]: "length (add_counts i ns counts) = length counts"
  by (induction i ns counts rule: add_counts.induct) auto

section \<open>What the operations do\<close>

lemma channel_register_spec:
  assumes inv: "channel_inv ch"
  shows "(\<exists>ch'. channel_register ch =
      Inr (if ch_closed ch then Inl Closed
           else if ch_producer_count ch = max_producers (ch_config ch)
           then Inl (TooManyProducers (max_producers (ch_config ch)))
           else Inr (ch_producer_count ch), ch') \<and> channel_inv ch' \<and>
      (if ch_closed ch \<or> ch_producer_count ch = max_producers (ch_config ch) then ch' = ch
       else ch_producer_count ch' = ch_producer_count ch + 1 \<and>
            unat (ch_producer_count ch') = Suc (unat (ch_producer_count ch)) \<and>
            map ring_contents (ch_rings ch') = map ring_contents (ch_rings ch) \<and>
            ch_closed ch' = ch_closed ch \<and> ch_config ch' = ch_config ch))"
proof (cases "ch_closed ch \<or> ch_producer_count ch = max_producers (ch_config ch)")
  case True
  then show ?thesis
    using inv by (auto simp: channel_register_def register_claim_def register_finish_def)
next
  case False
  let ?i = "ch_producer_count ch"
  have le: "unat ?i \<le> unat (max_producers (ch_config ch))" "unat (max_producers (ch_config ch)) \<le> 128"
    using inv valid_config_producers [of "ch_config ch"] by (auto simp: channel_inv_def)
  with False have lt: "?i < max_producers (ch_config ch)"
    by (auto simp: word_less_nat_alt word_unat_eq_iff)
  then have lt': "unat ?i < length (ch_rings ch)" using inv by (simp add: channel_inv_def word_less_nat_alt)
  have suc: "unat (?i + 1) = Suc (unat ?i)" using unat_Suc_bounded [OF lt] .
  let ?ch = "ch\<lparr>ch_producer_count := ?i + 1,
      ch_rings := (ch_rings ch)[unat ?i := ring_set_active True (ch_rings ch ! unat ?i)]\<rparr>"
  have "channel_register ch = Inr (Inr ?i, ?ch)"
    using False lt lt' by (simp add: channel_register_def register_claim_def register_finish_def not_le)
  moreover have "channel_inv ?ch"
    using inv lt' suc nth_mem [OF lt']
    by (auto simp: channel_inv_def ring_set_active_def dest!: set_update_subset_insert [THEN subsetD])
  moreover have "map ring_contents (ch_rings ?ch) = map ring_contents (ch_rings ch)"
    using lt' by (simp add: map_update ring_set_active_def) (metis list_update_id map_update nth_map length_map)
  ultimately show ?thesis using False suc by auto
qed

lemma channel_consume_all_owned_spec:
  assumes inv: "channel_inv ch" and fit: "counts_fit (ch_debug ch) 0 (map length (queued ch)) (ch_consumed_counts ch)"
  shows "\<exists>ch'. channel_consume_all_owned f h ch =
           Inr (of_nat (length (concat (queued ch))), foldl f h (concat (queued ch)), ch') \<and>
         channel_inv ch' \<and> (\<forall>r\<in>set (registered ch'). ring_contents r = []) \<and> same_channel ch ch'"
proof -
  let ?c = "if ch_debug ch then add_counts 0 (map length (queued ch)) (ch_consumed_counts ch)
            else ch_consumed_counts ch"
  obtain rs where rs: "consume_rings (ch_debug ch) (ring_consume_batch_owned f) 0 0 h (ch_consumed_counts ch)
        (registered ch) = Inr (of_nat (length (concat (queued ch))), foldl f h (concat (queued ch)), ?c, rs)"
    "length rs = length (registered ch)" "\<forall>r\<in>set rs. ring_inv r \<and> ring_contents r = []"
    using ring_owned.consume_rings_spec [of "registered ch" "ch_debug ch" 0 "ch_consumed_counts ch" f 0 h]
      registered_inv [OF inv] fit by (auto simp: queued_def o_def)
  have inv': "\<forall>r\<in>set rs. ring_inv r" and len: "length ?c = length (ch_consumed_counts ch)"
    using rs(3) by auto
  note pr = put_rings_spec [OF inv rs(2) inv' len]
  have "same_channel ch (put_rings rs (ch\<lparr>ch_consumed_counts := ?c\<rparr>))"
    using rs(2) by (simp add: same_channel_def put_rings_def length_registered [OF inv])
  then show ?thesis
    unfolding channel_consume_all_owned_def slice_registered [OF inv]
    using rs(1,3) pr by (auto simp: queued_def)
qed

lemma channel_consume_all_up_to_owned_spec:
  assumes inv: "channel_inv ch" and rel: "\<not> ch_debug ch"
  shows "\<exists>ch'. channel_consume_all_up_to_owned m f h ch =
           Inr (of_nat (min (length (concat (queued ch))) (unat m)),
                foldl f h (take (unat m) (concat (queued ch))), ch') \<and>
         channel_inv ch' \<and> concat (queued ch') = drop (unat m) (concat (queued ch)) \<and>
         list_all2 (\<lambda>r r'. ring_inv r' \<and> suffix (ring_contents r') (ring_contents r))
           (registered ch) (registered ch') \<and> same_channel ch ch'"
proof -
  obtain rs where rs: "consume_rings_up_to False (\<lambda>m. ring_consume_up_to_owned m f) m 0 0 h
        (ch_consumed_counts ch) (registered ch) =
      Inr (of_nat (min (length (concat (queued ch))) (unat m)),
           foldl f h (take (unat m) (concat (queued ch))), ch_consumed_counts ch, rs)"
    "list_all2 (\<lambda>r r'. ring_inv r' \<and> suffix (ring_contents r') (ring_contents r)) (registered ch) rs"
    "concat (map ring_contents rs) = drop (unat m) (concat (queued ch))"
    using ring_owned_up_to.consume_rings_up_to_spec [of "registered ch" 0 m f 0 h "ch_consumed_counts ch"]
      registered_inv [OF inv] by (auto simp: queued_def)
  have rs': "length rs = length (registered ch)" "\<forall>r\<in>set rs. ring_inv r"
    using rs(2) by (auto simp: list_all2_conv_all_nth in_set_conv_nth)
  note pr = put_rings_spec [OF inv rs' refl]
  have "same_channel ch (put_rings rs ch)" using rs' by (simp add: same_channel_def put_rings_def length_registered [OF inv])
  then show ?thesis
    unfolding channel_consume_all_up_to_owned_def slice_registered [OF inv]
    using rs(1,2,3) pr rel by (auto simp: queued_def)
qed

lemma channel_consume_all_eq_owned:
  "channel_consume_all f h ch = channel_consume_all_owned (drop_after f) h ch"
  unfolding channel_consume_all_def channel_consume_all_owned_def
  by (simp add: ring_consume_batch_eq_owned [abs_def])

lemma channel_consume_all_up_to_eq_owned:
  "channel_consume_all_up_to m f h ch = channel_consume_all_up_to_owned m (drop_after f) h ch"
  unfolding channel_consume_all_up_to_def channel_consume_all_up_to_owned_def
  by (simp add: ring_consume_up_to_eq_owned [abs_def])

text \<open>A producer's push touches its own ring only.\<close>

lemma producer_push_spec:
  assumes inv: "channel_inv ch" and i: "unat i < unat (ch_producer_count ch)"
  shows "\<exists>ch' r'. producer_push i x ch = Inr (occupied (ch_rings ch ! unat i) < cap (r_config (ch_rings ch ! unat i)), ch') \<and>
           ch' = ch\<lparr>ch_rings := (ch_rings ch)[unat i := r']\<rparr> \<and> channel_inv ch' \<and>
           ring_contents r' = (if occupied (ch_rings ch ! unat i) < cap (r_config (ch_rings ch ! unat i))
             then ring_contents (ch_rings ch ! unat i) @ [x] else ring_contents (ch_rings ch ! unat i))"
proof -
  have lt: "unat i < length (ch_rings ch)" using inv i by (simp add: channel_inv_def)
  then have "ring_inv (ch_rings ch ! unat i)" using inv by (simp add: channel_inv_def)
  from ring_push_spec [OF this, of x] obtain r' where
    r': "ring_push x (ch_rings ch ! unat i) =
         Inr (occupied (ch_rings ch ! unat i) < cap (r_config (ch_rings ch ! unat i)), r')" "ring_inv r'"
      "ring_contents r' = (if occupied (ch_rings ch ! unat i) < cap (r_config (ch_rings ch ! unat i))
         then ring_contents (ch_rings ch ! unat i) @ [x] else ring_contents (ch_rings ch ! unat i))"
    by (auto simp: ring_cap_def)
  have "channel_inv (ch\<lparr>ch_rings := (ch_rings ch)[unat i := r']\<rparr>)"
    using inv r'(2) by (auto simp: channel_inv_def dest!: set_update_subset_insert [THEN subsetD])
  with r' lt show ?thesis by (auto simp: producer_push_def on_ring_def)
qed

lemma channel_close_spec:
  assumes inv: "channel_inv ch"
  shows "\<exists>ch'. channel_close ch = Inr ch' \<and> channel_inv ch' \<and> ch_closed ch' \<and>
           (\<forall>r\<in>set (registered ch'). r_closed r) \<and> ch_config ch' = ch_config ch \<and>
           ch_producer_count ch' = ch_producer_count ch \<and> ch_debug ch' = ch_debug ch \<and>
           map ring_contents (ch_rings ch') = map ring_contents (ch_rings ch)"
proof -
  let ?ch = "ch\<lparr>ch_closed := True\<rparr>" and ?rs = "map ring_close (registered ch)"
  have inv': "channel_inv ?ch" using inv by (simp add: channel_inv_def)
  have reg: "registered ?ch = registered ch" by (simp add: registered_def)
  have rs: "length ?rs = length (registered ?ch)" "\<forall>r\<in>set ?rs. ring_inv r"
    using registered_inv [OF inv] by (auto simp: reg ring_close_def)
  have close: "channel_close ch = Inr (put_rings ?rs ?ch)"
    using slice_registered [OF inv'] by (simp add: channel_close_def Let_def reg)
  have "map ring_contents ?rs @ map ring_contents (drop (unat (ch_producer_count ch)) (ch_rings ch)) =
        map ring_contents (registered ch @ drop (unat (ch_producer_count ch)) (ch_rings ch))"
    by (simp add: ring_close_def)
  then have "map ring_contents (ch_rings (put_rings ?rs ?ch)) = map ring_contents (ch_rings ch)"
    using length_registered [OF inv] by (simp add: put_rings_def registered_def)
  moreover have "channel_inv (put_rings ?rs ?ch)" "registered (put_rings ?rs ?ch) = ?rs"
    using put_rings_spec [OF inv' rs refl] by simp_all
  ultimately show ?thesis using close by (auto simp: ring_close_def put_rings_def)
qed

text \<open>
  \<open>recv\<close> fills \<open>out\<close> from the front with items from the rings, each ring a prefix of what it
  holds, and reports how many; it relies on the cached tails.
\<close>

lemma recv_rings_spec:
  assumes "\<forall>r\<in>set rs. ring_inv r \<and> cache_ok r" "unat tot \<le> length out" "length out < 2 ^ 64"
  shows "\<exists>tot' ns rs'. recv_rings tot out rs =
      Inr (tot', take (unat tot) out @ concat (map2 take ns (map ring_contents rs)) @ drop (unat tot') out, rs') \<and>
      length ns = length rs \<and> list_all2 (\<lambda>n r. n \<le> occupied r) ns rs \<and> unat tot' = unat tot + sum_list ns \<and>
      unat tot' \<le> length out \<and>
      (\<forall>r\<in>set rs'. ring_inv r \<and> cache_ok r) \<and> map ring_contents rs' = map2 drop ns (map ring_contents rs)"
  using assms
proof (induction rs arbitrary: tot out)
  case Nil
  then show ?case by auto
next
  case (Cons r rs)
  show ?case
  proof (cases "length out \<le> unat tot")
    case True
    have "map2 take (replicate (length xs) 0) xs = replicate (length xs) []"
      "map2 drop (replicate (length xs) 0) xs = xs" for xs :: "'a list list"
      by (induction xs) auto
    note z = this [of "map ring_contents (r # rs)"]
    have "list_all2 (\<lambda>n r. n \<le> occupied r) (replicate (length xs) 0) xs" for xs :: "'a ring list"
      by (simp add: list_all2_conv_all_nth)
    note this [of "r # rs"]
    with True Cons.prems z show ?thesis
      by (intro exI [of _ tot] exI [of _ "replicate (length (r # rs)) 0"] exI [of _ "r # rs"])
        (auto simp: sum_list_replicate)
  next
    case False
    obtain n r' where r': "ring_recv (drop (unat tot) out) r =
        Inr (of_nat n, take n (ring_contents r) @ drop n (drop (unat tot) out), r')"
      "n \<le> length out - unat tot" "n \<le> occupied r" "ring_inv r'" "cache_ok r'"
      "ring_contents r' = drop n (ring_contents r)"
      using ring_recv_spec [of r "drop (unat tot) out"] Cons.prems(1)
        le_less_trans [OF diff_le_self Cons.prems(3), of "unat tot"] by auto
    have n: "unat (of_nat n :: usize) = n" "unat tot + n \<le> length out"
      using r'(2) Cons.prems False by (auto simp: unat_of_nat)
    have t: "unat (tot + of_nat n) = unat tot + n"
      using n Cons.prems(3) unat_add_lem [of tot "of_nat n"] by simp
    let ?out = "take (unat tot) out @ take n (ring_contents r) @ drop n (drop (unat tot) out)"
    have len: "length ?out = length out" using n r'(3) by simp
    obtain tot' ns rs' where IH: "recv_rings (tot + of_nat n) ?out rs =
        Inr (tot', take (unat tot + n) ?out @ concat (map2 take ns (map ring_contents rs)) @
             drop (unat tot') ?out, rs')"
      "length ns = length rs" "list_all2 (\<lambda>n r. n \<le> occupied r) ns rs"
      "unat tot' = unat tot + n + sum_list ns" "unat tot' \<le> length out"
      "\<forall>r\<in>set rs'. ring_inv r \<and> cache_ok r" "map ring_contents rs' = map2 drop ns (map ring_contents rs)"
      using Cons.IH [of "tot + of_nat n" ?out] Cons.prems n len unfolding t by auto
    have "take (unat tot + n) ?out = take (unat tot) out @ take n (ring_contents r)"
      using n r'(3) Cons.prems by simp
    moreover have "drop (unat tot') ?out = drop (unat tot') out"
      using IH(4) n r'(3) Cons.prems by (simp add: drop_append ac_simps)
    ultimately show ?thesis
      using False r' IH n
      by (intro exI [of _ tot'] exI [of _ "n # ns"] exI [of _ "r' # rs'"]) (auto simp: add.assoc)
  qed
qed

end
