(* ===== verification/Channel_Trace.thy ===== *)
theory Channel_Trace
  imports Channel
begin

text \<open>
  Whole runs of a channel: any sequence of registrations, pushes, batch and budgeted consumption
  and closing.  Items are tagged with the producer that pushed them, so that the order of each
  producer's items can be followed through the shared consumer.  The invariant is that for every
  producer, what has been delivered followed by what its ring holds is what was accepted.
\<close>

datatype 'v channel_op = Op_Register | Op_Push usize 'v | Op_Consume_All | Op_Consume_Up_To usize | Op_Close

record 'v trace =
  tr_channel :: "(usize \<times> 'v) channel"
  tr_delivered :: "(usize \<times> 'v) list"
  tr_accepted :: "(usize \<times> 'v) list"

text \<open>A push by an id no \<open>Producer\<close> was handed out for cannot happen; such an operation is skipped.\<close>

fun channel_step :: "'v channel_op \<Rightarrow> 'v trace \<Rightarrow> fault + 'v trace" where
  "channel_step Op_Register t =
     try_bind (channel_register (tr_channel t)) (\<lambda>(_, ch). Inr (t\<lparr>tr_channel := ch\<rparr>))"
| "channel_step (Op_Push i v) t =
     (if unat i < unat (ch_producer_count (tr_channel t))
      then try_bind (producer_push i (i, v) (tr_channel t)) (\<lambda>(ok, ch).
        Inr (t\<lparr>tr_channel := ch, tr_accepted := tr_accepted t @ (if ok then [(i, v)] else [])\<rparr>))
      else Inr t)"
| "channel_step Op_Consume_All t =
     try_bind (channel_consume_all_owned (\<lambda>acc x. acc @ [x]) (tr_delivered t) (tr_channel t))
       (\<lambda>(_, acc, ch). Inr (t\<lparr>tr_channel := ch, tr_delivered := acc\<rparr>))"
| "channel_step (Op_Consume_Up_To m) t =
     try_bind (channel_consume_all_up_to_owned m (\<lambda>acc x. acc @ [x]) (tr_delivered t) (tr_channel t))
       (\<lambda>(_, acc, ch). Inr (t\<lparr>tr_channel := ch, tr_delivered := acc\<rparr>))"
| "channel_step Op_Close t =
     try_bind (channel_close (tr_channel t)) (\<lambda>ch. Inr (t\<lparr>tr_channel := ch\<rparr>))"

fun channel_run :: "'v channel_op list \<Rightarrow> 'v trace \<Rightarrow> fault + 'v trace" where
  "channel_run [] t = Inr t"
| "channel_run (op # ops) t = try_bind (channel_step op t) (channel_run ops)"

definition trace_start :: "config \<Rightarrow> 'v trace" where
  "trace_start c = \<lparr>tr_channel = channel_new False c, tr_delivered = [], tr_accepted = []\<rparr>"

definition of_producer :: "nat \<Rightarrow> (usize \<times> 'v) list \<Rightarrow> (usize \<times> 'v) list" where
  "of_producer i xs = filter (\<lambda>x. unat (fst x) = i) xs"

text \<open>What ring \<open>i\<close> of a channel holds.\<close>

definition ring_items :: "'a channel \<Rightarrow> nat \<Rightarrow> 'a list" where
  "ring_items ch i = (if i < length (ch_rings ch) then ring_contents (ch_rings ch ! i) else [])"

definition trace_inv :: "'v trace \<Rightarrow> bool" where
  "trace_inv t \<longleftrightarrow>
     channel_inv (tr_channel t) \<and> \<not> ch_debug (tr_channel t) \<and>
     (\<forall>i x. x \<in> set (ring_items (tr_channel t) i) \<longrightarrow>
        unat (fst x) = i \<and> i < unat (ch_producer_count (tr_channel t))) \<and>
     (\<forall>i. of_producer i (tr_delivered t) @ ring_items (tr_channel t) i = of_producer i (tr_accepted t))"

lemma of_producer_append [simp]: "of_producer i (xs @ ys) = of_producer i xs @ of_producer i ys"
  by (simp add: of_producer_def)

lemma of_producer_Nil [simp]: "of_producer i [] = []"
  by (simp add: of_producer_def)

lemma foldl_snoc [simp]: "foldl (\<lambda>acc x. acc @ [x]) acc xs = acc @ xs"
  by (induction xs arbitrary: acc) auto

text \<open>Filtering the concatenated queues by producer gives back that producer's queue.\<close>

lemma of_producer_concat:
  assumes "\<forall>j < length qs. \<forall>x\<in>set (qs ! j). unat (fst x) = k + j"
  shows "of_producer i (concat qs) = (if k \<le> i \<and> i < k + length qs then qs ! (i - k) else [])"
  using assms
proof (induction qs arbitrary: k)
  case (Cons q qs)
  have q: "of_producer i q = (if i = k then q else [])"
    using Cons.prems by (force simp: of_producer_def filter_id_conv filter_empty_conv)
  have "of_producer i (concat qs) = (if Suc k \<le> i \<and> i < Suc k + length qs then qs ! (i - Suc k) else [])"
    using Cons.prems by (intro Cons.IH) force
  with q show ?case by (auto simp: nth_Cons')
qed auto

lemma queued_nth:
  "channel_inv ch \<Longrightarrow> j < unat (ch_producer_count ch) \<Longrightarrow> queued ch ! j = ring_items ch j"
  by (simp add: queued_def registered_def ring_items_def channel_inv_def)

lemma length_queued: "channel_inv ch \<Longrightarrow> length (queued ch) = unat (ch_producer_count ch)"
  by (simp add: queued_def length_registered)

lemma of_producer_queued:
  assumes "channel_inv ch" "\<And>i x. x \<in> set (ring_items ch i) \<Longrightarrow> unat (fst x) = i \<and> i < unat (ch_producer_count ch)"
  shows "of_producer i (concat (queued ch)) = ring_items ch i"
proof -
  have "of_producer i (concat (queued ch)) =
        (if 0 \<le> i \<and> i < 0 + length (queued ch) then queued ch ! (i - 0) else [])"
    using assms by (intro of_producer_concat) (auto simp: queued_nth length_queued)
  moreover have "ring_items ch i = []" if "\<not> i < unat (ch_producer_count ch)"
    using assms(2) [of _ i] that by (cases "ring_items ch i") auto
  ultimately show ?thesis using assms(1) by (auto simp: length_queued queued_nth)
qed

section \<open>Every operation keeps the invariant\<close>

lemma ring_items_same:
  "map ring_contents (ch_rings ch') = map ring_contents (ch_rings ch) \<Longrightarrow> ring_items ch' = ring_items ch"
  by (rule ext) (metis length_map nth_map ring_items_def)

text \<open>A consumer pass that delivers \<open>d\<close> and leaves suffixes behind keeps the books balanced.\<close>

lemma trace_inv_deliver:
  assumes t: "trace_inv t" and ch: "channel_inv ch" "same_channel (tr_channel t) ch"
    and suf: "list_all2 (\<lambda>r r'. suffix (ring_contents r') (ring_contents r))
      (registered (tr_channel t)) (registered ch)"
    and d: "d @ concat (queued ch) = concat (queued (tr_channel t))"
  shows "trace_inv (t\<lparr>tr_channel := ch, tr_delivered := tr_delivered t @ d\<rparr>)"
proof -
  let ?c = "tr_channel t"
  have inv: "channel_inv ?c" using t by (simp add: trace_inv_def)
  have cnt: "ch_producer_count ch = ch_producer_count ?c" using ch(2) by (simp add: same_channel_def)
  have suf': "suffix (ring_items ch i) (ring_items ?c i)" for i
  proof (cases "i < unat (ch_producer_count ?c)")
    case True
    then have "suffix (ring_contents (registered ch ! i)) (ring_contents (registered ?c ! i))"
      using list_all2_nthD [OF suf] by (simp add: length_registered [OF inv])
    with True inv ch(1) cnt show ?thesis
      by (simp add: registered_def ring_items_def channel_inv_def)
  next
    case False
    have eq: "drop (unat (ch_producer_count ?c)) (ch_rings ch) = drop (unat (ch_producer_count ?c)) (ch_rings ?c)"
      using ch(2) by (simp add: same_channel_def)
    have len: "length (ch_rings ch) = length (ch_rings ?c)"
      using ch inv by (simp add: channel_inv_def same_channel_def)
    have "ch_rings ch ! i = ch_rings ?c ! i" if "i < length (ch_rings ?c)"
      using arg_cong [OF eq, of "\<lambda>xs. xs ! (i - unat (ch_producer_count ?c))"] False that len by simp
    then show ?thesis by (simp add: ring_items_def len)
  qed
  have tag: "unat (fst x) = i \<and> i < unat (ch_producer_count ch)" if "x \<in> set (ring_items ch i)" for x i
    using t set_mono_suffix [OF suf' [of i]] that cnt by (cases x) (auto simp: trace_inv_def)
  have tag': "unat (fst x) = i \<and> i < unat (ch_producer_count ?c)" if "x \<in> set (ring_items ?c i)" for x i
    using t that by (cases x) (auto simp: trace_inv_def)
  have "of_producer i d @ ring_items ch i = ring_items ?c i" for i
    using arg_cong [OF d, of "of_producer i"] of_producer_queued [OF ch(1) tag]
      of_producer_queued [OF inv tag'] by simp
  then show ?thesis
    using t ch tag by (auto simp: trace_inv_def same_channel_def)
qed

lemma channel_step_inv:
  assumes t: "trace_inv t"
  shows "\<exists>t'. channel_step op t = Inr t' \<and> trace_inv t'"
proof -
  let ?c = "tr_channel t"
  have inv: "channel_inv ?c" and rel: "\<not> ch_debug ?c" using t by (auto simp: trace_inv_def)
  show ?thesis
  proof (cases op)
    case Op_Register
    obtain e ch where ch: "channel_register ?c = Inr (e, ch)" "channel_inv ch"
      "map ring_contents (ch_rings ch) = map ring_contents (ch_rings ?c)"
      "unat (ch_producer_count ?c) \<le> unat (ch_producer_count ch)" "\<not> ch_debug ch"
      using channel_register_spec [OF inv] rel
      by (auto simp: channel_register_def register_claim_def register_finish_def split: if_splits)
    with Op_Register t show ?thesis
      using ring_items_same [OF ch(3)] by (fastforce simp: trace_inv_def)
  next
    case (Op_Push i v)
    show ?thesis
    proof (cases "unat i < unat (ch_producer_count ?c)")
      case True
      let ?ok = "occupied (ch_rings ?c ! unat i) < cap (r_config (ch_rings ?c ! unat i))"
      obtain r' where r': "producer_push i (i, v) ?c = Inr (?ok, ?c\<lparr>ch_rings := (ch_rings ?c)[unat i := r']\<rparr>)"
        "channel_inv (?c\<lparr>ch_rings := (ch_rings ?c)[unat i := r']\<rparr>)"
        "ring_contents r' = (if ?ok then ring_contents (ch_rings ?c ! unat i) @ [(i, v)]
                             else ring_contents (ch_rings ?c ! unat i))"
        using producer_push_spec [OF inv True, of "(i, v)"] by auto
      let ?ch = "?c\<lparr>ch_rings := (ch_rings ?c)[unat i := r']\<rparr>"
      have "unat i < length (ch_rings ?c)" using inv True by (simp add: channel_inv_def)
      then have items: "ring_items ?ch j = ring_items ?c j @ (if j = unat i \<and> ?ok then [(i, v)] else [])" for j
        using r'(3) by (auto simp: ring_items_def nth_list_update)
      have "trace_inv (t\<lparr>tr_channel := ?ch, tr_accepted := tr_accepted t @ (if ?ok then [(i, v)] else [])\<rparr>)"
        using t r'(2) True by (auto simp: trace_inv_def items of_producer_def simp flip: append_assoc split: if_splits)
      with Op_Push True r'(1) show ?thesis by simp
    qed (use Op_Push t in simp)
  next
    case Op_Consume_All
    obtain ch where ch: "channel_consume_all_owned (\<lambda>acc x. acc @ [x]) (tr_delivered t) ?c =
        Inr (of_nat (length (concat (queued ?c))), tr_delivered t @ concat (queued ?c), ch)"
      "channel_inv ch" "\<forall>r\<in>set (registered ch). ring_contents r = []" "same_channel ?c ch"
      using channel_consume_all_owned_spec [OF inv, of "\<lambda>acc x. acc @ [x]" "tr_delivered t"] rel by auto
    have "length (registered ch) = length (registered ?c)"
      using ch inv by (simp add: length_registered same_channel_def)
    then have "list_all2 (\<lambda>r r'. suffix (ring_contents r') (ring_contents r)) (registered ?c) (registered ch)"
      using ch(3) by (auto simp: list_all2_conv_all_nth)
    moreover have "concat (queued ch) = []" using ch(3) by (auto simp: queued_def)
    ultimately show ?thesis
      using trace_inv_deliver [OF t ch(2,4), of "concat (queued ?c)"] Op_Consume_All ch(1) by simp
  next
    case (Op_Consume_Up_To m)
    obtain ch where ch: "channel_consume_all_up_to_owned m (\<lambda>acc x. acc @ [x]) (tr_delivered t) ?c =
        Inr (of_nat (min (length (concat (queued ?c))) (unat m)),
             tr_delivered t @ take (unat m) (concat (queued ?c)), ch)"
      "channel_inv ch" "concat (queued ch) = drop (unat m) (concat (queued ?c))"
      "list_all2 (\<lambda>r r'. ring_inv r' \<and> suffix (ring_contents r') (ring_contents r)) (registered ?c) (registered ch)"
      "same_channel ?c ch"
      using channel_consume_all_up_to_owned_spec [OF inv rel, of m "\<lambda>acc x. acc @ [x]" "tr_delivered t"] by auto
    then show ?thesis
      using trace_inv_deliver [OF t ch(2,5) list_all2_mono [OF ch(4)], of "take (unat m) (concat (queued ?c))"]
        Op_Consume_Up_To by simp
  next
    case Op_Close
    obtain ch where "channel_close ?c = Inr ch" "channel_inv ch" "ch_producer_count ch = ch_producer_count ?c"
      "\<not> ch_debug ch" "ring_items ch = ring_items ?c"
      using channel_close_spec [OF inv] ring_items_same rel by auto
    with Op_Close t show ?thesis by (simp add: trace_inv_def)
  qed
qed

lemma channel_run_inv: "trace_inv t \<Longrightarrow> \<exists>t'. channel_run ops t = Inr t' \<and> trace_inv t'"
proof (induction ops arbitrary: t)
  case (Cons op ops)
  then show ?case using channel_step_inv [OF Cons.prems, of op] by fastforce
qed simp

lemma trace_start_inv: "valid_config c \<Longrightarrow> trace_inv (trace_start c)"
  using channel_new_inv [of c False]
  by (auto simp: trace_inv_def trace_start_def ring_items_def channel_new_def channel_new_in_def
      heap.new_in_contents)

end
