(* ===== verification/Stack_Ring.thy ===== *)
theory Stack_Ring
  imports Ring_Refine
begin

text \<open>
  The ring with an inline buffer of compile-time size (\<open>stack_ring.rs\<close>).  The const generic \<open>N\<close> is
  carried in the state; pointers into the buffer are slot indices.  Its correctness is obtained
  from the heap ring: \<open>sr_ring\<close> reads a stack ring as a heap ring of the same size with metrics
  off, and every operation is shown to do what the heap ring does there, except that \<open>reserve\<close>
  also refuses when the ring is closed.
\<close>

section \<open>State and construction\<close>

record 'a stack_ring =
  sr_N :: usize
  sr_tail :: u64
  sr_cached_head :: u64
  sr_head :: u64
  sr_cached_tail :: u64
  sr_closed :: bool
  sr_buffer :: "'a slots"

definition usize_is_power_of_two :: "usize \<Rightarrow> bool" where
  "usize_is_power_of_two n \<longleftrightarrow> list_ex (\<lambda>k. n = push_bit k 1) [0..<64]"

definition assert_power_of_two :: "usize \<Rightarrow> fault + unit" where
  "assert_power_of_two n =
     (if 0 < n \<and> usize_is_power_of_two n then Inr () else Inl Panicked)"

definition sr_new :: "usize \<Rightarrow> fault + 'a stack_ring" where
  "sr_new n = try_bind (assert_power_of_two n) (\<lambda>_.
     Inr \<lparr>sr_N = n, sr_tail = 0, sr_cached_head = 0, sr_head = 0, sr_cached_tail = 0,
          sr_closed = False, sr_buffer = replicate (unat n) None\<rparr>)"

definition sr_MASK :: "'a stack_ring \<Rightarrow> usize" where
  "sr_MASK s = sr_N s - 1"

section \<open>Status\<close>

definition sr_capacity :: "'a stack_ring \<Rightarrow> usize" where
  "sr_capacity s = sr_N s"

definition sr_len :: "'a stack_ring \<Rightarrow> usize" where
  "sr_len s = sr_tail s - sr_head s"

definition sr_is_empty :: "'a stack_ring \<Rightarrow> bool" where
  "sr_is_empty s \<longleftrightarrow> sr_tail s = sr_head s"

definition sr_is_full :: "'a stack_ring \<Rightarrow> bool" where
  "sr_is_full s \<longleftrightarrow> sr_N s \<le> sr_len s"

definition sr_is_closed :: "'a stack_ring \<Rightarrow> bool" where
  "sr_is_closed s = sr_closed s"

definition sr_close :: "'a stack_ring \<Rightarrow> 'a stack_ring" where
  "sr_close s = s\<lparr>sr_closed := True\<rparr>"

section \<open>Producer side\<close>

text \<open>A pointer and a contiguous length; nothing is checked.\<close>

definition sr_make_reservation :: "u64 \<Rightarrow> usize \<Rightarrow> 'a stack_ring \<Rightarrow> reservation" where
  "sr_make_reservation tail n s =
     (let idx = tail AND sr_MASK s
      in \<lparr>res_start = idx, res_len = min n (sr_N s - idx)\<rparr>)"

definition sr_reserve :: "usize \<Rightarrow> 'a stack_ring \<Rightarrow> reservation option \<times> 'a stack_ring" where
  "sr_reserve n s =
     (if n = 0 \<or> sr_N s < n \<or> sr_is_closed s then (None, s)
      else
        (let tail = sr_tail s;
             space = saturating_sub (sr_N s) (tail - sr_cached_head s)
         in if n \<le> space then (Some (sr_make_reservation tail n s), s)
            else
              (let head = sr_head s;
                   s' = s\<lparr>sr_cached_head := head\<rparr>;
                   space' = saturating_sub (sr_N s) (tail - head)
               in if space' < n then (None, s')
                  else (Some (sr_make_reservation tail n s'), s'))))"

text \<open>\<open>ptr.add(i).write(x)\<close> through the pointer of a reservation.\<close>

definition sr_write :: "reservation \<Rightarrow> usize \<Rightarrow> 'a \<Rightarrow> 'a stack_ring \<Rightarrow> fault + 'a stack_ring" where
  "sr_write v i x s =
     try_bind (slot_put (sr_buffer s) (res_start v + i) x) (\<lambda>b. Inr (s\<lparr>sr_buffer := b\<rparr>))"

definition sr_commit :: "usize \<Rightarrow> 'a stack_ring \<Rightarrow> 'a stack_ring" where
  "sr_commit n s = s\<lparr>sr_tail := sr_tail s + n\<rparr>"

definition sr_commit_asserts :: "usize \<Rightarrow> 'a stack_ring \<Rightarrow> bool" where
  "sr_commit_asserts n s \<longleftrightarrow>
     debug_assert_bounded_count (sr_tail s + n - sr_head s) (sr_N s) \<and>
     debug_assert_monotonic (sr_tail s) (sr_tail s + n) \<and>
     debug_assert_no_wrap (sr_tail s) (sr_tail s + n)"

section \<open>Consumer side\<close>

definition sr_peek :: "'a stack_ring \<Rightarrow> (usize \<times> usize) option \<times> 'a stack_ring" where
  "sr_peek s =
     (let head = sr_head s;
          cached = sr_cached_tail s;
          s' = (if cached - head = 0 then s\<lparr>sr_cached_tail := sr_tail s\<rparr> else s);
          avail = (if cached - head = 0 then sr_tail s - head else cached - head)
      in if avail = 0 then (None, s')
         else (let idx = head AND sr_MASK s in (Some (idx, min avail (sr_N s - idx)), s')))"

definition sr_advance :: "usize \<Rightarrow> 'a stack_ring \<Rightarrow> 'a stack_ring" where
  "sr_advance n s = s\<lparr>sr_head := sr_head s + n\<rparr>"

definition sr_advance_asserts :: "usize \<Rightarrow> 'a stack_ring \<Rightarrow> bool" where
  "sr_advance_asserts n s \<longleftrightarrow>
     debug_assert_head_not_past_tail (sr_head s + n) (sr_tail s) \<and>
     debug_assert_monotonic (sr_head s) (sr_head s + n)"

definition sr_consume_batch_owned ::
    "('h \<Rightarrow> 'a \<Rightarrow> 'h) \<Rightarrow> 'h \<Rightarrow> 'a stack_ring \<Rightarrow> fault + usize \<times> 'h \<times> 'a stack_ring" where
  "sr_consume_batch_owned f h s =
     (let head = sr_head s; tail = sr_tail s; avail = tail - head
      in if avail = 0 then Inr (0, h, s)
         else try_bind (consume_loop (sr_MASK s) tail f head 0 h (sr_buffer s))
           (\<lambda>(_, h', b). Inr (avail, h', s\<lparr>sr_buffer := b, sr_head := tail\<rparr>)))"

definition sr_consume_batch ::
    "('h \<Rightarrow> 'a \<Rightarrow> 'h) \<Rightarrow> 'h \<times> 'a list \<Rightarrow> 'a stack_ring \<Rightarrow>
     fault + usize \<times> ('h \<times> 'a list) \<times> 'a stack_ring" where
  "sr_consume_batch f h s =
     (let head = sr_head s; tail = sr_tail s; avail = tail - head
      in if avail = 0 then Inr (0, h, s)
         else try_bind (consume_loop (sr_MASK s) tail (drop_after f) head 0 h (sr_buffer s))
           (\<lambda>(_, h', b). Inr (avail, h', s\<lparr>sr_buffer := b, sr_head := tail\<rparr>)))"

definition sr_consume_up_to ::
    "usize \<Rightarrow> ('h \<Rightarrow> 'a \<Rightarrow> 'h) \<Rightarrow> 'h \<times> 'a list \<Rightarrow> 'a stack_ring \<Rightarrow>
     fault + usize \<times> ('h \<times> 'a list) \<times> 'a stack_ring" where
  "sr_consume_up_to max_items f h s =
     (let head = sr_head s; tail = sr_tail s; avail = tail - head
      in if avail = 0 then Inr (0, h, s)
         else
           (let to_consume = min avail max_items; end' = head + to_consume
            in try_bind (consume_loop (sr_MASK s) end' (drop_after f) head 0 h (sr_buffer s))
                 (\<lambda>(_, h', b). Inr (to_consume, h', s\<lparr>sr_buffer := b, sr_head := end'\<rparr>))))"

text \<open>\<open>Drop\<close>: the values dropped, in order, and what is left of the buffer.\<close>

definition sr_drop :: "'a stack_ring \<Rightarrow> fault + 'a list \<times> 'a slots" where
  "sr_drop s = try_bind
     (consume_loop (sr_MASK s) (sr_tail s) (\<lambda>dropped x. dropped @ [x]) (sr_head s) 0 [] (sr_buffer s))
     (\<lambda>(_, dropped, b). Inr (dropped, b))"

section \<open>A stack ring read as a heap ring\<close>

definition sr_bits :: "usize \<Rightarrow> nat" where
  "sr_bits n = length (takeWhile (\<lambda>k. n \<noteq> push_bit k 1) [0..<64])"

definition sr_ring :: "'a stack_ring \<Rightarrow> 'a ring" where
  "sr_ring s =
     \<lparr>r_tail = sr_tail s, r_cached_head = sr_cached_head s, r_head = sr_head s,
      r_cached_tail = sr_cached_tail s, r_active = False, r_closed = sr_closed s,
      r_metrics = metrics_new,
      r_config = \<lparr>ring_bits = of_nat (sr_bits (sr_N s)), max_producers = 0, enable_metrics = False\<rparr>,
      r_buffer = sr_buffer s\<rparr>"

definition sr_inv :: "'a stack_ring \<Rightarrow> bool" where
  "sr_inv s \<longleftrightarrow> usize_is_power_of_two (sr_N s) \<and> ring_inv (sr_ring s)"

definition sr_contents :: "'a stack_ring \<Rightarrow> 'a list" where
  "sr_contents s = ring_contents (sr_ring s)"

lemma length_takeWhile_ex:
  assumes "\<exists>x\<in>set xs. \<not> P x"
  shows "length (takeWhile P xs) < length xs"
proof -
  have "dropWhile P xs \<noteq> []" using assms by auto
  then show ?thesis by (metis takeWhile_dropWhile_id length_append length_greater_0_conv
        less_add_same_cancel1)
qed

lemma sr_bits_pow2:
  assumes "usize_is_power_of_two n"
  shows "sr_bits n < 64" "n = push_bit (sr_bits n) 1"
proof -
  let ?P = "\<lambda>k. n \<noteq> push_bit k 1"
  have "\<exists>x\<in>set [0..<64]. \<not> ?P x"
    using assms unfolding usize_is_power_of_two_def list_ex_iff by blast
  then have *: "length (takeWhile ?P [0..<64]) < length [0..<64]"
    by (rule length_takeWhile_ex)
  then show "sr_bits n < 64" unfolding sr_bits_def by (simp only: length_upt diff_zero)
  have "[0..<64] ! length (takeWhile ?P [0..<64]) = length (takeWhile ?P [0..<64])"
    using * by (simp only: length_upt diff_zero nth_upt add_0)
  with nth_length_takeWhile [OF *] show "n = push_bit (sr_bits n) 1"
    unfolding sr_bits_def by (simp only: not_not)
qed

lemma sr_ring_fields [simp]:
  "r_tail (sr_ring s) = sr_tail s" "r_head (sr_ring s) = sr_head s"
  "r_cached_head (sr_ring s) = sr_cached_head s" "r_cached_tail (sr_ring s) = sr_cached_tail s"
  "r_closed (sr_ring s) = sr_closed s" "r_buffer (sr_ring s) = sr_buffer s"
  "enable_metrics (r_config (sr_ring s)) = False"
  by (simp_all add: sr_ring_def)

lemma sr_ring_update:
  "sr_ring (s\<lparr>sr_tail := t\<rparr>) = (sr_ring s)\<lparr>r_tail := t\<rparr>"
  "sr_ring (s\<lparr>sr_head := t\<rparr>) = (sr_ring s)\<lparr>r_head := t\<rparr>"
  "sr_ring (s\<lparr>sr_cached_head := t\<rparr>) = (sr_ring s)\<lparr>r_cached_head := t\<rparr>"
  "sr_ring (s\<lparr>sr_cached_tail := t\<rparr>) = (sr_ring s)\<lparr>r_cached_tail := t\<rparr>"
  "sr_ring (s\<lparr>sr_closed := c\<rparr>) = (sr_ring s)\<lparr>r_closed := c\<rparr>"
  "sr_ring (s\<lparr>sr_buffer := b\<rparr>) = (sr_ring s)\<lparr>r_buffer := b\<rparr>"
  by (simp_all add: sr_ring_def)

lemma sr_ring_capacity:
  assumes "usize_is_power_of_two (sr_N s)"
  shows "ring_capacity (sr_ring s) = sr_N s" "ring_mask (sr_ring s) = sr_MASK s"
proof -
  have "unat (word_of_nat (sr_bits (sr_N s)) :: u8) = sr_bits (sr_N s)"
    using sr_bits_pow2(1) [OF assms] by (simp add: unat_of_nat)
  then show "ring_capacity (sr_ring s) = sr_N s" "ring_mask (sr_ring s) = sr_MASK s"
    using sr_bits_pow2 [OF assms]
    by (simp_all add: ring_capacity_def ring_mask_def sr_MASK_def config_mask_def config_capacity_def
        sr_ring_def)
qed

lemma ring_cap_sr: "sr_inv s \<Longrightarrow> ring_cap (sr_ring s) = unat (sr_N s)"
  using unat_ring_capacity [of "sr_ring s"] by (simp add: sr_inv_def sr_ring_capacity)

lemma sr_record [simp]:
  "enable_metrics (r_config r) = False \<Longrightarrow> record_sent n r = r"
  "enable_metrics (r_config r) = False \<Longrightarrow> record_received n r = r"
  by (simp_all add: record_sent_def record_received_def)

section \<open>The operations through that reading\<close>

lemma sr_invD:
  assumes "sr_inv s"
  shows "ring_inv (sr_ring s)" "ring_capacity (sr_ring s) = sr_N s" "ring_mask (sr_ring s) = sr_MASK s"
  using assms by (simp_all add: sr_inv_def sr_ring_capacity)

lemma sr_new_spec:
  assumes "sr_new n = Inr s"
  shows "sr_inv s \<and> sr_contents s = [] \<and> sr_N s = n \<and> \<not> sr_closed s"
proof -
  have p: "usize_is_power_of_two n" and s: "s = \<lparr>sr_N = n, sr_tail = 0, sr_cached_head = 0, sr_head = 0,
      sr_cached_tail = 0, sr_closed = False, sr_buffer = replicate (unat n) None\<rparr>"
    using assms by (auto simp: sr_new_def assert_power_of_two_def split: if_splits)
  let ?c = "\<lparr>ring_bits = of_nat (sr_bits n), max_producers = 0, enable_metrics = False\<rparr>"
  have sh: "shift_ok ?c"
    using sr_bits_pow2(1) [OF p] by (simp add: shift_ok_def word_less_nat_alt unat_of_nat)
  have "config_capacity ?c = n"
    using sr_bits_pow2 [OF p] by (simp add: config_capacity_def unat_of_nat)
  then have "sr_ring s = ring_new ?c"
    by (simp add: s sr_ring_def ring_new_def ring_new_in_def heap_allocate_def)
  then show ?thesis using ring_new_inv [OF sh] p by (simp add: sr_inv_def sr_contents_def s)
qed

text \<open>\<open>reserve\<close> on an open stack ring is \<open>reserve\<close> on the heap ring; on a closed one it is \<open>None\<close>.\<close>

lemma sr_reserve_closed: "sr_closed s \<Longrightarrow> sr_reserve n s = (None, s)"
  by (simp add: sr_reserve_def sr_is_closed_def)

lemma sr_make_reservation_heap:
  "ring_capacity r = sr_N s \<Longrightarrow> ring_mask r = sr_MASK s \<Longrightarrow> ring_make_reservation t n r = Inr v \<Longrightarrow>
   sr_make_reservation t n s = v"
  by (auto simp: ring_make_reservation_def sr_make_reservation_def Let_def split: if_splits)

lemma sr_reserve_heap:
  assumes "sr_inv s" "\<not> sr_closed s"
  shows "\<exists>v s'. sr_reserve n s = (v, s') \<and> ring_reserve n (sr_ring s) = Inr (v, sr_ring s') \<and>
           sr_inv s' \<and> sr_N s' = sr_N s"
proof -
  note inv = sr_invD [OF assms(1)]
  obtain v r' where r: "ring_reserve n (sr_ring s) = Inr (v, r')" "ring_inv r'"
    using ring_reserve_Some [OF inv(1), of n] ring_reserve_None [OF inv(1), of n]
    by (cases "can_reserve n (sr_ring s)") auto
  let ?s = "s\<lparr>sr_cached_head := sr_head s\<rparr>"
  have caps: "ring_capacity (sr_ring ?s) = sr_N ?s" "ring_mask (sr_ring ?s) = sr_MASK ?s"
    using assms(1) by (simp_all add: sr_ring_capacity sr_inv_def)
  show ?thesis
    using r assms(2) caps inv assms(1)
      sr_make_reservation_heap [OF inv(2,3)] sr_make_reservation_heap [OF caps]
    by (auto simp: ring_reserve_def sr_reserve_def Let_def sr_is_closed_def sr_inv_def
        sr_ring_update try_bind_Inr_iff split: if_splits)
qed

lemma sr_write_heap:
  "unat (res_start v) + unat (res_len v) \<le> 2 ^ 64 \<Longrightarrow>
   reservation_write v i x (sr_ring s) = Inr r \<Longrightarrow> \<exists>s'. sr_write v i x s = Inr s' \<and> r = sr_ring s' \<and>
     sr_N s' = sr_N s \<and> sr_closed s' = sr_closed s"
  by (auto simp: reservation_write_def sr_write_def try_bind_Inr_iff sr_ring_update split: if_splits)

lemma sr_consume_batch_owned_spec:
  assumes "sr_inv s"
  shows "\<exists>s'. sr_consume_batch_owned f h s =
           Inr (of_nat (length (sr_contents s)), foldl f h (sr_contents s), s') \<and>
         sr_inv s' \<and> sr_N s' = sr_N s \<and> sr_closed s' = sr_closed s \<and> sr_contents s' = []"
proof (cases "sr_tail s - sr_head s = 0")
  case True
  then have "sr_contents s = []"
    using occupied_0_iff [of "sr_ring s"] by (simp add: occupied_def sr_contents_def)
  then show ?thesis using True assms by (simp add: sr_consume_batch_owned_def Let_def)
next
  case False
  note inv = sr_invD [OF assms]
  let ?n = "occupied (sr_ring s)"
  have n: "of_nat ?n = sr_tail s - sr_head s" by (simp add: occupied_def)
  show ?thesis
    using False ring_consume_loop [OF inv(1) order.refl, of f h] ring_clear_advance [OF inv(1) order.refl]
      assms by (auto simp: sr_consume_batch_owned_def Let_def n inv(3) sr_inv_def sr_contents_def
        sr_ring_update)
qed

lemma sr_consume_batch_eq_owned: "sr_consume_batch f h s = sr_consume_batch_owned (drop_after f) h s"
  by (simp add: sr_consume_batch_def sr_consume_batch_owned_def)

lemma sr_consume_up_to_spec:
  assumes "sr_inv s"
  shows "\<exists>s'. sr_consume_up_to m f h s =
           Inr (of_nat (min (length (sr_contents s)) (unat m)),
                foldl (drop_after f) h (take (unat m) (sr_contents s)), s') \<and>
         sr_inv s' \<and> sr_N s' = sr_N s \<and> sr_closed s' = sr_closed s \<and>
         sr_contents s' = drop (unat m) (sr_contents s)"
proof (cases "sr_tail s - sr_head s = 0")
  case True
  then have "sr_contents s = []"
    using occupied_0_iff [of "sr_ring s"] by (simp add: occupied_def sr_contents_def)
  then show ?thesis using True assms by (simp add: sr_consume_up_to_def Let_def)
next
  case False
  note inv = sr_invD [OF assms]
  let ?n = "min (occupied (sr_ring s)) (unat m)"
  have "unat (min (sr_tail s - sr_head s) m) = ?n"
    by (simp add: min_def word_le_nat_alt occupied_def)
  then have n: "min (sr_tail s - sr_head s) m = of_nat ?n" by (metis of_nat_unat id_apply ucast_id)
  have "take ?n xs = take (unat m) xs" "drop ?n xs = drop (unat m) xs"
    if "length xs = occupied (sr_ring s)" for xs :: "'a list"
    using that by (auto simp: min_def)
  then show ?thesis
    using False ring_consume_loop [OF inv(1), of ?n "drop_after f" h] ring_clear_advance [OF inv(1), of ?n]
      assms by (auto simp: sr_consume_up_to_def Let_def n inv(3) sr_inv_def sr_contents_def
        sr_ring_update)
qed

lemma sr_drop_spec:
  assumes "sr_inv s"
  shows "\<exists>b. sr_drop s = Inr (sr_contents s, b)"
proof -
  note inv = sr_invD [OF assms]
  have "foldl (\<lambda>d x. d @ [x]) a xs = a @ xs" for a xs :: "'a list" by (induction xs arbitrary: a) auto
  moreover have "sr_tail s = sr_head s + of_nat (occupied (sr_ring s))" by (simp add: occupied_def)
  ultimately show ?thesis
    using ring_consume_loop [OF inv(1) order.refl, of "\<lambda>d x. d @ [x]" "[]"]
    by (simp add: sr_drop_def inv(3) sr_contents_def)
qed

lemma sr_peek_heap:
  assumes "sr_inv s"
  shows "ring_readable (sr_ring s) = Inr (fst (sr_peek s), sr_ring (snd (sr_peek s)))"
proof -
  note inv = sr_invD [OF assms]
  have "unat (sr_head s AND sr_MASK s) < ring_cap (sr_ring s)"
    using unat_and_ring_mask [OF inv(1), of "sr_head s"] ring_cap_small [OF inv(1)] inv(3) by simp
  then have "unat (sr_head s AND sr_MASK s) \<le> length (sr_buffer s)"
    using ring_inv_buffer [OF inv(1)] by simp
  then show ?thesis
    by (auto simp: ring_readable_def sr_peek_def Let_def inv(2,3) sr_ring_update)
qed

lemma sr_advance_spec:
  assumes "sr_inv s" "unat n \<le> length (sr_contents s)"
  shows "sr_inv (sr_advance n s) \<and> sr_contents (sr_advance n s) = drop (unat n) (sr_contents s)"
  using ring_advance_spec [OF sr_invD(1) [OF assms(1)], of n] assms
  by (simp add: sr_inv_def sr_contents_def sr_advance_def ring_advance_def sr_ring_update)

section \<open>The stack ring meets the contracts of the channel\<close>

interpretation sr_view: ring_view sr_inv sr_contents
  by unfold_locales (auto simp: sr_contents_def sr_inv_def dest: ring_push.contents_less)

interpretation sr_owned: ring_batch_consumer sr_inv sr_contents "sr_consume_batch_owned f" f for f
  by unfold_locales (use sr_consume_batch_owned_spec in fastforce)

interpretation sr_ref: ring_batch_consumer sr_inv sr_contents "sr_consume_batch f" "drop_after f" for f
  by unfold_locales (use sr_consume_batch_owned_spec in \<open>fastforce simp: sr_consume_batch_eq_owned\<close>)

interpretation sr_ref_up_to: ring_bounded_consumer sr_inv sr_contents
    "\<lambda>m. sr_consume_up_to m f" "drop_after f" for f
  by unfold_locales (use sr_consume_up_to_spec in fastforce)

end
