(* ===== verification/Stack_Channel.thy ===== *)
theory Stack_Channel
  imports Stack_Ring Channel
begin

text \<open>
  The channel over stack rings (\<open>stack_channel.rs\<close>): the const generics \<open>N\<close> and \<open>P\<close> are carried in
  the state.  Besides the consumers, which run the same loops as the heap channel over the other
  ring, the producer's \<open>push\<close> and its \<open>send\<close> loop are modelled here, since \<open>StackRing\<close> itself only
  has the raw \<open>reserve\<close> and \<open>commit\<close>.
\<close>

section \<open>State and registration\<close>

datatype stack_channel_error = SC_TooManyProducers usize | SC_Closed

record 'a stack_channel =
  sc_N :: usize
  sc_P :: usize
  sc_producer_count :: usize
  sc_closed :: bool
  sc_rings :: "'a stack_ring list"
  sc_debug :: bool
  sc_consumed_counts :: "u64 list"

definition assert_valid_producer_count :: "usize \<Rightarrow> fault + unit" where
  "assert_valid_producer_count p = (if 0 < p \<and> p \<le> 128 then Inr () else Inl Panicked)"

definition stack_channel_new :: "bool \<Rightarrow> usize \<Rightarrow> usize \<Rightarrow> fault + 'a stack_channel" where
  "stack_channel_new debug n p =
     try_bind (assert_power_of_two n) (\<lambda>_.
       try_bind (assert_valid_producer_count p) (\<lambda>_.
         try_bind (sr_new n) (\<lambda>ring.
           Inr \<lparr>sc_N = n, sc_P = p, sc_producer_count = 0, sc_closed = False,
                sc_rings = replicate (unat p) ring, sc_debug = debug,
                sc_consumed_counts = replicate (unat p) 0\<rparr>)))"

definition sc_register_claim :: "'a stack_channel \<Rightarrow> (stack_channel_error + usize) \<times> 'a stack_channel" where
  "sc_register_claim ch =
     (if sc_closed ch then (Inl SC_Closed, ch)
      else (Inr (sc_producer_count ch), ch\<lparr>sc_producer_count := sc_producer_count ch + 1\<rparr>))"

definition sc_register_finish :: "usize \<Rightarrow> 'a stack_channel \<Rightarrow> (stack_channel_error + usize) \<times> 'a stack_channel" where
  "sc_register_finish i ch =
     (if sc_P ch \<le> i
      then (Inl (SC_TooManyProducers (sc_P ch)), ch\<lparr>sc_producer_count := sc_producer_count ch - 1\<rparr>)
      else (Inr i, ch))"

definition stack_channel_register :: "'a stack_channel \<Rightarrow> (stack_channel_error + usize) \<times> 'a stack_channel" where
  "stack_channel_register ch =
     (case sc_register_claim ch of
        (Inl e, ch') \<Rightarrow> (Inl e, ch')
      | (Inr i, ch') \<Rightarrow> sc_register_finish i ch')"

section \<open>Consumer side and lifecycle\<close>

definition sc_put_rings :: "'a stack_ring list \<Rightarrow> 'a stack_channel \<Rightarrow> 'a stack_channel" where
  "sc_put_rings rs ch = ch\<lparr>sc_rings := rs @ drop (length rs) (sc_rings ch)\<rparr>"

definition stack_channel_consume_all ::
    "('h \<Rightarrow> 'a \<Rightarrow> 'h) \<Rightarrow> 'h \<times> 'a list \<Rightarrow> 'a stack_channel \<Rightarrow>
     fault + usize \<times> ('h \<times> 'a list) \<times> 'a stack_channel" where
  "stack_channel_consume_all f h ch =
     try_bind (slice_to (sc_producer_count ch) (sc_rings ch)) (\<lambda>rs.
       try_bind (consume_rings (sc_debug ch) (sr_consume_batch f) 0 0 h (sc_consumed_counts ch) rs)
         (\<lambda>(n, h', counts, rs'). Inr (n, h', sc_put_rings rs' (ch\<lparr>sc_consumed_counts := counts\<rparr>))))"

definition stack_channel_consume_all_owned ::
    "('h \<Rightarrow> 'a \<Rightarrow> 'h) \<Rightarrow> 'h \<Rightarrow> 'a stack_channel \<Rightarrow> fault + usize \<times> 'h \<times> 'a stack_channel" where
  "stack_channel_consume_all_owned f h ch =
     try_bind (slice_to (sc_producer_count ch) (sc_rings ch)) (\<lambda>rs.
       try_bind (consume_rings (sc_debug ch) (sr_consume_batch_owned f) 0 0 h (sc_consumed_counts ch) rs)
         (\<lambda>(n, h', counts, rs'). Inr (n, h', sc_put_rings rs' (ch\<lparr>sc_consumed_counts := counts\<rparr>))))"

definition stack_channel_consume_all_up_to ::
    "usize \<Rightarrow> ('h \<Rightarrow> 'a \<Rightarrow> 'h) \<Rightarrow> 'h \<times> 'a list \<Rightarrow> 'a stack_channel \<Rightarrow>
     fault + usize \<times> ('h \<times> 'a list) \<times> 'a stack_channel" where
  "stack_channel_consume_all_up_to max_total f h ch =
     try_bind (slice_to (sc_producer_count ch) (sc_rings ch)) (\<lambda>rs.
       try_bind (consume_rings_up_to (sc_debug ch) (\<lambda>m. sr_consume_up_to m f) max_total 0 0 h
                   (sc_consumed_counts ch) rs)
         (\<lambda>(n, h', counts, rs'). Inr (n, h', sc_put_rings rs' (ch\<lparr>sc_consumed_counts := counts\<rparr>))))"

definition stack_channel_get_ring :: "usize \<Rightarrow> 'a stack_channel \<Rightarrow> fault + 'a stack_ring option" where
  "stack_channel_get_ring i ch =
     (if i < sc_P ch
      then (if unat i < length (sc_rings ch) then Inr (Some (sc_rings ch ! unat i)) else Inl Panicked)
      else Inr None)"

definition stack_channel_close :: "'a stack_channel \<Rightarrow> fault + 'a stack_channel" where
  "stack_channel_close ch =
     (let ch' = ch\<lparr>sc_closed := True\<rparr>
      in try_bind (slice_to (sc_producer_count ch') (sc_rings ch'))
           (\<lambda>rs. Inr (sc_put_rings (map sr_close rs) ch')))"

section \<open>Producer side\<close>

text \<open>\<open>StackProducer::push\<close> on the producer's ring.\<close>

definition sp_push :: "'a \<Rightarrow> 'a stack_ring \<Rightarrow> fault + bool \<times> 'a stack_ring" where
  "sp_push item s =
     (case sr_reserve 1 s of
        (Some v, s1) \<Rightarrow> try_bind (sr_write v 0 item s1) (\<lambda>s2. Inr (True, sr_commit 1 s2))
      | (None, s1) \<Rightarrow> Inr (False, s1))"

text \<open>\<open>copy_nonoverlapping\<close> of a slice to the reserved pointer.\<close>

fun sr_copy :: "reservation \<Rightarrow> usize \<Rightarrow> 'a list \<Rightarrow> 'a stack_ring \<Rightarrow> fault + 'a stack_ring" where
  "sr_copy v i [] s = Inr s"
| "sr_copy v i (x # xs) s = try_bind (sr_write v i x s) (sr_copy v (i + 1) xs)"

lemma sr_reserve_len_pos: "sr_reserve n s = (Some v, s') \<Longrightarrow> 0 < res_len v"
proof -
  assume res: "sr_reserve n s = (Some v, s')"
  then have "0 < n" "0 < sr_N s"
    by (auto simp: sr_reserve_def word_gt_0 split: if_splits)
  have "sr_tail s AND (sr_N s - 1) \<le> sr_N s - 1" by (rule word_and_le1)
  also have "\<dots> < sr_N s"
    using \<open>0 < sr_N s\<close> unat_minus_one [of "sr_N s"] by (cases "sr_N s = 0") (auto simp: word_less_nat_alt)
  finally have "0 < sr_N s - (sr_tail s AND (sr_N s - 1))"
    by (simp add: word_gt_0)
  with res \<open>0 < n\<close> show ?thesis
    by (auto simp: sr_reserve_def Let_def sr_make_reservation_def sr_MASK_def split: if_splits)
qed

text \<open>
  \<open>StackProducer::send\<close>: reserve the rest, copy as much as the contiguous region takes, commit, go
  on; stop when nothing can be reserved.  \<open>items\<close> is what is left, \<open>sent\<close> what was sent so far.
\<close>

function sp_send_loop :: "nat \<Rightarrow> 'a list \<Rightarrow> 'a stack_ring \<Rightarrow> fault + nat \<times> 'a stack_ring" where
  "sp_send_loop sent items s =
     (if items = [] then Inr (sent, s)
      else (case sr_reserve (of_nat (length items)) s of
              (Some v, s1) \<Rightarrow>
                (let to_copy = min (unat (res_len v)) (length items)
                 in try_bind (sr_copy v 0 (take to_copy items) s1) (\<lambda>s2.
                      sp_send_loop (sent + to_copy) (drop to_copy items) (sr_commit (of_nat to_copy) s2)))
            | (None, s1) \<Rightarrow> Inr (sent, s1)))"
  by pat_completeness auto
termination
  by (relation "measure (\<lambda>(sent, items, s). length items)")
    (auto dest!: sr_reserve_len_pos [OF sym] simp: word_less_nat_alt)

declare sp_send_loop.simps [simp del]

definition sp_send :: "'a list \<Rightarrow> 'a stack_ring \<Rightarrow> fault + nat \<times> 'a stack_ring" where
  "sp_send items s = sp_send_loop 0 items s"

section \<open>What the producer operations do\<close>

lemma sr_copy_heap:
  "unat (res_start v) + unat (res_len v) \<le> 2 ^ 64 \<Longrightarrow>
   reservation_fill v i xs (sr_ring s) = Inr r \<Longrightarrow> \<exists>s'. sr_copy v i xs s = Inr s' \<and> r = sr_ring s' \<and>
     sr_N s' = sr_N s \<and> sr_closed s' = sr_closed s"
proof (induction xs arbitrary: i s)
  case (Cons x xs)
  then obtain r1 where "reservation_write v i x (sr_ring s) = Inr r1" "reservation_fill v (i + 1) xs r1 = Inr r"
    by (auto simp: try_bind_Inr_iff)
  then show ?case using sr_write_heap [OF Cons.prems(1)] Cons.IH [OF Cons.prems(1)] by fastforce
qed auto

lemma sr_copy_commit:
  assumes inv: "sr_inv s" and v: "reserved (sr_ring s) v" and xs: "length xs \<le> unat (res_len v)"
  shows "\<exists>s'. sr_copy v 0 xs s = Inr s' \<and> sr_inv (sr_commit (of_nat (length xs)) s') \<and> sr_N s' = sr_N s \<and>
           sr_closed s' = sr_closed s \<and>
           sr_contents (sr_commit (of_nat (length xs)) s') = sr_contents s @ xs"
proof -
  have len: "unat (of_nat (length xs) :: usize) = length xs"
    using xs unsigned_less [of "res_len v", where 'a = nat] by (simp add: unat_of_nat)
  have small: "unat (res_start v) + unat (res_len v) \<le> 2 ^ 64"
    using v ring_cap_small [OF sr_invD(1) [OF inv]] unfolding reserved_def by linarith
  obtain b where b: "reservation_fill v 0 xs (sr_ring s) = Inr ((sr_ring s)\<lparr>r_buffer := b\<rparr>)"
    "ring_inv (ring_commit_internal (of_nat (length xs)) ((sr_ring s)\<lparr>r_buffer := b\<rparr>))"
    "ring_contents (ring_commit_internal (of_nat (length xs)) ((sr_ring s)\<lparr>r_buffer := b\<rparr>)) =
     ring_contents (sr_ring s) @ xs"
    using fill_commit_spec [OF sr_invD(1) [OF inv] v len xs] by auto
  obtain s' where s': "sr_copy v 0 xs s = Inr s'" "sr_ring s' = (sr_ring s)\<lparr>r_buffer := b\<rparr>"
    "sr_N s' = sr_N s" "sr_closed s' = sr_closed s"
    using sr_copy_heap [OF small b(1)] by auto
  have "ring_commit_internal n (sr_ring s') = sr_ring (sr_commit n s')" for n
    by (simp add: ring_commit_internal_def sr_commit_def sr_ring_update)
  with s' b inv show ?thesis
    by (auto simp: sr_inv_def sr_contents_def sr_commit_def)
qed

text \<open>\<open>reserve\<close> on a stack ring, in terms of what it holds.\<close>

lemma sr_reserve_spec:
  assumes inv: "sr_inv s"
  shows "if \<not> sr_closed s \<and> 0 < unat n \<and> length (sr_contents s) + unat n \<le> unat (sr_N s)
         then \<exists>v s'. sr_reserve n s = (Some v, s') \<and> sr_inv s' \<and> reserved (sr_ring s') v \<and>
                unat (res_len v) \<le> unat n \<and> sr_contents s' = sr_contents s \<and> sr_N s' = sr_N s \<and> \<not> sr_closed s'
         else \<exists>s'. sr_reserve n s = (None, s') \<and> sr_inv s' \<and> sr_contents s' = sr_contents s \<and>
                sr_N s' = sr_N s \<and> sr_closed s' = sr_closed s"
proof (cases "sr_closed s")
  case True
  then show ?thesis using inv by (simp add: sr_reserve_closed)
next
  case False
  note r = sr_invD(1) [OF inv]
  obtain v s' where v: "sr_reserve n s = (v, s')" "ring_reserve n (sr_ring s) = Inr (v, sr_ring s')" "sr_inv s'"
    "sr_N s' = sr_N s"
    using sr_reserve_heap [OF inv False] by blast
  have can: "can_reserve n (sr_ring s) \<longleftrightarrow> 0 < unat n \<and> length (sr_contents s) + unat n \<le> unat (sr_N s)"
    by (simp add: can_reserve_def sr_contents_def ring_cap_sr [OF inv])
  have same: "sr_contents s' = sr_contents s \<and> sr_closed s' = sr_closed s"
    if "sr_ring s' = (sr_ring s)\<lparr>r_cached_head := h\<rparr>" for h
    using that by (metis sr_contents_def ring_contents_frame(5) sr_ring_fields(5) ring.select_convs(6)
        ring.surjective ring.update_convs(2))
  show ?thesis
  proof (cases "can_reserve n (sr_ring s)")
    case True
    with ring_reserve_Some [OF r True] v False same show ?thesis by (auto simp: can [symmetric])
  next
    case no: False
    with ring_reserve_None [OF r no] v False same show ?thesis by (auto simp: can [symmetric])
  qed
qed

lemma sp_push_spec:
  assumes inv: "sr_inv s"
  shows "\<exists>s'. sp_push x s = Inr (\<not> sr_closed s \<and> length (sr_contents s) < unat (sr_N s), s') \<and> sr_inv s' \<and>
           sr_N s' = sr_N s \<and> sr_closed s' = sr_closed s \<and>
           sr_contents s' = (if \<not> sr_closed s \<and> length (sr_contents s) < unat (sr_N s)
                             then sr_contents s @ [x] else sr_contents s)"
proof (cases "\<not> sr_closed s \<and> length (sr_contents s) < unat (sr_N s)")
  case True
  then obtain v s' where v: "sr_reserve 1 s = (Some v, s')" "sr_inv s'" "reserved (sr_ring s') v"
    "sr_contents s' = sr_contents s" "sr_N s' = sr_N s" "\<not> sr_closed s'"
    using sr_reserve_spec [OF inv, of 1] by auto
  have "length [x] \<le> unat (res_len v)" using v(3) by (simp add: reserved_def Suc_le_eq)
  from sr_copy_commit [OF v(2,3) this] v True show ?thesis
    by (auto simp: sp_push_def try_bind_Inr_iff sr_commit_def)
next
  case False
  with sr_reserve_spec [OF inv, of 1] show ?thesis by (auto simp: sp_push_def split: if_splits)
qed

text \<open>
  Although the loop is written to cope with partial progress, it sends everything or nothing:
  \<open>reserve\<close> refuses a request that does not fit, and once one fits the rest fits too.
\<close>

lemma sp_send_loop_spec:
  assumes "sr_inv s" "length items < 2 ^ 64"
  shows "if \<not> sr_closed s \<and> length (sr_contents s) + length items \<le> unat (sr_N s)
         then \<exists>s'. sp_send_loop sent items s = Inr (sent + length items, s') \<and> sr_inv s' \<and>
                sr_contents s' = sr_contents s @ items
         else \<exists>s'. sp_send_loop sent items s = Inr (sent, s') \<and> sr_inv s' \<and> sr_contents s' = sr_contents s"
  using assms
proof (induction "length items" arbitrary: sent items s rule: less_induct)
  case less
  show ?case
  proof (cases "items = []")
    case True
    then show ?thesis using less.prems by (simp add: sp_send_loop.simps)
  next
    case False
    have n: "unat (of_nat (length items) :: usize) = length items" using less.prems by (simp add: unat_of_nat)
    note res = sr_reserve_spec [OF less.prems(1), of "of_nat (length items)", unfolded n]
    show ?thesis
    proof (cases "\<not> sr_closed s \<and> length (sr_contents s) + length items \<le> unat (sr_N s)")
      case True
      then obtain v s1 where v: "sr_reserve (of_nat (length items)) s = (Some v, s1)" "sr_inv s1"
        "reserved (sr_ring s1) v" "sr_contents s1 = sr_contents s" "sr_N s1 = sr_N s" "\<not> sr_closed s1"
        using res False by auto
      define k where "k = min (unat (res_len v)) (length items)"
      have k: "0 < k" "k \<le> length items" using v(3) False by (auto simp: k_def reserved_def)
      obtain s2 where s2: "sr_copy v 0 (take k items) s1 = Inr s2" "sr_inv (sr_commit (of_nat k) s2)"
        "sr_N s2 = sr_N s" "\<not> sr_closed s2" "sr_contents (sr_commit (of_nat k) s2) = sr_contents s @ take k items"
        using sr_copy_commit [OF v(2,3), of "take k items"] v k by (auto simp: k_def)
      have step: "sp_send_loop sent items s = sp_send_loop (sent + k) (drop k items) (sr_commit (of_nat k) s2)"
        using False v(1) s2(1) by (simp add: sp_send_loop.simps [of sent items s] k_def [symmetric] Let_def)
      have "sr_N (sr_commit (of_nat k) s2) = sr_N s" "\<not> sr_closed (sr_commit (of_nat k) s2)"
        using s2 by (simp_all add: sr_commit_def)
      with less.hyps [of "drop k items" "sr_commit (of_nat k) s2" "sent + k"] less.prems s2 k True step
      show ?thesis by auto
    next
      case no: False
      with res False show ?thesis by (auto simp: sp_send_loop.simps [of sent items s])
    qed
  qed
qed

interpretation sp_push: ring_producer sr_inv sr_contents sp_push
    "\<lambda>s. \<not> sr_closed s \<and> length (sr_contents s) < unat (sr_N s)"
  by unfold_locales (use sp_push_spec in fastforce)

section \<open>What the channel operations do\<close>

definition stack_channel_inv :: "'a stack_channel \<Rightarrow> bool" where
  "stack_channel_inv ch \<longleftrightarrow>
     0 < sc_P ch \<and> sc_P ch \<le> 128 \<and> length (sc_rings ch) = unat (sc_P ch) \<and>
     length (sc_consumed_counts ch) = length (sc_rings ch) \<and>
     unat (sc_producer_count ch) \<le> length (sc_rings ch) \<and>
     (\<forall>s\<in>set (sc_rings ch). sr_inv s)"

definition sc_registered :: "'a stack_channel \<Rightarrow> 'a stack_ring list" where
  "sc_registered ch = take (unat (sc_producer_count ch)) (sc_rings ch)"

definition sc_queued :: "'a stack_channel \<Rightarrow> 'a list list" where
  "sc_queued ch = map sr_contents (sc_registered ch)"

lemma stack_channel_new_inv: "stack_channel_new debug n p = Inr ch \<Longrightarrow> stack_channel_inv ch"
  by (auto simp: stack_channel_new_def try_bind_Inr_iff stack_channel_inv_def
      assert_valid_producer_count_def dest: sr_new_spec split: if_splits)

lemma sc_slice: "stack_channel_inv ch \<Longrightarrow> slice_to (sc_producer_count ch) (sc_rings ch) = Inr (sc_registered ch)"
  by (simp add: slice_to_def stack_channel_inv_def sc_registered_def)

lemma sc_put_rings_spec:
  assumes "stack_channel_inv ch" "length rs = length (sc_registered ch)" "\<forall>r\<in>set rs. sr_inv r"
    "length counts = length (sc_consumed_counts ch)"
  shows "stack_channel_inv (sc_put_rings rs (ch\<lparr>sc_consumed_counts := counts\<rparr>))"
    "sc_registered (sc_put_rings rs (ch\<lparr>sc_consumed_counts := counts\<rparr>)) = rs"
  using assms by (auto simp: stack_channel_inv_def sc_registered_def sc_put_rings_def dest: in_set_dropD)

lemma stack_channel_consume_all_owned_spec:
  assumes inv: "stack_channel_inv ch"
    and fit: "counts_fit (sc_debug ch) 0 (map length (sc_queued ch)) (sc_consumed_counts ch)"
  shows "\<exists>ch'. stack_channel_consume_all_owned f h ch =
           Inr (of_nat (length (concat (sc_queued ch))), foldl f h (concat (sc_queued ch)), ch') \<and>
         stack_channel_inv ch' \<and> concat (sc_queued ch') = []"
proof -
  let ?c = "if sc_debug ch then add_counts 0 (map length (sc_queued ch)) (sc_consumed_counts ch)
            else sc_consumed_counts ch"
  have reg: "\<forall>s\<in>set (sc_registered ch). sr_inv s"
    using inv by (auto simp: stack_channel_inv_def sc_registered_def dest: in_set_takeD)
  obtain rs where rs: "consume_rings (sc_debug ch) (sr_consume_batch_owned f) 0 0 h (sc_consumed_counts ch)
        (sc_registered ch) = Inr (of_nat (length (concat (sc_queued ch))), foldl f h (concat (sc_queued ch)), ?c, rs)"
    "length rs = length (sc_registered ch)" "\<forall>r\<in>set rs. sr_inv r \<and> sr_contents r = []"
    using sr_owned.consume_rings_spec [OF reg, of "sc_debug ch" 0 "sc_consumed_counts ch" f 0 h]
      fit by (auto simp: sc_queued_def o_def)
  have "\<forall>r\<in>set rs. sr_inv r" "length ?c = length (sc_consumed_counts ch)" using rs(3) by auto
  note pr = sc_put_rings_spec [OF inv rs(2) this]
  show ?thesis
    unfolding stack_channel_consume_all_owned_def sc_slice [OF inv]
    using rs(1,3) pr by (auto simp: sc_queued_def)
qed

lemma stack_channel_consume_all_up_to_spec:
  assumes inv: "stack_channel_inv ch" and rel: "\<not> sc_debug ch"
  shows "\<exists>ch'. stack_channel_consume_all_up_to m f h ch =
           Inr (of_nat (min (length (concat (sc_queued ch))) (unat m)),
                foldl (drop_after f) h (take (unat m) (concat (sc_queued ch))), ch') \<and>
         stack_channel_inv ch' \<and> concat (sc_queued ch') = drop (unat m) (concat (sc_queued ch))"
proof -
  have reg: "\<forall>s\<in>set (sc_registered ch). sr_inv s"
    using inv by (auto simp: stack_channel_inv_def sc_registered_def dest: in_set_takeD)
  obtain rs where rs: "consume_rings_up_to False (\<lambda>m. sr_consume_up_to m f) m 0 0 h
        (sc_consumed_counts ch) (sc_registered ch) =
      Inr (of_nat (min (length (concat (sc_queued ch))) (unat m)),
           foldl (drop_after f) h (take (unat m) (concat (sc_queued ch))), sc_consumed_counts ch, rs)"
    "list_all2 (\<lambda>r r'. sr_inv r' \<and> suffix (sr_contents r') (sr_contents r)) (sc_registered ch) rs"
    "concat (map sr_contents rs) = drop (unat m) (concat (sc_queued ch))"
    using sr_ref_up_to.consume_rings_up_to_spec [OF reg, of 0 m f 0 h "sc_consumed_counts ch"]
    by (auto simp: sc_queued_def)
  have rs': "length rs = length (sc_registered ch)" "\<forall>r\<in>set rs. sr_inv r"
    using rs(2) by (auto simp: list_all2_conv_all_nth in_set_conv_nth)
  note pr = sc_put_rings_spec [OF inv rs' refl]
  show ?thesis
    unfolding stack_channel_consume_all_up_to_def sc_slice [OF inv]
    using rs(1,3) pr rel by (auto simp: sc_queued_def)
qed

end
