(* ===== verification/Ring_Props.thy ===== *)
theory Ring_Props
  imports Channel_Trace Stack_Channel
begin

text \<open>
  The properties of the rings and channels of crate \<open>ringmpsc\<close>, each with an instance that shows
  its hypotheses can hold, and the runs that show where the code departs from its documentation.
\<close>

section \<open>Instances\<close>

definition small_config :: config where
  "small_config = \<lparr>ring_bits = 2, max_producers = 2, enable_metrics = True\<rparr>"

text \<open>A ring of four slots that holds 10 and 20 across the wrap of the 64-bit sequence numbers.\<close>

definition wrapping_ring :: "nat ring" where
  "wrapping_ring = (ring_new small_config)
     \<lparr>r_tail := 1, r_cached_head := - 1, r_head := - 1, r_cached_tail := 0,
      r_buffer := [Some 20, None, None, Some 10]\<rparr>"

lemma small_config_ok: "valid_config small_config" "shift_ok small_config"
  by (simp_all add: small_config_def valid_config_def shift_ok_def)

lemma wrapping_ring_facts:
  "ring_inv wrapping_ring" "cache_ok wrapping_ring" "ring_contents wrapping_ring = [10, 20]"
  "occupied wrapping_ring = 2" "ring_cap wrapping_ring = 4" "unat (r_tail wrapping_ring) = 1"
  by (simp_all add: wrapping_ring_def small_config_def ring_new_def ring_new_in_def ring_inv_def
      cache_ok_def ring_contents_def ring_window_def window_def occupied_def ring_cap_def cap_def
      shift_ok_def upt_rec unsigned_minus_1_eq_mask mask_eq_exp_minus_1)

section \<open>Heap ring\<close>



text \<open>
  \<open>Ring::send\<close> takes nothing unless the whole slice fits, and then the prefix that fits before
  the end of the buffer; what it takes is appended in order.
\<close>

theorem ring_send_appends_prefix:
  assumes "ring_inv r" "length items < 2 ^ 64"
  shows "\<exists>n r'. ring_send items r = Inr (of_nat n, r') \<and> ring_inv r' \<and> producer_frame r r' \<and>
           ring_contents r' = ring_contents r @ take n items \<and>
           n = (if length (ring_contents r) + length items \<le> ring_cap r
                then min (length items) (ring_cap r - unat (r_tail r) mod ring_cap r) else 0)"
  using ring_send_spec [OF assms] by (auto simp: send_count_def room_to_end_def)

theorem ring_send_appends_prefix_witness:
  "\<exists>r'. ring_send [1, 2] wrapping_ring = Inr (2, r') \<and> ring_contents r' = [10, 20, 1, 2]"
  using ring_send_appends_prefix [OF wrapping_ring_facts(1), of "[1, 2]"] by (auto simp: wrapping_ring_facts)

text \<open>
  C29. \<open>Ring::consume_batch\<close> hands every item to the handler once, in the order of arrival, drops
  each after use, empties the ring and reports the number; the owned variant hands the same items
  over without dropping.
\<close>

theorem ring_consume_batch_all_in_order:
  assumes "ring_inv r"
  shows "\<exists>r'. ring_consume_batch f (h, d) r =
           Inr (of_nat (length (ring_contents r)), (foldl f h (ring_contents r), d @ ring_contents r), r') \<and>
           ring_consume_batch_owned f h r =
           Inr (of_nat (length (ring_contents r)), foldl f h (ring_contents r), r') \<and>
           ring_inv r' \<and> consumer_frame r r' \<and> ring_contents r' = []"
proof -
  obtain r1 where r1: "ring_consume_batch_owned f h r =
      Inr (of_nat (occupied r), foldl f h (ring_contents r), r1)" "ring_inv r1" "consumer_frame r r1"
      "ring_contents r1 = []"
    using ring_consume_batch_owned_spec [OF assms, of f h] by auto
  obtain r2 where r2: "ring_consume_batch_owned (drop_after f) (h, d) r =
      Inr (of_nat (occupied r), foldl (drop_after f) (h, d) (ring_contents r), r2)"
    using ring_consume_batch_owned_spec [OF assms, of "drop_after f" "(h, d)"] by auto
  have "r2 = r1"
    using r1(1) r2 ring_consume_loop [OF assms order.refl, of f h]
      ring_consume_loop [OF assms order.refl, of "drop_after f" "(h, d)"]
    by (auto simp: ring_consume_batch_owned_def Let_def occupied_def split: if_splits)
  with r1 r2 show ?thesis
    by (simp add: ring_consume_batch_eq_owned foldl_drop_after)
qed

theorem ring_consume_batch_all_in_order_witness:
  "\<exists>r'. ring_consume_batch (\<lambda>s x. s + x) (0, []) wrapping_ring = Inr (2, (30, [10, 20]), r') \<and>
        ring_contents r' = []"
  using ring_consume_batch_all_in_order [OF wrapping_ring_facts(1), of "\<lambda>s x. s + x" 0 "[]"]
  by (auto simp: wrapping_ring_facts)

text \<open>
  \<open>Ring::consume_up_to_owned\<close> hands over the first \<open>min(len, max)\<close> items in order and leaves
  the rest.
\<close>

theorem ring_consume_up_to_prefix:
  assumes "ring_inv r"
  shows "\<exists>r'. ring_consume_up_to_owned m f h r =
           Inr (of_nat (min (length (ring_contents r)) (unat m)), foldl f h (take (unat m) (ring_contents r)), r') \<and>
         ring_inv r' \<and> consumer_frame r r' \<and> ring_contents r' = drop (unat m) (ring_contents r)"
  using ring_consume_up_to_owned_spec [OF assms, of m f h] by simp

theorem ring_consume_up_to_prefix_witness:
  "\<exists>r'. ring_consume_up_to_owned 1 (\<lambda>s x. s @ [x]) [] wrapping_ring = Inr (1, [10], r') \<and> ring_contents r' = [20]"
  using ring_consume_up_to_prefix [OF wrapping_ring_facts(1), of 1 "\<lambda>s x. s @ [x]" "[]"]
  by (auto simp: wrapping_ring_facts)

text \<open>
  \<open>Ring::recv\<close>, when the cached tail lies between head and tail, copies a prefix of the contents
  to the front of \<open>out\<close>, removes exactly that prefix, and copies nothing only if \<open>out\<close> or the ring
  is empty.
\<close>

theorem ring_recv_copies_prefix:
  assumes "ring_inv r" "cache_ok r" "length out < 2 ^ 64"
  shows "\<exists>n r'. ring_recv out r = Inr (of_nat n, take n (ring_contents r) @ drop n out, r') \<and>
           n \<le> length out \<and> n \<le> length (ring_contents r) \<and>
           (n = 0 \<longleftrightarrow> out = [] \<or> ring_contents r = []) \<and>
           ring_inv r' \<and> cache_ok r' \<and> ring_contents r' = drop n (ring_contents r)"
  using ring_recv_spec [OF assms] by auto

theorem ring_recv_copies_prefix_witness:
  "\<exists>n r'. ring_recv [0, 0, 0] wrapping_ring = Inr (of_nat n, take n [10, 20] @ drop n [0, 0, 0], r') \<and> 0 < n"
  using ring_recv_copies_prefix [OF wrapping_ring_facts(1,2), of "[0, 0, 0]"]
  by (auto simp: wrapping_ring_facts)

text \<open>
  C30. Dropping a ring drops exactly the items it holds, each once and in order, and no slot twice.
\<close>

theorem ring_drop_exactly_contents:
  assumes "ring_inv r"
  shows "\<exists>b. ring_drop r = Inr (ring_contents r, b)"
  using ring_drop_spec [OF assms] by auto

theorem ring_drop_exactly_contents_witness: "\<exists>b. ring_drop wrapping_ring = Inr ([10, 20], b)"
  using ring_drop_exactly_contents [OF wrapping_ring_facts(1)] by (simp add: wrapping_ring_facts)

text \<open>
  C32. \<open>reserve_with_backoff\<close> always returns, whatever the consumer does to a well-formed ring while
  the producer waits; a reservation it returns lies inside the buffer and the free space.
\<close>

theorem ring_reserve_with_backoff_returns:
  assumes "ring_inv r" "\<And>k r. ring_inv r \<Longrightarrow> ring_inv (env k r)"
  shows "\<exists>res r'. ring_reserve_with_backoff env n r = Inr (res, r') \<and> ring_inv r' \<and>
           (\<forall>v. res = Some v \<longrightarrow> reserved r' v \<and> unat (res_len v) \<le> unat n)"
  using reserve_backoff_loop_spec [OF assms(2,1)] by (simp add: ring_reserve_with_backoff_def)

theorem ring_reserve_with_backoff_returns_witness:
  "\<exists>res r'. ring_reserve_with_backoff (\<lambda>_ r. r) 3 wrapping_ring = Inr (res, r') \<and> ring_inv r'"
  using ring_reserve_with_backoff_returns [OF wrapping_ring_facts(1), of "\<lambda>_ r. r" 3] by auto

text \<open>
  As long as the tail does not pass \<open>2^64\<close>, committing a non-empty part of a reservation
  satisfies the three assertions that \<open>commit_internal\<close> makes in a debug build.
\<close>

theorem ring_commit_asserts_hold:
  assumes "ring_inv r" "reserved r v" "0 < unat n" "unat n \<le> unat (res_len v)"
    "unat (r_tail r) + unat n < 2 ^ 64"
  shows "ring_commit_asserts n r"
proof -
  have room: "unat (r_tail r - r_cached_head r) + unat n \<le> ring_cap r" "ring_cap r < 2 ^ 64"
    "occupied r \<le> unat (r_tail r - r_cached_head r)"
    using assms ring_cap_small [OF assms(1)] by (auto simp: reserved_def ring_inv_def)
  then have "unat (r_tail r + n - r_head r) = occupied r + unat n"
    by (simp add: occupied_def unat_dist_add)
  moreover have "unat (r_tail r + n) = unat (r_tail r) + unat n"
    using assms(5) unat_add_lem [of "r_tail r" n] by simp
  ultimately show ?thesis
    using room assms(3) unat_ring_capacity [OF assms(1)]
    by (simp add: ring_commit_asserts_def debug_assert_bounded_count_def debug_assert_monotonic_def
        debug_assert_no_wrap_def word_le_nat_alt word_less_nat_alt)
qed

theorem ring_commit_asserts_hold_witness:
  "ring_commit_asserts 1 wrapping_ring"
proof -
  have "reserved wrapping_ring \<lparr>res_start = 1, res_len = 2\<rparr>"
    by (simp add: reserved_def wrapping_ring_facts) (simp add: wrapping_ring_def small_config_def
        ring_new_def ring_new_in_def ring_mask_def config_mask_def config_capacity_def)
  from ring_commit_asserts_hold [OF wrapping_ring_facts(1) this, of 1] show ?thesis
    by (simp add: wrapping_ring_facts)
qed

section \<open>Heap channel\<close>

definition two_rings :: "nat channel" where
  "two_rings = (channel_new False small_config)\<lparr>ch_rings := [wrapping_ring, wrapping_ring], ch_producer_count := 2\<rparr>"

lemma two_rings_facts:
  "channel_inv two_rings" "\<not> ch_debug two_rings" "queued two_rings = [[10, 20], [10, 20]]"
  "unat (ch_producer_count two_rings) = 2" "ch_rings two_rings = [wrapping_ring, wrapping_ring]"
  using small_config_ok wrapping_ring_facts
  by (simp_all add: two_rings_def channel_new_def channel_new_in_def channel_inv_def queued_def
      registered_def small_config_def)

text \<open>
  \<open>Channel::register\<close> answers \<open>Closed\<close> on a closed channel, \<open>TooManyProducers\<close> when all ids are
  taken, and otherwise the next unused id; a failed registration changes nothing and no
  registration changes what is queued.
\<close>

theorem channel_register_outcome:
  assumes "channel_inv ch"
  shows "\<exists>ch'. channel_register ch =
      Inr (if ch_closed ch then Inl Closed
           else if ch_producer_count ch = max_producers (ch_config ch)
           then Inl (TooManyProducers (max_producers (ch_config ch)))
           else Inr (ch_producer_count ch), ch') \<and> channel_inv ch' \<and>
      map ring_contents (ch_rings ch') = map ring_contents (ch_rings ch) \<and>
      unat (ch_producer_count ch') =
        (if ch_closed ch \<or> ch_producer_count ch = max_producers (ch_config ch)
         then unat (ch_producer_count ch) else Suc (unat (ch_producer_count ch)))"
  using channel_register_spec [OF assms] by (auto split: if_splits)

theorem channel_register_outcome_witness:
  "\<exists>ch'. channel_register two_rings = Inr (Inl (TooManyProducers 2), ch') \<and> channel_inv ch'"
  using channel_register_outcome [OF two_rings_facts(1)]
  by (auto simp: two_rings_def channel_new_def channel_new_in_def small_config_def)

text \<open>
  \<open>Channel::consume_all_owned\<close> hands over the queues of all registered producers, one after the
  other, each in order and completely, reports the total and leaves them empty.
\<close>

theorem channel_consume_all_drains:
  assumes "channel_inv ch" "counts_fit (ch_debug ch) 0 (map length (queued ch)) (ch_consumed_counts ch)"
  shows "\<exists>ch'. channel_consume_all_owned f h ch =
           Inr (of_nat (length (concat (queued ch))), foldl f h (concat (queued ch)), ch') \<and>
         channel_inv ch' \<and> concat (queued ch') = []"
  using channel_consume_all_owned_spec [OF assms, of f h] by (auto simp: queued_def)

theorem channel_consume_all_drains_witness:
  "\<exists>ch'. channel_consume_all_owned (\<lambda>s x. s @ [x]) [] two_rings = Inr (4, [10, 20, 10, 20], ch') \<and> channel_inv ch'"
proof -
  have "counts_fit (ch_debug two_rings) 0 (map length (queued two_rings)) (ch_consumed_counts two_rings)"
    using two_rings_facts(2) by (simp add: counts_fit_def)
  from channel_consume_all_drains [OF two_rings_facts(1) this, of "\<lambda>s x. s @ [x]" "[]"] show ?thesis
    by (simp add: two_rings_facts(3)) blast
qed

text \<open>
  C33. \<open>Channel::consume_all_up_to\<close> with budget \<open>m\<close> hands over the first \<open>m\<close> items of the concatenated
  queues, drops each after use, and leaves the rest: earlier producers are preferred.
\<close>

theorem channel_consume_up_to_budget:
  assumes "channel_inv ch" "\<not> ch_debug ch"
  shows "\<exists>ch'. channel_consume_all_up_to m f (h, d) ch =
           Inr (of_nat (min (length (concat (queued ch))) (unat m)),
                (foldl f h (take (unat m) (concat (queued ch))), d @ take (unat m) (concat (queued ch))), ch') \<and>
         channel_inv ch' \<and> concat (queued ch') = drop (unat m) (concat (queued ch))"
  using channel_consume_all_up_to_owned_spec [OF assms, of m "drop_after f" "(h, d)"]
  by (auto simp: channel_consume_all_up_to_eq_owned foldl_drop_after)

theorem channel_consume_up_to_budget_witness:
  "\<exists>ch'. channel_consume_all_up_to 3 (\<lambda>s x. s + x) (0, []) two_rings = Inr (3, (40, [10, 20, 10]), ch') \<and>
         concat (queued ch') = [20]"
  using channel_consume_up_to_budget [OF two_rings_facts(1,2), of 3 "\<lambda>s x. s + x" 0 "[]"]
  by (auto simp: two_rings_facts(3))



text \<open>
  \<open>Channel::recv\<close>, on rings whose cached tails are current, writes to the front of \<open>out\<close> a
  prefix of each registered producer's queue, in producer order, leaves the rest of \<open>out\<close>
  unchanged, removes exactly what it copied and reports the total.
\<close>

theorem channel_recv_copies_prefixes:
  assumes "channel_inv ch" "\<forall>r\<in>set (registered ch). cache_ok r" "length out < 2 ^ 64"
  shows "\<exists>tot ns ch'. channel_recv out ch =
           Inr (tot, concat (map2 take ns (queued ch)) @ drop (unat tot) out, ch') \<and>
         length ns = length (queued ch) \<and> unat tot = sum_list ns \<and> unat tot \<le> length out \<and>
         channel_inv ch' \<and> queued ch' = map2 drop ns (queued ch)"
proof -
  have "\<forall>r\<in>set (registered ch). ring_inv r \<and> cache_ok r" using registered_inv [OF assms(1)] assms(2) by simp
  from recv_rings_spec [OF this, of 0 out] assms(3) obtain tot ns rs where
    rs: "recv_rings 0 out (registered ch) =
      Inr (tot, concat (map2 take ns (queued ch)) @ drop (unat tot) out, rs)"
    "length ns = length (registered ch)" "unat tot = sum_list ns" "unat tot \<le> length out"
    "\<forall>r\<in>set rs. ring_inv r \<and> cache_ok r" "map ring_contents rs = map2 drop ns (queued ch)"
    by (auto simp: queued_def)
  have len: "length rs = length (registered ch)"
    using arg_cong [OF rs(6), of length] rs(2) by (simp add: queued_def)
  have inv': "\<forall>r\<in>set rs. ring_inv r" using rs(5) by blast
  show ?thesis
    unfolding channel_recv_def slice_registered [OF assms(1)]
    using rs put_rings_spec [OF assms(1) len inv' refl] by (auto simp: queued_def)
qed

theorem channel_recv_copies_prefixes_witness:
  "\<exists>tot ns ch'. channel_recv [0, 0, 0] two_rings =
      Inr (tot, concat (map2 take ns [[10, 20], [10, 20]]) @ drop (unat tot) [0, 0, 0], ch') \<and>
      length ns = 2 \<and> unat tot = sum_list ns"
proof -
  have "\<forall>r\<in>set (registered two_rings). cache_ok r"
    using wrapping_ring_facts(2) by (simp add: registered_def two_rings_facts)
  from channel_recv_copies_prefixes [OF two_rings_facts(1) this, of "[0, 0, 0]"] obtain tot ns ch' where
    "channel_recv [0, 0, 0] two_rings =
      Inr (tot, concat (map2 take ns [[10, 20], [10, 20]]) @ drop (unat tot) [0, 0, 0], ch')"
    "length ns = 2" "unat tot = sum_list ns" by (auto simp: two_rings_facts)
  then show ?thesis by blast
qed

section \<open>Stack ring and stack channel\<close>

definition small_stack_ring :: "nat stack_ring" where
  "small_stack_ring = \<lparr>sr_N = 4, sr_tail = 1, sr_cached_head = - 1, sr_head = - 1, sr_cached_tail = 0,
     sr_closed = False, sr_buffer = [Some 20, None, None, Some 10]\<rparr>"

lemma small_stack_ring_facts:
  "sr_inv small_stack_ring" "sr_contents small_stack_ring = [10, 20]" "sr_N small_stack_ring = 4"
  "\<not> sr_closed small_stack_ring"
proof -
  have "sr_bits 4 = 2" by (simp add: sr_bits_def upt_rec)
  then show "sr_inv small_stack_ring" "sr_contents small_stack_ring = [10, 20]"
    by (simp_all add: small_stack_ring_def sr_inv_def sr_contents_def usize_is_power_of_two_def upt_rec
        sr_ring_def ring_inv_def ring_contents_def ring_window_def window_def occupied_def ring_cap_def cap_def
        shift_ok_def unsigned_minus_1_eq_mask mask_eq_exp_minus_1)
qed (simp_all add: small_stack_ring_def)

text \<open>
  C35. \<open>StackRing::reserve\<close> agrees with \<open>Ring::reserve\<close> on the same state while the ring is open; once
  it is closed it hands out nothing.
\<close>

theorem stack_ring_reserve_refines:
  assumes "sr_inv s"
  shows "if sr_closed s then sr_reserve n s = (None, s)
         else ring_reserve n (sr_ring s) = Inr (fst (sr_reserve n s), sr_ring (snd (sr_reserve n s)))"
  using sr_reserve_heap [OF assms, of n] by (auto simp: sr_reserve_closed)

theorem stack_ring_reserve_refines_witness:
  "ring_reserve 2 (sr_ring small_stack_ring) =
     Inr (fst (sr_reserve 2 small_stack_ring), sr_ring (snd (sr_reserve 2 small_stack_ring)))"
  using stack_ring_reserve_refines [OF small_stack_ring_facts(1), of 2] small_stack_ring_facts(4) by simp

text \<open>
  \<open>StackProducer::send\<close> returns, and sends the whole slice when the ring is open and has room for
  it, even across the end of the buffer; otherwise it sends nothing.
\<close>

theorem stack_send_all_or_nothing:
  assumes "sr_inv s" "length items < 2 ^ 64"
  shows "\<exists>s'. sp_send items s =
           Inr (if \<not> sr_closed s \<and> length (sr_contents s) + length items \<le> unat (sr_N s)
                then length items else 0, s') \<and> sr_inv s' \<and>
           sr_contents s' = (if \<not> sr_closed s \<and> length (sr_contents s) + length items \<le> unat (sr_N s)
                             then sr_contents s @ items else sr_contents s)"
  using sp_send_loop_spec [OF assms, of 0] by (auto simp: sp_send_def split: if_splits)

theorem stack_send_all_or_nothing_witness:
  "\<exists>s'. sp_send [1, 2] small_stack_ring = Inr (2, s') \<and> sr_contents s' = [10, 20, 1, 2]"
  using stack_send_all_or_nothing [OF small_stack_ring_facts(1), of "[1, 2]"]
  by (auto simp: small_stack_ring_facts)

text \<open>
  \<open>StackChannel::consume_all_owned\<close> drains all registered producers in order, like the heap
  channel; in a debug build its counters must not overflow.
\<close>

theorem stack_channel_consume_all_drains:
  assumes "stack_channel_inv ch"
    "counts_fit (sc_debug ch) 0 (map length (sc_queued ch)) (sc_consumed_counts ch)"
  shows "\<exists>ch'. stack_channel_consume_all_owned f h ch =
           Inr (of_nat (length (concat (sc_queued ch))), foldl f h (concat (sc_queued ch)), ch') \<and>
         stack_channel_inv ch' \<and> concat (sc_queued ch') = []"
  using stack_channel_consume_all_owned_spec [OF assms] .

definition small_stack_channel :: "nat stack_channel" where
  "small_stack_channel = \<lparr>sc_N = 4, sc_P = 2, sc_producer_count = 1, sc_closed = False,
     sc_rings = [small_stack_ring, small_stack_ring], sc_debug = True, sc_consumed_counts = [5, 0]\<rparr>"

theorem stack_channel_consume_all_drains_witness:
  "\<exists>ch'. stack_channel_consume_all_owned (\<lambda>s x. s @ [x]) [] small_stack_channel = Inr (2, [10, 20], ch') \<and>
         stack_channel_inv ch'"
proof -
  have q: "sc_queued small_stack_channel = [[10, 20]]"
    by (simp add: sc_queued_def sc_registered_def small_stack_channel_def small_stack_ring_facts)
  have "stack_channel_inv small_stack_channel"
    by (simp add: stack_channel_inv_def small_stack_channel_def small_stack_ring_facts)
  moreover have "counts_fit (sc_debug small_stack_channel) 0 (map length (sc_queued small_stack_channel))
      (sc_consumed_counts small_stack_channel)"
    by (simp add: q counts_fit_def) (simp add: small_stack_channel_def)
  ultimately show ?thesis
    using stack_channel_consume_all_drains [of small_stack_channel "\<lambda>s x. s @ [x]" "[]"] q by auto
qed

section \<open>Where the code departs from its documentation\<close>

definition stale_cache_run :: "fault + usize \<times> nat list \<times> nat ring" where
  "stale_cache_run =
     try_bind (ring_push 1 (ring_new small_config)) (\<lambda>(_, r1).
     try_bind (ring_recv [0] r1) (\<lambda>(_, _, r2).
     try_bind (ring_push 2 r2) (\<lambda>(_, r3).
     try_bind (ring_consume_batch_owned (\<lambda>h x. ()) () r3) (\<lambda>(_, _, r4).
     ring_recv [0] r4))))"


definition double_reservation_run :: "fault + usize \<times> usize" where
  "double_reservation_run =
     try_bind (ring_reserve 3 (ring_new small_config :: nat ring)) (\<lambda>(v1, r1).
     try_bind (ring_reserve 3 r1) (\<lambda>(v2, r2).
     case (v1, v2) of
       (Some a, Some b) \<Rightarrow>
         (let r = reservation_commit b (reservation_commit a r2) in Inr (ring_len r, ring_capacity r))
     | _ \<Rightarrow> Inr (0, 0)))"

text \<open>
  Two live reservations of the same three slots of a ring of four: committing both leaves the
  ring with six items, more than its capacity.
\<close>

theorem double_reservation: "double_reservation_run = Inr (6, 4)"
  by code_simp

definition register_race_run :: "fault + usize \<times> unit \<times> nat channel" where
  "register_race_run =
     try_bind (channel_register (channel_new False \<lparr>ring_bits = 1, max_producers = 1, enable_metrics = False\<rparr>))
       (\<lambda>(_, ch). channel_consume_all_owned (\<lambda>h x. ()) () (snd (register_claim ch)))"

text \<open>
  \<open>register\<close> increments the producer count before it checks the bound, so a consumer that runs
  between the increment and the rollback slices past the rings and panics.
\<close>

theorem register_race: "register_race_run = Inl Panicked"
  by code_simp

text \<open>
  The debug assertions compare the 64-bit sequence numbers directly: a commit across the wrap, which
  the release build handles, fails them.
\<close>

lemma commit_assert_at_wrap:
  "\<not> ring_commit_asserts 1 ((ring_new small_config :: nat ring)
      \<lparr>r_tail := - 1, r_cached_head := - 1, r_head := - 1, r_cached_tail := - 1\<rparr>)"
  by (simp add: ring_commit_asserts_def debug_assert_monotonic_def)

text \<open>\<open>push\<close> on a closed heap ring with room succeeds.\<close>

lemma push_after_close:
  assumes "ring_inv r" "length (ring_contents r) < ring_cap r"
  shows "\<exists>r'. ring_push x (ring_close r) = Inr (True, r') \<and> ring_contents r' = ring_contents r @ [x]"
  using ring_push_spec [of "ring_close r" x] assms
  by (auto simp: ring_close_def ring_cap_def occupied_def ring_contents_def ring_window_def)

end
