(* ===== verification/Spsc.thy ===== *)
theory Spsc
  imports Ring_Refine
begin

text \<open>
  The two sides of a ring running concurrently.  A state holds the ring, where the producer is in
  \<open>reserve\<close>/write/\<open>commit\<close>, where the consumer is in \<open>consume_batch\<close>, and the histories of committed
  and consumed items.  Each step is one access to shared memory.  A load of the other side's
  sequence number may return a stale value: the producer sees any head from its cached one up to
  the current one, the consumer any tail from its head up to the current one.  That is what
  acquire loads of a counter with a single, monotone writer guarantee, and it includes every
  value the other side stored in between.
\<close>

datatype 'a producer_pc =
    P_Idle
  | P_Slow usize
  | P_Write reservation "'a list"

datatype consumer_pc =
    C_Idle
  | C_Loop u64 u64

record 'a spsc =
  sp_ring :: "'a ring"
  sp_producer :: "'a producer_pc"
  sp_consumer :: consumer_pc
  sp_sent :: "'a list"
  sp_recvd :: "'a list"
  sp_fault :: bool

definition spsc_start :: "config \<Rightarrow> 'a spsc" where
  "spsc_start c = \<lparr>sp_ring = ring_new c, sp_producer = P_Idle, sp_consumer = C_Idle,
     sp_sent = [], sp_recvd = [], sp_fault = False\<rparr>"

text \<open>
  \<open>P_Write v p\<close>: reservation \<open>v\<close> is held and the items \<open>p\<close> have been written to its first slots.
  \<open>C_Loop pos t\<close>: the batch up to \<open>t\<close> is being consumed, \<open>pos\<close> is next.  A fault of the model (a write
  outside the buffer, a read of a slot without a value) sets \<open>sp_fault\<close>.  Either side, or whoever holds
  the channel, may set the flags of the ring at any time.
\<close>

inductive spsc_step :: "'a spsc \<Rightarrow> 'a spsc \<Rightarrow> bool" where
  reserve_reject:
    "sp_producer s = P_Idle \<Longrightarrow> n = 0 \<or> ring_capacity (sp_ring s) < n \<Longrightarrow> spsc_step s s"
| reserve_fast:
    "sp_producer s = P_Idle \<Longrightarrow> \<not> (n = 0 \<or> ring_capacity (sp_ring s) < n) \<Longrightarrow>
     n \<le> saturating_sub (ring_capacity (sp_ring s)) (r_tail (sp_ring s) - r_cached_head (sp_ring s)) \<Longrightarrow>
     ring_make_reservation (r_tail (sp_ring s)) n (sp_ring s) = Inr v \<Longrightarrow>
     spsc_step s (s\<lparr>sp_producer := P_Write v []\<rparr>)"
| reserve_slow:
    "sp_producer s = P_Idle \<Longrightarrow> \<not> (n = 0 \<or> ring_capacity (sp_ring s) < n) \<Longrightarrow>
     \<not> n \<le> saturating_sub (ring_capacity (sp_ring s)) (r_tail (sp_ring s) - r_cached_head (sp_ring s)) \<Longrightarrow>
     spsc_step s (s\<lparr>sp_producer := P_Slow n\<rparr>)"
| load_head_full:
    "sp_producer s = P_Slow n \<Longrightarrow>
     k \<le> unat (r_head (sp_ring s) - r_cached_head (sp_ring s)) \<Longrightarrow>
     h = r_cached_head (sp_ring s) + of_nat k \<Longrightarrow>
     saturating_sub (ring_capacity (sp_ring s)) (r_tail (sp_ring s) - h) < n \<Longrightarrow>
     spsc_step s (s\<lparr>sp_producer := P_Idle, sp_ring := (sp_ring s)\<lparr>r_cached_head := h\<rparr>\<rparr>)"
| load_head_room:
    "sp_producer s = P_Slow n \<Longrightarrow>
     k \<le> unat (r_head (sp_ring s) - r_cached_head (sp_ring s)) \<Longrightarrow>
     h = r_cached_head (sp_ring s) + of_nat k \<Longrightarrow>
     \<not> saturating_sub (ring_capacity (sp_ring s)) (r_tail (sp_ring s) - h) < n \<Longrightarrow>
     ring_make_reservation (r_tail (sp_ring s)) n (sp_ring s) = Inr v \<Longrightarrow>
     spsc_step s (s\<lparr>sp_producer := P_Write v [], sp_ring := (sp_ring s)\<lparr>r_cached_head := h\<rparr>\<rparr>)"
| write_slot:
    "sp_producer s = P_Write v p \<Longrightarrow> length p < unat (res_len v) \<Longrightarrow>
     reservation_write v (of_nat (length p)) x (sp_ring s) = Inr r \<Longrightarrow>
     spsc_step s (s\<lparr>sp_producer := P_Write v (p @ [x]), sp_ring := r\<rparr>)"
| write_fault:
    "sp_producer s = P_Write v p \<Longrightarrow> length p < unat (res_len v) \<Longrightarrow>
     reservation_write v (of_nat (length p)) x (sp_ring s) = Inl e \<Longrightarrow>
     spsc_step s (s\<lparr>sp_fault := True\<rparr>)"
| commit:
    "sp_producer s = P_Write v p \<Longrightarrow> unat n \<le> length p \<Longrightarrow>
     spsc_step s (s\<lparr>sp_producer := P_Idle, sp_ring := ring_commit_internal n (sp_ring s),
                   sp_sent := sp_sent s @ take (unat n) p\<rparr>)"
| load_tail:
    "sp_consumer s = C_Idle \<Longrightarrow> k \<le> unat (r_tail (sp_ring s) - r_head (sp_ring s)) \<Longrightarrow>
     spsc_step s (s\<lparr>sp_consumer := C_Loop (r_head (sp_ring s)) (r_head (sp_ring s) + of_nat k)\<rparr>)"
| take_slot:
    "sp_consumer s = C_Loop pos t \<Longrightarrow> pos \<noteq> t \<Longrightarrow>
     slot_take (r_buffer (sp_ring s)) (pos AND ring_mask (sp_ring s)) = Inr (x, b) \<Longrightarrow>
     spsc_step s (s\<lparr>sp_consumer := C_Loop (pos + 1) t, sp_ring := (sp_ring s)\<lparr>r_buffer := b\<rparr>,
                   sp_recvd := sp_recvd s @ [x]\<rparr>)"
| take_fault:
    "sp_consumer s = C_Loop pos t \<Longrightarrow> pos \<noteq> t \<Longrightarrow>
     slot_take (r_buffer (sp_ring s)) (pos AND ring_mask (sp_ring s)) = Inl e \<Longrightarrow>
     spsc_step s (s\<lparr>sp_fault := True\<rparr>)"
| publish_head:
    "sp_consumer s = C_Loop t t \<Longrightarrow>
     spsc_step s (s\<lparr>sp_consumer := C_Idle,
                   sp_ring := record_received n ((sp_ring s)\<lparr>r_head := t\<rparr>)\<rparr>)"
| close_ring:
    "spsc_step s (s\<lparr>sp_ring := ring_close (sp_ring s)\<rparr>)"
| activate_ring:
    "spsc_step s (s\<lparr>sp_ring := ring_set_active True (sp_ring s)\<rparr>)"

inductive spsc_reachable :: "config \<Rightarrow> 'a spsc \<Rightarrow> bool" for c where
  start: "spsc_reachable c (spsc_start c)"
| step: "spsc_reachable c s \<Longrightarrow> spsc_step s s' \<Longrightarrow> spsc_reachable c s'"

section \<open>Invariant\<close>

text \<open>How far the consumer has got, and what the producer has written but not committed.\<close>

definition sp_pos :: "'a spsc \<Rightarrow> u64" where
  "sp_pos s = (case sp_consumer s of C_Idle \<Rightarrow> r_head (sp_ring s) | C_Loop pos t \<Rightarrow> pos)"

definition sp_pending :: "'a spsc \<Rightarrow> 'a list" where
  "sp_pending s = (case sp_producer s of P_Write v p \<Rightarrow> p | _ \<Rightarrow> [])"

text \<open>The ring as it looks from the consumer's position.\<close>

definition sp_view :: "'a spsc \<Rightarrow> 'a ring" where
  "sp_view s = (sp_ring s)\<lparr>r_head := sp_pos s\<rparr>"

definition spsc_inv :: "'a spsc \<Rightarrow> bool" where
  "spsc_inv s \<longleftrightarrow>
     \<not> sp_fault s \<and> ring_inv (sp_view s) \<and>
     occupied (sp_view s) \<le> occupied (sp_ring s) \<and>
     occupied (sp_ring s) \<le> unat (r_tail (sp_ring s) - r_cached_head (sp_ring s)) \<and>
     sp_sent s = sp_recvd s @ ring_contents (sp_view s) \<and>
     (\<forall>n. sp_producer s = P_Slow n \<longrightarrow> n \<noteq> 0) \<and>
     (\<forall>v p. sp_producer s = P_Write v p \<longrightarrow> reserved (sp_view s) v \<and> length p \<le> unat (res_len v)) \<and>
     window (r_buffer (sp_ring s)) (unat (sp_pos s)) (occupied (sp_view s) + length (sp_pending s)) =
       ring_window (sp_view s) @ map Some (sp_pending s) \<and>
     (\<forall>pos t. sp_consumer s = C_Loop pos t \<longrightarrow> unat (t - pos) \<le> occupied (sp_view s))"

lemma spsc_start_inv:
  assumes "shift_ok c"
  shows "spsc_inv (spsc_start c)"
proof -
  have "sp_view (spsc_start c) = (ring_new c :: 'a ring)"
    by (simp add: sp_view_def sp_pos_def spsc_start_def)
  moreover have "occupied (ring_new c :: 'a ring) = 0"
    by (metis length_ring_contents list.size(3) ring_new_contents)
  ultimately show ?thesis
    using ring_new_inv [OF assms, where 'a = 'a]
    by (auto simp: spsc_inv_def spsc_start_def sp_pending_def sp_pos_def ring_window_def)
qed

text \<open>Only the consumer's position matters for a view; everything else is the ring's.\<close>

lemma sp_view_fields [simp]:
  "r_tail (sp_view s) = r_tail (sp_ring s)" "r_cached_head (sp_view s) = r_cached_head (sp_ring s)"
  "r_buffer (sp_view s) = r_buffer (sp_ring s)" "r_config (sp_view s) = r_config (sp_ring s)"
  "r_head (sp_view s) = sp_pos s" "ring_mask (sp_view s) = ring_mask (sp_ring s)"
  "ring_capacity (sp_view s) = ring_capacity (sp_ring s)" "ring_cap (sp_view s) = ring_cap (sp_ring s)"
  by (simp_all add: sp_view_def ring_mask_def ring_capacity_def ring_cap_def)

lemma occupied_buffer [simp]: "occupied (r\<lparr>r_buffer := b\<rparr>) = occupied r"
  by (simp add: occupied_def)

lemma sp_view_buffer [simp]: "(sp_view s)\<lparr>r_buffer := r_buffer (sp_ring s)\<rparr> = sp_view s"
  by (simp add: sp_view_def)

lemma sp_pos_cong:
  "sp_consumer s' = sp_consumer s \<Longrightarrow> r_head (sp_ring s') = r_head (sp_ring s) \<Longrightarrow> sp_pos s' = sp_pos s"
  by (simp add: sp_pos_def split: consumer_pc.split)

lemma make_reservation_view:
  "ring_make_reservation t n (sp_view s) = ring_make_reservation t n (sp_ring s)"
  by (simp add: ring_make_reservation_def)

section \<open>The producer's steps\<close>

text \<open>Refreshing the cached head with a value between the old one and the current head.\<close>

lemma stale_head_distance:
  fixes t h c :: u64
  assumes "unat (t - h) \<le> unat (t - c)" "k \<le> unat (h - c)"
  shows "unat (t - h) \<le> unat (t - (c + of_nat k)) \<and> unat (t - (c + of_nat k)) \<le> unat (t - c)"
proof -
  have "unat (t - c - (t - h)) = unat (t - c) - unat (t - h)"
    using assms(1) by (intro unat_sub) (simp add: word_le_nat_alt)
  then have hc: "unat (h - c) = unat (t - c) - unat (t - h)" by simp
  have k: "unat (of_nat k :: u64) = k"
    using assms(2) unsigned_less [of "h - c", where 'a = nat] by (simp add: unat_of_nat)
  have "unat (t - (c + of_nat k)) = unat (t - c) - k"
    using unat_dist_sub [of "of_nat k" t c] k hc assms by simp
  then show ?thesis using hc assms by linarith
qed

lemma spsc_inv_cached_head:
  assumes inv: "spsc_inv s" and k: "k \<le> unat (r_head (sp_ring s) - r_cached_head (sp_ring s))"
    and pc: "sp_producer s = P_Slow n"
  shows "spsc_inv (s\<lparr>sp_producer := P_Idle,
           sp_ring := (sp_ring s)\<lparr>r_cached_head := r_cached_head (sp_ring s) + of_nat k\<rparr>\<rparr>)"
proof -
  let ?r = "sp_ring s" and ?h = "r_cached_head (sp_ring s) + of_nat k"
  let ?s = "s\<lparr>sp_producer := P_Idle, sp_ring := ?r\<lparr>r_cached_head := ?h\<rparr>\<rparr>"
  have d: "occupied ?r \<le> unat (r_tail ?r - ?h)" "unat (r_tail ?r - ?h) \<le> unat (r_tail ?r - r_cached_head ?r)"
    using stale_head_distance [OF _ k, of "r_tail ?r"] inv by (auto simp: spsc_inv_def occupied_def)
  have pos: "sp_pos ?s = sp_pos s" by (rule sp_pos_cong) simp_all
  then have view: "sp_view ?s = (sp_view s)\<lparr>r_cached_head := ?h\<rparr>" by (simp add: sp_view_def)
  have "ring_inv (sp_view ?s)"
    using inv d unfolding view
    by (auto simp: spsc_inv_def ring_inv_def ring_window_def ring_cap_def)
  then show ?thesis
    using inv pc d by (simp add: spsc_inv_def view pos sp_pending_def ring_window_def occupied_def)
qed

lemma spsc_inv_reserve:
  assumes inv: "spsc_inv s" and pc: "sp_pending s = []" and n: "n \<noteq> 0"
    and room: "n \<le> saturating_sub (ring_capacity (sp_ring s)) (r_tail (sp_ring s) - r_cached_head (sp_ring s))"
    and mk: "ring_make_reservation (r_tail (sp_ring s)) n (sp_ring s) = Inr v"
  shows "spsc_inv (s\<lparr>sp_producer := P_Write v []\<rparr>)"
proof -
  have rinv: "ring_inv (sp_view s)" using inv by (simp add: spsc_inv_def)
  have "unat (r_tail (sp_view s) - r_cached_head (sp_view s)) + unat n \<le> ring_cap (sp_view s)"
    using reserve_space_iff [OF rinv, of "r_cached_head (sp_view s)" n] room rinv by (simp add: ring_inv_def)
  from make_reservation_spec [OF rinv _ this] n mk have v: "reserved (sp_view s) v"
    by (auto simp: make_reservation_view unat_gt_0)
  have pos: "sp_pos (s\<lparr>sp_producer := P_Write v []\<rparr>) = sp_pos s" by (rule sp_pos_cong) simp_all
  then have view: "sp_view (s\<lparr>sp_producer := P_Write v []\<rparr>) = sp_view s" by (simp add: sp_view_def)
  show ?thesis
    using inv v pc by (simp add: spsc_inv_def view pos) (simp add: sp_pending_def)
qed

text \<open>Writing through a reservation does not look at the head.\<close>

lemma reservation_write_head:
  "reservation_write v i x (r\<lparr>r_head := h\<rparr>) = Inr (r\<lparr>r_head := h, r_buffer := b\<rparr>) \<Longrightarrow>
   reservation_write v i x r = Inr (r\<lparr>r_buffer := b\<rparr>)"
  by (auto simp: reservation_write_def try_bind_Inr_iff split: if_splits dest: arg_cong [where f = r_buffer])

lemma spsc_write:
  assumes inv: "spsc_inv s" and pc: "sp_producer s = P_Write v p" and len: "length p < unat (res_len v)"
  shows "\<exists>b. reservation_write v (of_nat (length p)) x (sp_ring s) = Inr ((sp_ring s)\<lparr>r_buffer := b\<rparr>) \<and>
           spsc_inv (s\<lparr>sp_producer := P_Write v (p @ [x]), sp_ring := (sp_ring s)\<lparr>r_buffer := b\<rparr>\<rparr>)"
proof -
  let ?q = "sp_view s"
  have rinv: "ring_inv ?q" and v: "reserved ?q v" using inv pc by (auto simp: spsc_inv_def)
  let ?ix = "(unat (sp_pos s) + (occupied ?q + length p)) mod ring_cap (sp_ring s)"
  let ?b = "(r_buffer (sp_ring s))[?ix := Some x]"
  let ?s = "s\<lparr>sp_producer := P_Write v (p @ [x]), sp_ring := (sp_ring s)\<lparr>r_buffer := ?b\<rparr>\<rparr>"
  have lb: "length (r_buffer (sp_ring s)) = ring_cap (sp_ring s)" using ring_inv_buffer [OF rinv] by simp
  have "?ix < length (r_buffer (sp_ring s))" using ring_cap_small [OF rinv] lb by simp
  with reservation_write_slot [OF rinv v len, of x "r_buffer (sp_ring s)"]
  have "reservation_write v (of_nat (length p)) x ?q = Inr (?q\<lparr>r_buffer := ?b\<rparr>)"
    by simp
  then have wr: "reservation_write v (of_nat (length p)) x (sp_ring s) = Inr ((sp_ring s)\<lparr>r_buffer := ?b\<rparr>)"
    unfolding sp_view_def by (rule reservation_write_head)
  have pos: "sp_pos ?s = sp_pos s" by (rule sp_pos_cong) simp_all
  have view: "sp_view ?s = ?q\<lparr>r_buffer := ?b\<rparr>"
    unfolding sp_view_def [of ?s] pos by (simp add: sp_view_def)
  have occ: "occupied (sp_view ?s) = occupied ?q" "occupied (sp_ring ?s) = occupied (sp_ring s)"
    by (simp_all add: view)
  have lt: "occupied ?q + length p < length (r_buffer (sp_ring s))"
    using v rinv len lb by (auto simp: reserved_def ring_inv_def)
  have win: "window ?b (unat (sp_pos s)) (Suc (occupied ?q + length p)) =
      window (r_buffer (sp_ring s)) (unat (sp_pos s)) (occupied ?q + length p) @ [Some x]"
    using window_update_last [OF lt, of "unat (sp_pos s)" "Some x"] lb by simp
  have old: "window (r_buffer (sp_ring s)) (unat (sp_pos s)) (occupied ?q + length p) =
      ring_window ?q @ map Some p"
    using inv pc by (simp add: spsc_inv_def sp_pending_def)
  have rw: "ring_window (sp_view ?s) = ring_window ?q"
    using window_update_outside [of "occupied ?q" "occupied ?q + length p" "r_buffer (sp_ring s)"
        "unat (sp_pos s)" "Some x"] lt lb by (simp add: ring_window_def occ view)
  have "ring_inv (sp_view ?s)"
    using rinv rw occ lb by (simp add: ring_inv_def) (simp add: view ring_cap_def)
  moreover have "reserved (sp_view ?s) v"
    using v by (auto simp: view reserved_def ring_mask_def ring_cap_def)
  moreover have "ring_contents (sp_view ?s) = ring_contents ?q" by (simp add: ring_contents_def rw)
  ultimately have "spsc_inv ?s"
    using inv len win old rw occ pos by (simp add: spsc_inv_def sp_pending_def pc)
  with wr show ?thesis by auto
qed

lemma spsc_commit:
  assumes inv: "spsc_inv s" and pc: "sp_producer s = P_Write v p" and n: "unat n \<le> length p"
  shows "spsc_inv (s\<lparr>sp_producer := P_Idle, sp_ring := ring_commit_internal n (sp_ring s),
                    sp_sent := sp_sent s @ take (unat n) p\<rparr>)"
proof -
  let ?q = "sp_view s"
  define s' where "s' = s\<lparr>sp_producer := P_Idle, sp_ring := ring_commit_internal n (sp_ring s),
              sp_sent := sp_sent s @ take (unat n) p\<rparr>"
  have fields: "sp_producer s' = P_Idle" "sp_consumer s' = sp_consumer s" "sp_recvd s' = sp_recvd s"
    "sp_sent s' = sp_sent s @ take (unat n) p" "sp_fault s' = sp_fault s"
    "sp_ring s' = ring_commit_internal n (sp_ring s)"
    by (simp_all add: s'_def)
  have rinv: "ring_inv ?q" and v: "reserved ?q v" and pl: "length p \<le> unat (res_len v)"
    using inv pc by (auto simp: spsc_inv_def)
  have "window (r_buffer (sp_ring s)) (unat (sp_pos s)) (occupied ?q + length p) = ring_window ?q @ map Some p"
    using inv pc by (simp add: spsc_inv_def sp_pending_def)
  from arg_cong [OF this, of "take (occupied ?q + unat n)"]
  have win: "window (r_buffer ?q) (unat (r_head ?q)) (occupied ?q + unat n) = ring_window ?q @ map Some (take (unat n) p)"
    using n by (simp add: take_window ring_window_def take_map)
  have cs: "ring_inv (ring_commit_internal n ?q)" "ring_contents (ring_commit_internal n ?q) = ring_contents ?q @ take (unat n) p"
    using ring_commit_spec [OF rinv v, of n "r_buffer ?q" "take (unat n) p"] n pl win ring_inv_buffer [OF rinv]
    by simp_all
  have pos: "sp_pos s' = sp_pos s"
    by (rule sp_pos_cong) (simp_all add: fields ring_commit_internal_def)
  have view: "sp_view s' = ring_commit_internal n ?q"
    unfolding sp_view_def [of s'] pos
    by (simp add: fields sp_view_def ring_commit_internal_def record_sent_def)
  have room: "unat (r_tail (sp_ring s) - r_cached_head (sp_ring s)) + unat n \<le> ring_cap (sp_ring s)"
    "ring_cap (sp_ring s) < 2 ^ 64" "occupied (sp_ring s) \<le> unat (r_tail (sp_ring s) - r_cached_head (sp_ring s))"
    "occupied ?q \<le> occupied (sp_ring s)"
    using v n pl inv ring_cap_small [OF rinv] by (auto simp: reserved_def spsc_inv_def)
  have d: "unat (r_tail (sp_ring s) + n - x) = unat (r_tail (sp_ring s) - x) + unat n"
    if "unat (r_tail (sp_ring s) - x) \<le> unat (r_tail (sp_ring s) - r_cached_head (sp_ring s))" for x
    using that room by (intro unat_dist_add) simp
  have occ: "occupied (sp_view s') = occupied ?q + unat n" "occupied (sp_ring s') = occupied (sp_ring s) + unat n"
    using d [of "sp_pos s"] d [of "r_head (sp_ring s)"] room
    unfolding view by (simp_all add: fields occupied_def ring_commit_internal_def)
  have cons: "unat (t - pos) \<le> occupied ?q" if "sp_consumer s = C_Loop pos t" for pos t
    using inv that by (simp add: spsc_inv_def)
  have rc: "r_tail (ring_commit_internal n (sp_ring s)) = r_tail (sp_ring s) + n"
    "r_cached_head (ring_commit_internal n (sp_ring s)) = r_cached_head (sp_ring s)"
    "r_buffer (ring_commit_internal n (sp_ring s)) = r_buffer (sp_ring s)"
    "r_buffer (ring_commit_internal n ?q) = r_buffer (sp_ring s)"
    "r_head (ring_commit_internal n ?q) = sp_pos s"
    by (simp_all add: ring_commit_internal_def record_sent_def)
  have "spsc_inv s'"
    unfolding spsc_inv_def view
    using cs inv occ room d [of "r_cached_head (sp_ring s)"] rc cons
    by (auto simp: view fields pos sp_pending_def spsc_inv_def ring_window_def trans_le_add1)
  then show ?thesis by (simp add: s'_def)
qed

section \<open>The consumer's steps\<close>

lemma spsc_load_tail:
  assumes inv: "spsc_inv s" and pc: "sp_consumer s = C_Idle" and k: "k \<le> occupied (sp_ring s)"
  shows "spsc_inv (s\<lparr>sp_consumer := C_Loop (r_head (sp_ring s)) (r_head (sp_ring s) + of_nat k)\<rparr>)"
proof -
  define s' where "s' = s\<lparr>sp_consumer := C_Loop (r_head (sp_ring s)) (r_head (sp_ring s) + of_nat k)\<rparr>"
  have pos: "sp_pos s' = sp_pos s" by (simp add: s'_def sp_pos_def pc)
  have view: "sp_view s' = sp_view s" unfolding sp_view_def pos by (simp add: s'_def)
  have "sp_view s = sp_ring s" by (simp add: sp_view_def sp_pos_def pc)
  moreover have "unat (of_nat k :: u64) = k"
    using k unsigned_less [of "r_tail (sp_ring s) - r_head (sp_ring s)", where 'a = nat]
    by (simp add: unat_of_nat occupied_def)
  ultimately have "unat (t - p) \<le> occupied (sp_view s)" if "sp_consumer s' = C_Loop p t" for p t
    using that k by (auto simp: s'_def)
  then have "spsc_inv s'"
    using inv unfolding spsc_inv_def view pos by (simp add: s'_def sp_pending_def)
  then show ?thesis by (simp add: s'_def)
qed

lemma spsc_take:
  assumes inv: "spsc_inv s" and pc: "sp_consumer s = C_Loop pos t" and ne: "pos \<noteq> t"
  shows "\<exists>x b. slot_take (r_buffer (sp_ring s)) (pos AND ring_mask (sp_ring s)) = Inr (x, b) \<and>
           spsc_inv (s\<lparr>sp_consumer := C_Loop (pos + 1) t, sp_ring := (sp_ring s)\<lparr>r_buffer := b\<rparr>,
                      sp_recvd := sp_recvd s @ [x]\<rparr>)"
proof -
  let ?q = "sp_view s" and ?b = "r_buffer (sp_ring s)"
  have rinv: "ring_inv ?q" using inv by (simp add: spsc_inv_def)
  have pos: "sp_pos s = pos" by (simp add: sp_pos_def pc)
  have "unat (t - pos) \<le> occupied ?q" using inv pc by (simp add: spsc_inv_def)
  moreover have "0 < unat (t - pos)" using ne unat_gt_0 [of "t - pos"] by simp
  ultimately have occ: "0 < occupied ?q" by linarith
  then obtain x xs where c: "ring_contents ?q = x # xs"
    by (cases "ring_contents ?q") (auto simp flip: occupied_0_iff)
  have lx: "occupied ?q = Suc (length xs)" using arg_cong [OF c, of length] by simp
  have all: "window ?b (unat pos) (Suc (length xs + length (sp_pending s))) = map Some (x # xs @ sp_pending s)"
    using inv lx c pos window_Some_contents [OF rinv] by (simp add: spsc_inv_def)
  have "occupied ?q + length (sp_pending s) \<le> ring_cap (sp_ring s)"
    using inv rinv by (auto simp: spsc_inv_def sp_pending_def reserved_def ring_inv_def split: producer_pc.split)
  then have lt: "length xs + length (sp_pending s) < length ?b"
    using lx ring_inv_buffer [OF rinv] by simp
  note tk = slot_take_masked [OF ring_buffer_pow2 [OF rinv] ring_bits_le [OF rinv],
      of pos "length xs + length (sp_pending s)" x "xs @ sp_pending s"]
  have mask: "ring_mask (sp_ring s) = mask (unat (ring_bits (r_config ?q)))" using ring_mask_eq [OF rinv] by simp
  let ?b' = "?b[unat pos mod length ?b := None]"
  have take: "slot_take ?b (pos AND ring_mask (sp_ring s)) = Inr (x, ?b')"
    using tk(1) all by (simp add: mask)
  have win: "window ?b' (unat (pos + 1)) (length xs + length (sp_pending s)) = map Some (xs @ sp_pending s)"
    using tk(2) all lt by simp
  define s' where "s' = s\<lparr>sp_consumer := C_Loop (pos + 1) t, sp_ring := (sp_ring s)\<lparr>r_buffer := ?b'\<rparr>,
                      sp_recvd := sp_recvd s @ [x]\<rparr>"
  have fields: "sp_producer s' = sp_producer s" "sp_consumer s' = C_Loop (pos + 1) t"
    "sp_recvd s' = sp_recvd s @ [x]" "sp_sent s' = sp_sent s" "sp_fault s' = sp_fault s"
    "sp_ring s' = (sp_ring s)\<lparr>r_buffer := ?b'\<rparr>" "sp_pos s' = pos + 1" "sp_pending s' = sp_pending s"
    by (simp_all add: s'_def sp_pos_def sp_pending_def)
  have view: "sp_view s' = (sp_ring s)\<lparr>r_buffer := ?b', r_head := pos + 1\<rparr>"
    by (simp add: sp_view_def fields)
  have "pos \<noteq> r_tail (sp_ring s)" using occ pos by (auto simp: occupied_def)
  then have occ': "occupied (sp_view s') = length xs"
    using unat_diff_step [of pos "r_tail (sp_ring s)"] lx pos by (simp add: view occupied_def)
  have rw: "ring_window (sp_view s') = map Some xs"
    using arg_cong [OF win, of "take (length xs)"] occ' by (simp add: ring_window_def fields take_window)
  have "ring_inv (sp_view s')"
    using rinv rw occ' lx lt ring_inv_buffer [OF rinv] by (auto simp: ring_inv_def fields) (auto simp: ring_cap_def)
  moreover have "ring_contents (sp_view s') = xs" by (simp add: ring_contents_def rw o_def)
  moreover have "reserved (sp_view s') v = reserved ?q v" for v
    by (simp add: reserved_def fields ring_mask_def ring_cap_def)
  moreover have "unat (t - (pos + 1)) \<le> length xs"
    using unat_diff_step [OF ne] lx \<open>unat (t - pos) \<le> occupied ?q\<close> by simp
  ultimately have "spsc_inv s'"
    using inv c occ' lx rw win by (auto simp: spsc_inv_def fields)
  with take show ?thesis by (auto simp: s'_def)
qed

lemma spsc_publish:
  assumes inv: "spsc_inv s" and pc: "sp_consumer s = C_Loop t t"
  shows "spsc_inv (s\<lparr>sp_consumer := C_Idle, sp_ring := record_received n ((sp_ring s)\<lparr>r_head := t\<rparr>)\<rparr>)"
proof -
  define s' where "s' = s\<lparr>sp_consumer := C_Idle, sp_ring := record_received n ((sp_ring s)\<lparr>r_head := t\<rparr>)\<rparr>"
  have pos: "sp_pos s = t" "sp_pos s' = t" by (simp_all add: sp_pos_def pc s'_def)
  have view: "sp_view s' = record_received n (sp_view s)"
    by (simp add: sp_view_def pos) (simp add: s'_def record_received_def)
  have flds: "r_tail (sp_ring s') = r_tail (sp_ring s)" "r_cached_head (sp_ring s') = r_cached_head (sp_ring s)"
    "r_buffer (sp_ring s') = r_buffer (sp_ring s)" "r_head (sp_ring s') = t" "r_config (sp_ring s') = r_config (sp_ring s)"
    by (simp_all add: s'_def record_received_def)
  have occ: "occupied (sp_view s') = occupied (sp_view s)" "occupied (sp_ring s') = occupied (sp_view s)"
    by (simp_all add: occupied_def pos flds)
  have rw: "ring_window (sp_view s') = ring_window (sp_view s)"
    by (simp add: ring_window_def occ flds pos)
  have "reserved (sp_view s') v = reserved (sp_view s) v" for v
    by (simp add: reserved_def flds ring_mask_def ring_cap_def)
  moreover have "ring_inv (sp_view s') = ring_inv (sp_view s)" "ring_contents (sp_view s') = ring_contents (sp_view s)"
    by (simp_all add: view)
  moreover have "sp_producer s' = sp_producer s" "sp_pending s' = sp_pending s" "sp_sent s' = sp_sent s"
    "sp_recvd s' = sp_recvd s" "sp_fault s' = sp_fault s" "sp_consumer s' = C_Idle"
    by (simp_all add: s'_def sp_pending_def)
  ultimately have "spsc_inv s'"
    using inv unfolding spsc_inv_def by (simp add: occ rw flds pos)
  then show ?thesis by (simp add: s'_def)
qed

section \<open>Every reachable state is safe\<close>

inductive_cases spsc_stepE: "spsc_step s s'"

lemma spsc_inv_flags:
  assumes "spsc_inv s"
  shows "spsc_inv (s\<lparr>sp_ring := (sp_ring s)\<lparr>r_closed := b\<rparr>\<rparr>)" "spsc_inv (s\<lparr>sp_ring := (sp_ring s)\<lparr>r_active := b\<rparr>\<rparr>)"
proof -
  have pos: "sp_pos (s\<lparr>sp_ring := (sp_ring s)\<lparr>r_closed := b\<rparr>\<rparr>) = sp_pos s" "sp_pos (s\<lparr>sp_ring := (sp_ring s)\<lparr>r_active := b\<rparr>\<rparr>) = sp_pos s"
    by (rule sp_pos_cong; simp)+
  have same: "occupied (r\<lparr>r_closed := b\<rparr>) = occupied r" "occupied (r\<lparr>r_active := b\<rparr>) = occupied r"
    "ring_window (r\<lparr>r_closed := b\<rparr>) = ring_window r" "ring_window (r\<lparr>r_active := b\<rparr>) = ring_window r"
    "ring_inv (r\<lparr>r_closed := b\<rparr>) = ring_inv r" "ring_inv (r\<lparr>r_active := b\<rparr>) = ring_inv r"
    "ring_contents (r\<lparr>r_closed := b\<rparr>) = ring_contents r" "ring_contents (r\<lparr>r_active := b\<rparr>) = ring_contents r"
    "reserved (r\<lparr>r_closed := b\<rparr>) = reserved r" "reserved (r\<lparr>r_active := b\<rparr>) = reserved r" for r :: "'a ring"
    by (simp_all add: fun_eq_iff occupied_def ring_window_def ring_inv_def ring_contents_def reserved_def ring_cap_def ring_mask_def)
  have view: "sp_view (s\<lparr>sp_ring := (sp_ring s)\<lparr>r_closed := b\<rparr>\<rparr>) = (sp_view s)\<lparr>r_closed := b\<rparr>"
    "sp_view (s\<lparr>sp_ring := (sp_ring s)\<lparr>r_active := b\<rparr>\<rparr>) = (sp_view s)\<lparr>r_active := b\<rparr>"
    by (simp_all add: sp_view_def pos)
  show "spsc_inv (s\<lparr>sp_ring := (sp_ring s)\<lparr>r_closed := b\<rparr>\<rparr>)" "spsc_inv (s\<lparr>sp_ring := (sp_ring s)\<lparr>r_active := b\<rparr>\<rparr>)"
    using assms by (simp_all add: spsc_inv_def view pos same sp_pending_def)
qed

lemma spsc_step_inv:
  assumes "spsc_step s s'" "spsc_inv s"
  shows "spsc_inv s'"
  using assms
proof (cases rule: spsc_step.cases)
  case (reserve_fast n v)
  then show ?thesis using spsc_inv_reserve [OF assms(2), of n v] by (simp add: sp_pending_def)
next
  case (reserve_slow n)
  have "sp_pos (s\<lparr>sp_producer := P_Slow n\<rparr>) = sp_pos s" by (rule sp_pos_cong) simp_all
  moreover from this have "sp_view (s\<lparr>sp_producer := P_Slow n\<rparr>) = sp_view s" by (simp add: sp_view_def)
  ultimately show ?thesis
    using reserve_slow assms(2) by (simp add: spsc_inv_def sp_pending_def)
next
  case (load_head_full n k h)
  then show ?thesis using spsc_inv_cached_head [OF assms(2)] by simp
next
  case (load_head_room n k h v)
  let ?s = "s\<lparr>sp_producer := P_Idle, sp_ring := (sp_ring s)\<lparr>r_cached_head := h\<rparr>\<rparr>"
  have inv: "spsc_inv ?s" using spsc_inv_cached_head [OF assms(2)] load_head_room by simp
  have "n \<noteq> 0" using load_head_room(2) assms(2) by (simp add: spsc_inv_def)
  moreover have "ring_make_reservation (r_tail (sp_ring s)) n ((sp_ring s)\<lparr>r_cached_head := h\<rparr>) = Inr v"
    using load_head_room by (simp add: ring_make_reservation_def ring_mask_def ring_capacity_def)
  moreover have "?s\<lparr>sp_producer := P_Write v []\<rparr> = s'" using load_head_room(1) by simp
  ultimately show ?thesis
    using spsc_inv_reserve [OF inv, of n v] load_head_room(5)
    by (simp add: sp_pending_def not_less ring_capacity_def)
next
  case (write_slot v p x r)
  then show ?thesis using spsc_write [OF assms(2), of v p x] by auto
next
  case (write_fault v p x e)
  then show ?thesis using spsc_write [OF assms(2), of v p x] by auto
next
  case (commit v p n)
  then show ?thesis using spsc_commit [OF assms(2)] by simp
next
  case (load_tail k)
  then show ?thesis using spsc_load_tail [OF assms(2)] by (simp add: occupied_def)
next
  case (take_slot pos t x b)
  then show ?thesis using spsc_take [OF assms(2), of pos t] by auto
next
  case (take_fault pos t e)
  then show ?thesis using spsc_take [OF assms(2), of pos t] by auto
next
  case (publish_head t n)
  then show ?thesis using spsc_publish [OF assms(2)] by simp
next
  case close_ring
  then show ?thesis using spsc_inv_flags [OF assms(2)] by (simp add: ring_close_def)
next
  case activate_ring
  then show ?thesis using spsc_inv_flags [OF assms(2)] by (simp add: ring_set_active_def)
qed (use assms in simp)

lemma spsc_reachable_inv: "spsc_reachable c s \<Longrightarrow> shift_ok c \<Longrightarrow> spsc_inv s"
  by (induction rule: spsc_reachable.induct) (auto intro: spsc_start_inv spsc_step_inv)

text \<open>The slots a reservation covers are disjoint from the slots the consumer may still read.\<close>

lemma spsc_inv_disjoint:
  assumes inv: "spsc_inv s" and p: "sp_producer s = P_Write v p" and c: "sp_consumer s = C_Loop pos t"
    and i: "i < unat (res_len v)" and j: "j < unat (t - pos)"
  shows "unat (res_start v) + i \<noteq> unat ((pos + of_nat j) AND ring_mask (sp_ring s))"
proof -
  let ?q = "sp_view s" and ?C = "ring_cap (sp_ring s)"
  have rinv: "ring_inv ?q" and v: "reserved ?q v" and pos: "sp_pos s = pos" and jo: "j < occupied ?q"
    using inv p c j by (auto simp: spsc_inv_def sp_pos_def)
  have in_buf: "unat (res_start v) + i < ?C" and oi: "occupied ?q + i < ?C"
    using v i rinv by (auto simp: reserved_def ring_inv_def)
  have jb: "j < ?C" using jo ring_inv_occupied [OF rinv] by simp
  then have uj: "unat (of_nat j :: u64) = j" using ring_cap_small [OF rinv] by (simp add: unat_of_nat)
  have "unat (res_start v) + i = (unat (res_start v) + i) mod ?C" using in_buf by simp
  also have "\<dots> = (unat pos + (occupied ?q + i)) mod ?C"
    using unat_res_start [OF rinv v] by (simp add: pos mod_add_left_eq add.assoc)
  finally have lhs: "unat (res_start v) + i = (unat pos + (occupied ?q + i)) mod ?C" .
  have rhs: "unat ((pos + of_nat j) AND ring_mask (sp_ring s)) = (unat pos + j) mod ?C"
    using unat_and_ring_mask [OF rinv, of "pos + of_nat j"] unat_add_mod_ring_cap [OF rinv, of pos "of_nat j"] uj
    by simp
  show ?thesis
    using mod_add_inj [of "occupied ?q + i" ?C j "unat pos"] lhs rhs oi jb jo by auto
qed

section \<open>Properties\<close>

text \<open>
  C3. Under every interleaving of one producer and one consumer, at the granularity of single
  shared-memory accesses and with stale loads of the other side's sequence number, no step faults
  and the items consumed are always a prefix of the items committed, in order and each once; what
  is in between never exceeds the capacity.
\<close>

theorem spsc_fifo_exactly_once:
  assumes "spsc_reachable c s" "shift_ok c"
  shows "\<not> sp_fault s \<and> (\<exists>rest. sp_sent s = sp_recvd s @ rest \<and> length rest \<le> ring_cap (sp_ring s))"
proof -
  have inv: "spsc_inv s" using spsc_reachable_inv [OF assms] .
  then have "ring_inv (sp_view s)" by (simp add: spsc_inv_def)
  from ring_inv_occupied [OF this] inv show ?thesis by (auto simp: spsc_inv_def)
qed

text \<open>
  C14. No data race on a slot: while the producer holds a reservation and the consumer is in a batch,
  no slot of the reservation is among those the consumer has yet to read.
\<close>

theorem spsc_no_data_race:
  assumes "spsc_reachable c s" "shift_ok c" "sp_producer s = P_Write v p" "sp_consumer s = C_Loop pos t"
    "i < unat (res_len v)" "j < unat (t - pos)"
  shows "unat (res_start v) + i \<noteq> unat ((pos + of_nat j) AND ring_mask (sp_ring s))"
  using spsc_inv_disjoint [OF spsc_reachable_inv [OF assms(1,2)] assms(3-6)] .

text \<open>A run: reserve, write and commit one item, start consuming it, reserve again.\<close>

definition demo_config :: config where
  "demo_config = \<lparr>ring_bits = 1, max_producers = 1, enable_metrics = False\<rparr>"

definition demo_ring :: "nat ring" where
  "demo_ring = (ring_new demo_config)\<lparr>r_tail := 1, r_buffer := [Some 7, None]\<rparr>"

definition demo_state :: "nat spsc" where
  "demo_state = \<lparr>sp_ring = demo_ring, sp_producer = P_Write \<lparr>res_start = 1, res_len = 1\<rparr> [],
     sp_consumer = C_Loop 0 1, sp_sent = [7], sp_recvd = [], sp_fault = False\<rparr>"

lemma demo_reachable: "spsc_reachable demo_config demo_state"
proof -
  let ?v = "\<lparr>res_start = 0, res_len = 1\<rparr>" and ?w = "\<lparr>res_start = 1, res_len = 1\<rparr>"
  let ?r = "ring_new demo_config :: nat ring"
  define s0 where "s0 = (spsc_start demo_config :: nat spsc)"
  define s1 where "s1 = s0\<lparr>sp_producer := P_Write ?v []\<rparr>"
  define s2 where "s2 = s1\<lparr>sp_producer := P_Write ?v [7], sp_ring := ?r\<lparr>r_buffer := [Some 7, None]\<rparr>\<rparr>"
  define s3 where "s3 = s2\<lparr>sp_producer := P_Idle, sp_ring := demo_ring, sp_sent := [7]\<rparr>"
  define s4 where "s4 = s3\<lparr>sp_consumer := C_Loop 0 1\<rparr>"
  note defs = s0_def s1_def s2_def s3_def s4_def spsc_start_def demo_state_def
  have cap: "ring_capacity ?r = 2" "ring_mask ?r = 1" "ring_capacity demo_ring = 2" "ring_mask demo_ring = 1"
    by code_simp+
  have r0: "spsc_reachable demo_config s0" unfolding s0_def by (rule start)
  have mk: "ring_make_reservation 0 1 ?r = Inr ?v" "ring_make_reservation 1 1 demo_ring = Inr ?w"
    by code_simp+
  have "spsc_step s0 s1"
    unfolding s1_def
    using mk(1) cap by (intro reserve_fast [of _ 1]) (simp_all add: s0_def spsc_start_def saturating_sub_def
        ring_new_def ring_new_in_def)
  with r0 have r1: "spsc_reachable demo_config s1" by (rule step)
  have w: "reservation_write ?v (of_nat (length ([] :: nat list))) 7 ?r = Inr (?r\<lparr>r_buffer := [Some 7, None]\<rparr>)"
    by code_simp
  then have "spsc_step s1 (s1\<lparr>sp_producer := P_Write ?v ([] @ [7]), sp_ring := ?r\<lparr>r_buffer := [Some 7, None]\<rparr>\<rparr>)"
    by (intro write_slot) (simp_all add: s1_def s0_def spsc_start_def)
  with r1 have r2: "spsc_reachable demo_config s2" unfolding s2_def by (auto intro: step)
  have "ring_commit_internal 1 (?r\<lparr>r_buffer := [Some 7, None]\<rparr>) = demo_ring" by code_simp
  moreover have "spsc_step s2 (s2\<lparr>sp_producer := P_Idle, sp_ring := ring_commit_internal 1 (sp_ring s2),
      sp_sent := sp_sent s2 @ take (unat (1 :: usize)) [7]\<rparr>)"
    by (rule commit [of _ ?v]) (simp_all add: s2_def)
  ultimately have "spsc_step s2 s3" by (simp add: s3_def) (simp add: defs)
  with r2 have r3: "spsc_reachable demo_config s3" by (rule step)
  have h: "r_head demo_ring = 0" "r_tail demo_ring = 1" "r_cached_head demo_ring = 0" by code_simp+
  have "spsc_step s3 (s3\<lparr>sp_consumer := C_Loop (r_head (sp_ring s3)) (r_head (sp_ring s3) + of_nat 1)\<rparr>)"
    by (rule load_tail) (simp_all add: defs h)
  then have "spsc_step s3 s4" by (simp add: s4_def) (simp add: s3_def h)
  with r3 have r4: "spsc_reachable demo_config s4" by (rule step)
  have "spsc_step s4 (s4\<lparr>sp_producer := P_Write ?w []\<rparr>)"
    using mk(2) cap h by (intro reserve_fast [of _ 1]) (simp_all add: s4_def s3_def saturating_sub_def)
  moreover have "s4\<lparr>sp_producer := P_Write ?w []\<rparr> = demo_state" by (simp add: defs)
  ultimately show ?thesis using r4 step by metis
qed

lemma demo_shift_ok: "shift_ok demo_config"
  by (simp add: shift_ok_def demo_config_def)

theorem spsc_fifo_exactly_once_witness:
  "\<not> sp_fault demo_state \<and> (\<exists>rest. sp_sent demo_state = sp_recvd demo_state @ rest \<and> length rest \<le> 2)"
  using spsc_fifo_exactly_once [OF demo_reachable demo_shift_ok]
  by (simp add: demo_state_def demo_ring_def ring_cap_def cap_def ring_new_def ring_new_in_def demo_config_def)

theorem spsc_no_data_race_witness:
  "unat (1 :: usize) + 0 \<noteq> unat ((0 + of_nat 0 :: u64) AND ring_mask (sp_ring demo_state))"
  by (rule spsc_no_data_race [OF demo_reachable demo_shift_ok, where v = "\<lparr>res_start = 1, res_len = 1\<rparr>" and p = "[]"
        and pos = 0 and t = 1 and i = 0 and j = 0, simplified reservation.simps])
    (simp_all add: demo_state_def)

end
