(* ===== verification/Mpsc.thy ===== *)
theory Mpsc
  imports Spsc Channel "HOL-Library.Multiset"
begin

text \<open>
  The channel under concurrency: any number of threads that register and then produce, one consumer that
  drains the rings in turn, and someone who closes the channel, interleaved at their accesses to shared
  memory.  A ring and its two ends are a state of theory \<open>Spsc\<close>; a step of the channel is a step of one ring
  or an access to the channel's own atomics (the closed flag and the producer count).  Registration is not
  atomic: the check of the flag, the increment, the rollback and the activation are separate steps.
\<close>

section \<open>States and steps\<close>

text \<open>
  How far a thread is in \<open>register\<close>: before it, past the check of the closed flag, holding the id that
  \<open>fetch_add\<close> returned, holding the \<open>Producer\<close>, refused.
\<close>

datatype registrant =
    R_Start
  | R_Open
  | R_Claimed usize
  | R_Producer usize
  | R_Refused channel_error

text \<open>\<open>M_Drain i n\<close>: the slice of the first \<open>n\<close> rings is being drained, ring \<open>i\<close> is next or in progress.\<close>

datatype drain_pc = M_Idle | M_Drain nat nat

text \<open>\<open>mp_log\<close>: what the handler has been given, in order, with the ring it came from.\<close>

record 'a mpsc =
  mp_rings :: "'a spsc list"
  mp_threads :: "registrant list"
  mp_count :: usize
  mp_closed :: bool
  mp_drain :: drain_pc
  mp_log :: "(nat \<times> 'a) list"
  mp_fault :: bool

definition mpsc_start :: "config \<Rightarrow> nat \<Rightarrow> 'a mpsc" where
  "mpsc_start c k =
     \<lparr>mp_rings = replicate (unat (max_producers c)) (spsc_start c), mp_threads = replicate k R_Start, mp_count = 0,
      mp_closed = False, mp_drain = M_Idle, mp_log = [], mp_fault = False\<rparr>"

definition set_thread :: "nat \<Rightarrow> registrant \<Rightarrow> 'a mpsc \<Rightarrow> 'a mpsc" where
  "set_thread j t m = m\<lparr>mp_threads := (mp_threads m)[j := t]\<rparr>"

text \<open>
  A step of an end of ring \<open>i\<close>: the producer leaves the consumer's part alone and the consumer the
  producer's.  A consumer may see an older count than the current one.
\<close>

inductive mpsc_step :: "config \<Rightarrow> 'a mpsc \<Rightarrow> 'a mpsc \<Rightarrow> bool" for c where
  check_closed:
    "j < length (mp_threads m) \<Longrightarrow> mp_threads m ! j = R_Start \<Longrightarrow> mp_closed m \<Longrightarrow>
     mpsc_step c m (set_thread j (R_Refused Closed) m)"
| check_open:
    "j < length (mp_threads m) \<Longrightarrow> mp_threads m ! j = R_Start \<Longrightarrow> \<not> mp_closed m \<Longrightarrow> mpsc_step c m (set_thread j R_Open m)"
| claim:
    "j < length (mp_threads m) \<Longrightarrow> mp_threads m ! j = R_Open \<Longrightarrow>
     mpsc_step c m ((set_thread j (R_Claimed (mp_count m)) m)\<lparr>mp_count := mp_count m + 1\<rparr>)"
| roll_back:
    "j < length (mp_threads m) \<Longrightarrow> mp_threads m ! j = R_Claimed i \<Longrightarrow> max_producers c \<le> i \<Longrightarrow>
     mpsc_step c m ((set_thread j (R_Refused (TooManyProducers (max_producers c))) m)\<lparr>mp_count := mp_count m - 1\<rparr>)"
| activate:
    "j < length (mp_threads m) \<Longrightarrow> mp_threads m ! j = R_Claimed i \<Longrightarrow> \<not> max_producers c \<le> i \<Longrightarrow>
     unat i < length (mp_rings m) \<Longrightarrow> r = mp_rings m ! unat i \<Longrightarrow>
     mpsc_step c m ((set_thread j (R_Producer i) m)\<lparr>mp_rings :=
       (mp_rings m)[unat i := r\<lparr>sp_ring := ring_set_active True (sp_ring r)\<rparr>]\<rparr>)"
| activate_fault:
    "j < length (mp_threads m) \<Longrightarrow> mp_threads m ! j = R_Claimed i \<Longrightarrow> \<not> max_producers c \<le> i \<Longrightarrow>
     \<not> unat i < length (mp_rings m) \<Longrightarrow> mpsc_step c m (m\<lparr>mp_fault := True\<rparr>)"
| produce:
    "j < length (mp_threads m) \<Longrightarrow> mp_threads m ! j = R_Producer i \<Longrightarrow> unat i < length (mp_rings m) \<Longrightarrow>
     r = mp_rings m ! unat i \<Longrightarrow> spsc_step r r' \<Longrightarrow> sp_consumer r' = sp_consumer r \<Longrightarrow> sp_recvd r' = sp_recvd r \<Longrightarrow>
     mpsc_step c m (m\<lparr>mp_rings := (mp_rings m)[unat i := r']\<rparr>)"
| drain_start:
    "mp_drain m = M_Idle \<Longrightarrow> n \<le> unat (mp_count m) \<Longrightarrow> n \<le> length (mp_rings m) \<Longrightarrow> mpsc_step c m (m\<lparr>mp_drain := M_Drain 0 n\<rparr>)"
| drain_fault:
    "mp_drain m = M_Idle \<Longrightarrow> n \<le> unat (mp_count m) \<Longrightarrow> \<not> n \<le> length (mp_rings m) \<Longrightarrow> mpsc_step c m (m\<lparr>mp_fault := True\<rparr>)"
| consume:
    "mp_drain m = M_Drain i n \<Longrightarrow> i < n \<Longrightarrow> r = mp_rings m ! i \<Longrightarrow> spsc_step r r' \<Longrightarrow> sp_producer r' = sp_producer r \<Longrightarrow>
     sp_sent r' = sp_sent r \<Longrightarrow>
     mpsc_step c m (m\<lparr>mp_rings := (mp_rings m)[i := r'],
       mp_log := mp_log m @ map (Pair i) (drop (length (sp_recvd r)) (sp_recvd r'))\<rparr>)"
| next_ring:
    "mp_drain m = M_Drain i n \<Longrightarrow> i < n \<Longrightarrow> sp_consumer (mp_rings m ! i) = C_Idle \<Longrightarrow>
     mpsc_step c m (m\<lparr>mp_drain := M_Drain (Suc i) n\<rparr>)"
| drain_end:
    "mp_drain m = M_Drain n n \<Longrightarrow> mpsc_step c m (m\<lparr>mp_drain := M_Idle\<rparr>)"
| drain_stop:
    "mp_drain m = M_Drain i n \<Longrightarrow> i < n \<Longrightarrow> sp_consumer (mp_rings m ! i) = C_Idle \<Longrightarrow> mpsc_step c m (m\<lparr>mp_drain := M_Idle\<rparr>)"
| close_flag:
    "mpsc_step c m (m\<lparr>mp_closed := True\<rparr>)"
| close_one:
    "mp_closed m \<Longrightarrow> i < length (mp_rings m) \<Longrightarrow> r = mp_rings m ! i \<Longrightarrow>
     mpsc_step c m (m\<lparr>mp_rings := (mp_rings m)[i := r\<lparr>sp_ring := ring_close (sp_ring r)\<rparr>]\<rparr>)"

text \<open>\<open>drain_stop\<close> is the early exit of the operations that take a budget.\<close>

inductive mpsc_reachable :: "config \<Rightarrow> nat \<Rightarrow> 'a mpsc \<Rightarrow> bool" for c k where
  m_start: "mpsc_reachable c k (mpsc_start c k)"
| m_step: "mpsc_reachable c k m \<Longrightarrow> mpsc_step c m m' \<Longrightarrow> mpsc_reachable c k m'"

section \<open>The ids that are held\<close>

fun held_by :: "registrant \<Rightarrow> usize multiset" where
  "held_by (R_Claimed i) = {#i#}"
| "held_by (R_Producer i) = {#i#}"
| "held_by _ = {#}"

definition held :: "'a mpsc \<Rightarrow> usize multiset" where
  "held m = sum_list (map held_by (mp_threads m))"

lemma sum_list_map_update:
  "j < length ts \<Longrightarrow> sum_list (map f (ts[j := t])) + f (ts ! j) = sum_list (map f ts) + (f t :: 'b multiset)"
  by (induction ts arbitrary: j) (auto simp: nth_Cons ac_simps split: nat.split)

lemma held_set_thread:
  "j < length (mp_threads m) \<Longrightarrow> held (set_thread j t m) + held_by (mp_threads m ! j) = held m + held_by t"
  by (simp add: held_def set_thread_def sum_list_map_update)

lemma held_other [simp]:
  "held (m\<lparr>mp_count := n\<rparr>) = held m" "held (m\<lparr>mp_rings := rs\<rparr>) = held m" "held (m\<lparr>mp_drain := d\<rparr>) = held m"
  "held (m\<lparr>mp_log := l\<rparr>) = held m" "held (m\<lparr>mp_closed := b\<rparr>) = held m" "held (m\<lparr>mp_fault := b\<rparr>) = held m"
  by (simp_all add: held_def)

lemma held_size: "size (held m) \<le> length (mp_threads m)"
proof -
  have "size (held_by t) \<le> 1" for t by (cases t) auto
  then have "size (sum_list (map held_by ts)) \<le> length ts" for ts
    by (induction ts) (auto intro: le_SucI add_mono [of _ "1::nat", simplified])
  then show ?thesis by (simp add: held_def)
qed

text \<open>Two threads that hold ids contribute both.\<close>

lemma held_pair:
  assumes "j < length ts" "j' < length ts" "j \<noteq> j'"
  shows "f (ts ! j) + f (ts ! j') \<subseteq># sum_list (map f ts)"
  using assms
proof (induction ts arbitrary: j j')
  case (Cons t ts)
  have one: "f (ts ! i) \<subseteq># sum_list (map f ts)" if "i < length ts" for i
    using that by (induction ts arbitrary: i) (auto simp: nth_Cons intro: subset_mset.order_trans mset_subset_eq_add_right split: nat.split)
  show ?case
  proof (cases j)
    case 0
    with Cons.prems obtain i where "j' = Suc i" "i < length ts" by (cases j') auto
    with 0 one show ?thesis by (simp add: subset_mset.add_left_mono)
  next
    case j: (Suc i)
    show ?thesis
    proof (cases j')
      case 0
      with j Cons.prems one [of i] show ?thesis by (simp add: add.commute subset_mset.add_left_mono)
    next
      case (Suc i')
      with j Cons.prems Cons.IH [of i i'] show ?thesis by (auto intro: subset_mset.order_trans mset_subset_eq_add_right)
    qed
  qed
qed simp

section \<open>Invariant\<close>

text \<open>
  What a count \<open>n\<close> and the ids \<open>H\<close> that are held have to do with each other: the valid ids are the first
  ones, each once; an id beyond the limit is only ever held when all valid ones are.
\<close>

definition valid_ids :: "config \<Rightarrow> usize multiset \<Rightarrow> usize multiset" where
  "valid_ids c H = filter_mset (\<lambda>i. i < max_producers c) H"

definition ids_ok :: "config \<Rightarrow> usize \<Rightarrow> usize multiset \<Rightarrow> bool" where
  "ids_ok c n H \<longleftrightarrow>
     unat n = size H \<and> valid_ids c H = mset (map of_nat [0..<size (valid_ids c H)]) \<and>
     (valid_ids c H \<noteq> H \<longrightarrow> size (valid_ids c H) = unat (max_producers c))"

lemma valid_ids_size: "size (valid_ids c H) \<le> size H"
  by (simp add: valid_ids_def size_filter_mset_lesseq)

lemma ids_ok_bound:
  assumes "ids_ok c n H"
  shows "size (valid_ids c H) \<le> unat (max_producers c)"
proof (rule ccontr)
  let ?V = "valid_ids c H"
  assume "\<not> size ?V \<le> unat (max_producers c)"
  then have "(of_nat (unat (max_producers c)) :: usize) \<in> of_nat ` set [0..<size ?V]" by (intro imageI) simp
  then have "max_producers c \<in># mset (map of_nat [0..<size ?V])" by simp
  moreover have "?V = mset (map of_nat [0..<size ?V])" using assms by (simp add: ids_ok_def)
  ultimately have "max_producers c \<in># ?V" by metis
  then show False by (simp add: valid_ids_def)
qed

lemma ids_ok_claim:
  assumes "ids_ok c n H" "size H + 1 < 2 ^ 64"
  shows "ids_ok c (n + 1) (add_mset n H)"
proof -
  let ?V = "valid_ids c H" and ?V' = "valid_ids c (add_mset n H)"
  have n: "unat n = size H" and V: "?V = mset (map of_nat [0..<size ?V])"
    and full: "?V \<noteq> H \<Longrightarrow> size ?V = unat (max_producers c)" using assms(1) by (auto simp: ids_ok_def)
  have n1: "unat (n + 1) = size (add_mset n H)" using assms(2) n unat_add_lem [of n 1] by simp
  show ?thesis
  proof (cases "n < max_producers c")
    case True
    have "?V = H"
    proof (rule ccontr)
      assume "?V \<noteq> H"
      from full [OF this] valid_ids_size [of c H] n True show False by (simp add: word_less_nat_alt)
    qed
    then have VH: "?V' = add_mset n H" using True by (simp add: valid_ids_def)
    have "(of_nat (size ?V) :: usize) = n" using \<open>?V = H\<close> by (simp flip: n)
    then have "add_mset n ?V = mset (map of_nat [0..<Suc (size ?V)])" by (subst V) simp
    then have "add_mset n H = mset (map of_nat [0..<size (add_mset n H)])" using \<open>?V = H\<close> by simp
    then show ?thesis using n1 VH by (simp only: ids_ok_def simp_thms)
  next
    case False
    then have same: "?V' = ?V" by (simp add: valid_ids_def)
    have "size ?V = unat (max_producers c)"
    proof (cases "?V = H")
      case True
      with False n ids_ok_bound [OF assms(1)] show ?thesis by (simp add: word_less_nat_alt)
    qed (rule full)
    then show ?thesis using n1 V by (simp only: ids_ok_def same simp_thms)
  qed
qed

lemma ids_ok_roll_back:
  assumes "ids_ok c n (add_mset i H)" "max_producers c \<le> i"
  shows "ids_ok c (n - 1) H"
proof -
  have same: "valid_ids c (add_mset i H) = valid_ids c H" using assms(2) by (simp add: valid_ids_def)
  have n: "unat n = Suc (size H)" using assms(1) by (simp add: ids_ok_def)
  then have "unat (n - 1) = size H" using unat_sub [of 1 n] by (simp add: word_le_nat_alt)
  moreover have "valid_ids c H \<noteq> add_mset i H" using valid_ids_size [of c H] by auto
  ultimately show ?thesis using assms(1) by (auto simp: ids_ok_def same)
qed

text \<open>What the log holds of ring \<open>i\<close>.\<close>

definition log_of :: "nat \<Rightarrow> (nat \<times> 'a) list \<Rightarrow> 'a list" where
  "log_of i l = map snd (filter (\<lambda>(j, _). j = i) l)"

lemma log_of_append [simp]:
  "log_of i (l @ map (Pair j) ys) = log_of i l @ (if i = j then ys else [])" "log_of i [] = []"
  by (auto simp: log_of_def filter_map o_def)

definition rings_ok :: "config \<Rightarrow> (nat \<times> 'a) list \<Rightarrow> 'a spsc list \<Rightarrow> bool" where
  "rings_ok c l rs \<longleftrightarrow>
     length rs = unat (max_producers c) \<and>
     (\<forall>i<length rs. spsc_reachable c (rs ! i) \<and> log_of i l = sp_recvd (rs ! i))"

definition mpsc_inv :: "config \<Rightarrow> nat \<Rightarrow> 'a mpsc \<Rightarrow> bool" where
  "mpsc_inv c k m \<longleftrightarrow>
     length (mp_threads m) = k \<and> rings_ok c (mp_log m) (mp_rings m) \<and> ids_ok c (mp_count m) (held m) \<and>
     (\<forall>i n. mp_drain m = M_Drain i n \<longrightarrow> i \<le> n \<and> n \<le> length (mp_rings m)) \<and>
     (\<forall>i. R_Producer i \<in> set (mp_threads m) \<longrightarrow> i < max_producers c) \<and>
     (k \<le> unat (max_producers c) \<longrightarrow> \<not> mp_fault m)"

lemma mpsc_start_inv: "mpsc_inv c k (mpsc_start c k)"
proof -
  have "held (mpsc_start c k) = {#}" by (induction k) (simp_all add: held_def mpsc_start_def)
  then show ?thesis
    by (auto simp: mpsc_inv_def rings_ok_def ids_ok_def valid_ids_def mpsc_start_def spsc_start_def [of c] log_of_def
        intro: spsc_reachable.start [unfolded spsc_start_def])
qed

text \<open>The history of consumed items only grows.\<close>

lemma spsc_step_recvd: "spsc_step r r' \<Longrightarrow> \<exists>ys. sp_recvd r' = sp_recvd r @ ys"
  by (induction rule: spsc_step.induct) auto

text \<open>A step of one ring, with what it adds to the log.\<close>

lemma rings_ok_step:
  assumes "rings_ok c l rs" "i < length rs" "spsc_step (rs ! i) r'"
  shows "rings_ok c (l @ map (Pair i) (drop (length (sp_recvd (rs ! i))) (sp_recvd r'))) (rs[i := r'])"
proof -
  obtain ys where "sp_recvd r' = sp_recvd (rs ! i) @ ys" using spsc_step_recvd [OF assms(3)] by blast
  moreover have "spsc_reachable c r'" using assms by (auto simp: rings_ok_def intro: spsc_reachable.step)
  ultimately show ?thesis using assms(1,2) by (auto simp: rings_ok_def nth_list_update)
qed

lemma rings_ok_quiet:
  assumes "rings_ok c l rs" "i < length rs" "spsc_step (rs ! i) r'" "sp_recvd r' = sp_recvd (rs ! i)"
  shows "rings_ok c l (rs[i := r'])"
  using rings_ok_step [OF assms(1-3)] assms(4) by simp

lemma set_thread_fields [simp]:
  "mp_rings (set_thread j t m) = mp_rings m" "mp_log (set_thread j t m) = mp_log m" "mp_count (set_thread j t m) = mp_count m"
  "mp_drain (set_thread j t m) = mp_drain m" "mp_fault (set_thread j t m) = mp_fault m"
  "length (mp_threads (set_thread j t m)) = length (mp_threads m)"
  "(set_thread j t m)\<lparr>mp_count := mp_count m\<rparr> = set_thread j t m"
  by (simp_all add: set_thread_def)

lemma set_thread_producer:
  "R_Producer i \<in> set (mp_threads (set_thread j t m)) \<Longrightarrow> R_Producer i \<in> set (mp_threads m) \<or> t = R_Producer i"
  using set_update_subset_insert [of "mp_threads m" j t] by (auto simp: set_thread_def)

text \<open>A thread moves on in \<open>register\<close>: the rings stay, the ids stay consistent.\<close>

lemma mpsc_inv_thread:
  assumes "mpsc_inv c k m" "\<And>i. t = R_Producer i \<Longrightarrow> i < max_producers c" "ids_ok c n (held (set_thread j t m))"
  shows "mpsc_inv c k ((set_thread j t m)\<lparr>mp_count := n\<rparr>)"
  using assms by (auto simp: mpsc_inv_def dest!: set_thread_producer)

lemma mpsc_inv_rings:
  assumes "mpsc_inv c k m" "rings_ok c l (rs[i := r])" "rs = mp_rings m"
  shows "mpsc_inv c k (m\<lparr>mp_rings := rs[i := r], mp_log := l\<rparr>)"
  using assms by (simp add: mpsc_inv_def)

lemma mpsc_inv_quiet:
  assumes "mpsc_inv c k m" "i < length (mp_rings m)" "spsc_step (mp_rings m ! i) r'" "sp_recvd r' = sp_recvd (mp_rings m ! i)"
  shows "mpsc_inv c k (m\<lparr>mp_rings := (mp_rings m)[i := r']\<rparr>)"
  using assms rings_ok_quiet [of c "mp_log m" "mp_rings m" i r'] by (simp add: mpsc_inv_def)

lemma mpsc_step_inv:
  assumes "mpsc_step c m m'" "mpsc_inv c k m" "k + 1 < 2 ^ 64"
  shows "mpsc_inv c k m'"
proof -
  have rings: "rings_ok c (mp_log m) (mp_rings m)" and ids: "ids_ok c (mp_count m) (held m)" and len: "length (mp_threads m) = k"
    using assms(2) by (simp_all add: mpsc_inv_def)
  have max: "length (mp_rings m) = unat (max_producers c)" using rings by (simp add: rings_ok_def)
  have small: "size (held m) \<le> k" using held_size [of m] len by simp
  then have cnt: "unat (mp_count m) \<le> k" using ids by (simp add: ids_ok_def)
  show ?thesis
    using assms(1)
  proof cases
    case (check_closed j)
    with held_set_thread [of j m "R_Refused Closed"] ids show ?thesis
      using mpsc_inv_thread [OF assms(2), of "R_Refused Closed" "mp_count m" j] by simp
  next
    case (check_open j)
    with held_set_thread [of j m R_Open] ids show ?thesis
      using mpsc_inv_thread [OF assms(2), of R_Open "mp_count m" j] by simp
  next
    case (claim j)
    with held_set_thread [of j m "R_Claimed (mp_count m)"] ids_ok_claim [OF ids] small assms(3) show ?thesis
      using mpsc_inv_thread [OF assms(2), of "R_Claimed (mp_count m)" "mp_count m + 1" j] by simp
  next
    case (roll_back j i)
    let ?t = "R_Refused (TooManyProducers (max_producers c))"
    have "held m = add_mset i (held (set_thread j ?t m))" using held_set_thread [of j m ?t] roll_back by simp
    with ids_ok_roll_back [of c "mp_count m" i "held (set_thread j ?t m)"] ids roll_back show ?thesis
      using mpsc_inv_thread [OF assms(2), of ?t "mp_count m - 1" j] by simp
  next
    case (activate j i r)
    have "ids_ok c (mp_count m) (held (set_thread j (R_Producer i) m))"
      using held_set_thread [of j m "R_Producer i"] activate ids by simp
    then have "mpsc_inv c k (set_thread j (R_Producer i) m)"
      using mpsc_inv_thread [OF assms(2), of "R_Producer i" "mp_count m" j] activate by simp
    from mpsc_inv_quiet [OF this, of "unat i" "r\<lparr>sp_ring := ring_set_active True (sp_ring r)\<rparr>"] activate show ?thesis
      using spsc_step.activate_ring [of r] by (simp add: set_thread_def)
  next
    case (produce j i r r')
    then show ?thesis using mpsc_inv_quiet [OF assms(2), of "unat i" r'] by simp
  next
    case (consume i n r r')
    have "i < length (mp_rings m)" using consume assms(2) by (auto simp: mpsc_inv_def)
    from mpsc_inv_rings [OF assms(2) rings_ok_step [OF rings this, of r']] consume show ?thesis by simp
  next
    case (close_one i r)
    then show ?thesis
      using mpsc_inv_quiet [OF assms(2), of i "r\<lparr>sp_ring := ring_close (sp_ring r)\<rparr>"] spsc_step.close_ring [of r] by simp
  qed (use assms(2) cnt max in \<open>auto simp: mpsc_inv_def word_le_nat_alt\<close>)
qed

lemma mpsc_reachable_inv: "mpsc_reachable c k m \<Longrightarrow> k + 1 < 2 ^ 64 \<Longrightarrow> mpsc_inv c k m"
  by (induction rule: mpsc_reachable.induct) (auto intro: mpsc_start_inv mpsc_step_inv)

text \<open>An id below the limit has one holder.\<close>

lemma producer_unique:
  assumes "mpsc_inv c k m" "j < k" "j' < k" "mp_threads m ! j = R_Producer i" "mp_threads m ! j' = R_Producer i"
  shows "j = j'"
proof (rule ccontr)
  let ?V = "valid_ids c (held m)"
  assume "j \<noteq> j'"
  then have "{#i, i#} \<subseteq># held m"
    using held_pair [of j "mp_threads m" j' held_by] assms by (simp add: held_def mpsc_inv_def)
  moreover have "i < max_producers c" using assms by (auto simp: mpsc_inv_def dest: nth_mem)
  ultimately have two: "2 \<le> count ?V i" using mset_subset_eq_count [of "{#i, i#}" "held m" i] by (simp add: valid_ids_def)
  have "distinct (map (of_nat :: nat \<Rightarrow> usize) [0..<size ?V])"
  proof -
    have "size ?V \<le> unat (max_producers c)" using assms(1) by (intro ids_ok_bound [of c "mp_count m"]) (simp add: mpsc_inv_def)
    then have "size ?V < 2 ^ 64" using unsigned_less [of "max_producers c", where 'a = nat] by simp
    then have "inj_on (of_nat :: nat \<Rightarrow> usize) (set [0..<size ?V])"
      by (intro inj_onI) (simp add: word_of_nat_eq_iff take_bit_nat_eq_self)
    then show ?thesis by (simp add: distinct_map)
  qed
  then have "count (mset (map (of_nat :: nat \<Rightarrow> usize) [0..<size ?V])) i \<le> 1"
    unfolding distinct_count_atmost_1 by (metis le_numeral_extra(4) zero_le)
  moreover have "?V = mset (map of_nat [0..<size ?V])" using assms(1) by (simp add: mpsc_inv_def ids_ok_def)
  ultimately have "count ?V i \<le> 1" by metis
  with two show False by simp
qed

section \<open>Properties\<close>

text \<open>
  C5. The channel under every interleaving of registrations, producers, consumer and close, at the
  granularity of single shared-memory accesses and with stale loads.  No two threads ever hold the same
  producer id, so every ring has one producer; what the handler has been given of each ring is a prefix of
  what its producer has committed, in order and each item once, and the rest fits into the ring; no end of a
  ring faults.  When no more threads register than the channel has rings, the consumer's slice of the rings
  does not panic either.
\<close>

theorem mpsc_exactly_once:
  assumes "mpsc_reachable c k m" "shift_ok c" "k + 1 < 2 ^ 64"
  shows "(\<forall>i<unat (max_producers c). \<not> sp_fault (mp_rings m ! i) \<and>
            (\<exists>rest. sp_sent (mp_rings m ! i) = log_of i (mp_log m) @ rest \<and> length rest \<le> ring_cap (sp_ring (mp_rings m ! i)))) \<and>
         (\<forall>j<k. \<forall>j'<k. \<forall>i. mp_threads m ! j = R_Producer i \<and> mp_threads m ! j' = R_Producer i \<longrightarrow>
            j = j' \<and> unat i < unat (max_producers c)) \<and>
         (k \<le> unat (max_producers c) \<longrightarrow> \<not> mp_fault m)"
proof (intro conjI)
  have inv: "mpsc_inv c k m" using mpsc_reachable_inv [OF assms(1,3)] .
  show "k \<le> unat (max_producers c) \<longrightarrow> \<not> mp_fault m" using inv by (simp add: mpsc_inv_def)
  show "\<forall>j<k. \<forall>j'<k. \<forall>i. mp_threads m ! j = R_Producer i \<and> mp_threads m ! j' = R_Producer i \<longrightarrow>
          j = j' \<and> unat i < unat (max_producers c)"
    using producer_unique [OF inv] inv by (metis mpsc_inv_def nth_mem word_less_nat_alt)
  show "\<forall>i<unat (max_producers c). \<not> sp_fault (mp_rings m ! i) \<and>
          (\<exists>rest. sp_sent (mp_rings m ! i) = log_of i (mp_log m) @ rest \<and> length rest \<le> ring_cap (sp_ring (mp_rings m ! i)))"
  proof (intro allI impI)
    fix i assume "i < unat (max_producers c)"
    then have r: "spsc_reachable c (mp_rings m ! i)" "log_of i (mp_log m) = sp_recvd (mp_rings m ! i)"
      using inv by (simp_all add: mpsc_inv_def rings_ok_def)
    have si: "spsc_inv (mp_rings m ! i)" using spsc_reachable_inv [OF r(1) assms(2)] .
    then have "ring_inv (sp_view (mp_rings m ! i))" by (simp add: spsc_inv_def)
    from ring_inv_occupied [OF this] si r(2) show "\<not> sp_fault (mp_rings m ! i) \<and>
        (\<exists>rest. sp_sent (mp_rings m ! i) = log_of i (mp_log m) @ rest \<and> length rest \<le> ring_cap (sp_ring (mp_rings m ! i)))"
      by (auto simp: spsc_inv_def)
  qed
qed

text \<open>A thread that has registered with a channel for one producer.\<close>

definition registered_state :: "nat mpsc" where
  "registered_state = \<lparr>mp_rings = [(spsc_start demo_config)\<lparr>sp_ring := ring_set_active True (ring_new demo_config)\<rparr>],
     mp_threads = [R_Producer 0], mp_count = 1, mp_closed = False, mp_drain = M_Idle, mp_log = [], mp_fault = False\<rparr>"

lemma registered_reachable: "mpsc_reachable demo_config 1 registered_state"
proof -
  have max: "max_producers demo_config = 1" by (simp add: demo_config_def)
  define m0 :: "nat mpsc" where "m0 = mpsc_start demo_config 1"
  have m0: "m0 = \<lparr>mp_rings = [spsc_start demo_config], mp_threads = [R_Start], mp_count = 0, mp_closed = False,
      mp_drain = M_Idle, mp_log = [], mp_fault = False\<rparr>"
    by (simp add: m0_def mpsc_start_def max)
  define m1 where "m1 = set_thread 0 R_Open m0"
  define m2 where "m2 = (set_thread 0 (R_Claimed (mp_count m1)) m1)\<lparr>mp_count := mp_count m1 + 1\<rparr>"
  have "mpsc_step demo_config m0 m1" unfolding m1_def by (rule check_open) (simp_all add: m0)
  moreover have "mpsc_step demo_config m1 m2" unfolding m2_def by (rule claim) (simp_all add: m1_def m0 set_thread_def)
  moreover have "mpsc_step demo_config m2 ((set_thread 0 (R_Producer 0) m2)\<lparr>mp_rings :=
      (mp_rings m2)[unat (0 :: usize) := (mp_rings m2 ! 0)\<lparr>sp_ring := ring_set_active True (sp_ring (mp_rings m2 ! 0))\<rparr>]\<rparr>)"
    by (rule activate) (simp_all add: m2_def m1_def m0 set_thread_def max)
  ultimately have "mpsc_reachable demo_config 1 ((set_thread 0 (R_Producer 0) m2)\<lparr>mp_rings :=
      (mp_rings m2)[unat (0 :: usize) := (mp_rings m2 ! 0)\<lparr>sp_ring := ring_set_active True (sp_ring (mp_rings m2 ! 0))\<rparr>]\<rparr>)"
    using m_start [of demo_config 1] unfolding m0_def by (blast intro: m_step)
  then show ?thesis by (simp add: m2_def m1_def m0 set_thread_def spsc_start_def registered_state_def)
qed

theorem mpsc_exactly_once_witness:
  "\<not> sp_fault (mp_rings registered_state ! 0) \<and>
   (\<exists>rest. sp_sent (mp_rings registered_state ! 0) = log_of 0 (mp_log registered_state) @ rest \<and>
      length rest \<le> ring_cap (sp_ring (mp_rings registered_state ! 0))) \<and> \<not> mp_fault registered_state"
proof -
  have max: "unat (max_producers demo_config) = 1" by (simp add: demo_config_def)
  show ?thesis using mpsc_exactly_once [OF registered_reachable demo_shift_ok, unfolded max] by simp
qed

end
