(* ===== verification/Wal_Entry.thy ===== *)
theory Wal_Entry
  imports Prelude
begin

text \<open>
  Entries and their on-disk framing (crate \<open>ringwal\<close>: \<open>entry.rs\<close>, \<open>error.rs\<close>, the trait of
  \<open>io/mod.rs\<close>).  The checksum (\<open>crc32fast\<close>) and the serialiser (\<open>bincode\<close>) are third-party and are
  arguments of the definitions that use them.  The lemmas show that the 13-byte header and its
  byte encoding are inverse to each other.
\<close>

type_synonym bytes = "u8 list"

section \<open>Errors\<close>

text \<open>
  The kinds of \<open>std::io::Error\<close> the code tells apart.  \<open>Handle_Panic\<close> stands for the panic of a
  simulated handle whose file has been removed.
\<close>

datatype io_error = NotFound | WriteZero | Unsupported | Other | Handle_Panic

datatype wal_error =
    Io io_error
  | Serialization
  | ChecksumMismatch u32 u32
  | PartialWrite u64
  | SegmentFull u64 u64
  | WalClosed
  | AlreadyFinalized u64
  | MaxWriters usize
  | InvalidSegment string
  | NoNewCheckpoints

section \<open>Entries\<close>

datatype ('k, 'v) wal_entry =
    Insert u64 u64 'k 'v
  | Update u64 u64 'k 'v 'v
  | Delete u64 u64 'k 'v
  | Commit u64 u64
  | Abort u64 u64

fun tx_id :: "('k, 'v) wal_entry \<Rightarrow> u64" where
  "tx_id (Insert t _ _ _) = t"
| "tx_id (Update t _ _ _ _) = t"
| "tx_id (Delete t _ _ _) = t"
| "tx_id (Commit t _) = t"
| "tx_id (Abort t _) = t"

fun entry_timestamp :: "('k, 'v) wal_entry \<Rightarrow> u64" where
  "entry_timestamp (Insert _ s _ _) = s"
| "entry_timestamp (Update _ s _ _ _) = s"
| "entry_timestamp (Delete _ s _ _) = s"
| "entry_timestamp (Commit _ s) = s"
| "entry_timestamp (Abort _ s) = s"

fun is_commit :: "('k, 'v) wal_entry \<Rightarrow> bool" where
  "is_commit (Commit _ _) = True"
| "is_commit _ = False"

fun is_abort :: "('k, 'v) wal_entry \<Rightarrow> bool" where
  "is_abort (Abort _ _) = True"
| "is_abort _ = False"

section \<open>Little-endian bytes\<close>

text \<open>\<open>to_le_bytes\<close> and \<open>from_le_bytes\<close> of an \<open>n\<close>-byte integer.\<close>

fun le_bytes :: "nat \<Rightarrow> nat \<Rightarrow> bytes" where
  "le_bytes 0 m = []"
| "le_bytes (Suc n) m = of_nat (m mod 256) # le_bytes n (m div 256)"

fun le_value :: "bytes \<Rightarrow> nat" where
  "le_value [] = 0"
| "le_value (b # bs) = unat b + 256 * le_value bs"

definition u64_to_le_bytes :: "u64 \<Rightarrow> bytes" where
  "u64_to_le_bytes w = le_bytes 8 (unat w)"

definition u64_from_le_bytes :: "bytes \<Rightarrow> u64" where
  "u64_from_le_bytes bs = of_nat (le_value bs)"

definition u32_to_le_bytes :: "u32 \<Rightarrow> bytes" where
  "u32_to_le_bytes w = le_bytes 4 (unat w)"

definition u32_from_le_bytes :: "bytes \<Rightarrow> u32" where
  "u32_from_le_bytes bs = of_nat (le_value bs)"

lemma length_le_bytes [simp]: "length (le_bytes n m) = n"
  by (induction n arbitrary: m) auto

lemma unat_byte: "unat (of_nat (m mod 256) :: u8) = m mod 256"
  by (simp add: unat_of_nat)

lemma le_value_le_bytes: "m < 256 ^ n \<Longrightarrow> le_value (le_bytes n m) = m"
proof (induction n arbitrary: m)
  case (Suc n)
  then have "m div 256 < 256 ^ n" by (simp add: less_mult_imp_div_less mult.commute)
  with Suc.IH show ?case by (simp add: unat_byte)
qed simp

lemma le_value_less: "le_value bs < 256 ^ length bs"
proof (induction bs)
  case (Cons b bs)
  have "unat b < 256" using unsigned_less [of b, where 'a = nat] by simp
  with Cons show ?case by simp
qed simp

lemma le_bytes_le_value: "le_bytes (length bs) (le_value bs) = bs"
proof (induction bs)
  case (Cons b bs)
  have "unat b < 256" using unsigned_less [of b, where 'a = nat] by simp
  then have "(unat b + 256 * le_value bs) mod 256 = unat b" "(unat b + 256 * le_value bs) div 256 = le_value bs"
    by simp_all
  with Cons show ?case by simp
qed simp

lemma u64_le_roundtrip [simp]: "u64_from_le_bytes (u64_to_le_bytes w) = w"
proof -
  have "unat w < 256 ^ 8" using unsigned_less [of w, where 'a = nat] by simp
  then show ?thesis by (simp add: u64_from_le_bytes_def u64_to_le_bytes_def le_value_le_bytes del: le_bytes.simps)
qed

lemma u32_le_roundtrip [simp]: "u32_from_le_bytes (u32_to_le_bytes w) = w"
proof -
  have "unat w < 256 ^ 4" using unsigned_less [of w, where 'a = nat] by simp
  then show ?thesis by (simp add: u32_from_le_bytes_def u32_to_le_bytes_def le_value_le_bytes del: le_bytes.simps)
qed

lemma u64_bytes_roundtrip: "length bs = 8 \<Longrightarrow> u64_to_le_bytes (u64_from_le_bytes bs) = bs"
  using le_bytes_le_value [of bs] le_value_less [of bs]
  by (simp add: u64_from_le_bytes_def u64_to_le_bytes_def unat_of_nat)

lemma u32_bytes_roundtrip: "length bs = 4 \<Longrightarrow> u32_to_le_bytes (u32_from_le_bytes bs) = bs"
  using le_bytes_le_value [of bs] le_value_less [of bs]
  by (simp add: u32_from_le_bytes_def u32_to_le_bytes_def unat_of_nat)

lemma length_u64_to_le_bytes [simp]: "length (u64_to_le_bytes w) = 8"
  unfolding u64_to_le_bytes_def by (rule length_le_bytes)

lemma length_u32_to_le_bytes [simp]: "length (u32_to_le_bytes w) = 4"
  unfolding u32_to_le_bytes_def by (rule length_le_bytes)

section \<open>Header\<close>

record wal_header =
  h_length :: u64
  h_checksum :: u32
  h_version :: u8

definition HEADER_VERSION :: u8 where "HEADER_VERSION = 1"

definition HEADER_SIZE :: nat where "HEADER_SIZE = 13"

definition header_new :: "(bytes \<Rightarrow> u32) \<Rightarrow> bytes \<Rightarrow> wal_header" where
  "header_new crc data =
     \<lparr>h_length = of_nat (length data), h_checksum = crc data, h_version = HEADER_VERSION\<rparr>"

definition header_to_bytes :: "wal_header \<Rightarrow> bytes" where
  "header_to_bytes h = u64_to_le_bytes (h_length h) @ u32_to_le_bytes (h_checksum h) @ [h_version h]"

definition header_from_bytes :: "bytes \<Rightarrow> wal_header" where
  "header_from_bytes bs =
     \<lparr>h_length = u64_from_le_bytes (take 8 bs), h_checksum = u32_from_le_bytes (take 4 (drop 8 bs)),
      h_version = bs ! 12\<rparr>"

definition header_validate :: "(bytes \<Rightarrow> u32) \<Rightarrow> wal_header \<Rightarrow> bytes \<Rightarrow> wal_error + unit" where
  "header_validate crc h data =
     (let actual = crc data
      in if actual \<noteq> h_checksum h then Inl (ChecksumMismatch (h_checksum h) actual) else Inr ())"

lemma length_header_to_bytes [simp]: "length (header_to_bytes h) = HEADER_SIZE"
  by (simp add: header_to_bytes_def HEADER_SIZE_def)

lemma header_roundtrip [simp]: "header_from_bytes (header_to_bytes h @ rest) = h"
  by (simp add: header_from_bytes_def header_to_bytes_def nth_append)

lemma header_bytes_inverse:
  assumes "length bs = HEADER_SIZE"
  shows "header_to_bytes (header_from_bytes bs) = bs"
proof -
  have "drop 12 bs = [bs ! 12]"
    using assms Cons_nth_drop_Suc [of 12 bs] by (simp add: HEADER_SIZE_def)
  moreover have "take 8 bs @ take 4 (drop 8 bs) @ drop 12 bs = bs"
  proof -
    have "drop 12 bs = drop 4 (drop 8 bs)" by simp
    then show ?thesis by (simp only: append_take_drop_id)
  qed
  ultimately show ?thesis
    using assms by (simp add: header_to_bytes_def header_from_bytes_def u64_bytes_roundtrip
        u32_bytes_roundtrip HEADER_SIZE_def)
qed

text \<open>What one entry occupies in a segment: header, then data.\<close>

definition frame :: "(bytes \<Rightarrow> u32) \<Rightarrow> bytes \<Rightarrow> bytes" where
  "frame crc data = header_to_bytes (header_new crc data) @ data"

lemma length_frame [simp]: "length (frame crc data) = HEADER_SIZE + length data"
  by (simp add: frame_def)

end
