(* ===== verification/Wal_Segment.thy ===== *)
theory Wal_Segment
  imports Wal_Entry
begin

text \<open>
  Segment files and their manager (\<open>segment.rs\<close>) over the I/O trait of \<open>io/mod.rs\<close>.  The trait is
  the record \<open>io_engine\<close> of operations on a file-system state; a file handle is the path it was
  opened with.  Paths are lists of components.  Segment names are the strings the code formats
  and parses, and parsing is shown to invert formatting.
\<close>

section \<open>The I/O trait\<close>

type_synonym path = "string list"

record 'fs io_engine =
  e_open_append :: "path \<Rightarrow> bool \<Rightarrow> 'fs \<Rightarrow> (io_error + unit) \<times> 'fs"
  e_write_all :: "path \<Rightarrow> bytes \<Rightarrow> 'fs \<Rightarrow> (io_error + unit) \<times> 'fs"
  e_flush :: "path \<Rightarrow> 'fs \<Rightarrow> (io_error + unit) \<times> 'fs"
  e_sync_all :: "path \<Rightarrow> 'fs \<Rightarrow> (io_error + unit) \<times> 'fs"
  e_sync_data :: "path \<Rightarrow> 'fs \<Rightarrow> (io_error + unit) \<times> 'fs"
  e_metadata_len :: "path \<Rightarrow> 'fs \<Rightarrow> io_error + u64"
  e_open_read :: "path \<Rightarrow> 'fs \<Rightarrow> (io_error + u64 \<times> bytes) \<times> 'fs"
  e_create_dir_all :: "path \<Rightarrow> 'fs \<Rightarrow> (io_error + unit) \<times> 'fs"
  e_read_dir :: "path \<Rightarrow> 'fs \<Rightarrow> io_error + string list"
  e_remove_file :: "path \<Rightarrow> 'fs \<Rightarrow> (io_error + unit) \<times> 'fs"
  e_write_file_bytes :: "path \<Rightarrow> bytes \<Rightarrow> 'fs \<Rightarrow> (io_error + unit) \<times> 'fs"
  e_read_file_bytes :: "path \<Rightarrow> 'fs \<Rightarrow> io_error + bytes"
  e_exists :: "path \<Rightarrow> 'fs \<Rightarrow> bool"
  e_try_clone_file :: "path \<Rightarrow> 'fs \<Rightarrow> io_error + path"

text \<open>Rust's \<open>?\<close> on an I/O call inside a function that returns \<open>WalError\<close>.\<close>

definition io_try :: "(io_error + 'a) \<times> 'fs \<Rightarrow> ('a \<Rightarrow> 'fs \<Rightarrow> (wal_error + 'b) \<times> 'fs) \<Rightarrow> (wal_error + 'b) \<times> 'fs" where
  "io_try r k = (case r of (Inl e, fs) \<Rightarrow> (Inl (Io e), fs) | (Inr x, fs) \<Rightarrow> k x fs)"

lemma io_try_simps [simp]:
  "io_try (Inl e, fs) k = (Inl (Io e), fs)" "io_try (Inr x, fs) k = k x fs"
  by (simp_all add: io_try_def)

section \<open>Segment names\<close>

definition digit_char :: "nat \<Rightarrow> char" where
  "digit_char d = char_of (48 + d)"

fun decimal :: "nat \<Rightarrow> string" where
  "decimal n = (if n < 10 then [digit_char n] else decimal (n div 10) @ [digit_char (n mod 10)])"

declare decimal.simps [simp del]

text \<open>\<open>format!("{id:08}")\<close>\<close>

definition pad8 :: "string \<Rightarrow> string" where
  "pad8 s = replicate (8 - length s) (digit_char 0) @ s"

definition segment_name :: "u64 \<Rightarrow> string" where
  "segment_name i = ''wal-'' @ pad8 (decimal (unat i)) @ ''.log''"

definition segment_path :: "path \<Rightarrow> u64 \<Rightarrow> path" where
  "segment_path dir i = dir @ [segment_name i]"

definition is_digit :: "char \<Rightarrow> bool" where
  "is_digit c \<longleftrightarrow> 48 \<le> (of_char c :: nat) \<and> (of_char c :: nat) \<le> 57"

definition decimal_value :: "string \<Rightarrow> nat" where
  "decimal_value s = foldl (\<lambda>acc c. acc * 10 + (of_char c - 48)) 0 s"

text \<open>\<open>str::parse::<u64>\<close>: an optional plus sign, at least one digit, digits only, no overflow.\<close>

definition parse_u64 :: "string \<Rightarrow> u64 option" where
  "parse_u64 s =
     (let ds = (case s of [] \<Rightarrow> [] | c # cs \<Rightarrow> if c = CHR ''+'' \<and> cs \<noteq> [] then cs else s)
      in if ds = [] \<or> \<not> list_all is_digit ds \<or> 2 ^ 64 \<le> decimal_value ds then None
         else Some (of_nat (decimal_value ds)))"

definition strip_prefix :: "string \<Rightarrow> string \<Rightarrow> string option" where
  "strip_prefix p s = (if take (length p) s = p then Some (drop (length p) s) else None)"

definition strip_suffix :: "string \<Rightarrow> string \<Rightarrow> string option" where
  "strip_suffix p s =
     (if length p \<le> length s \<and> drop (length s - length p) s = p
      then Some (take (length s - length p) s) else None)"

definition parse_segment_name :: "string \<Rightarrow> u64 option" where
  "parse_segment_name s =
     (case strip_prefix ''wal-'' s of None \<Rightarrow> None
      | Some rest \<Rightarrow> (case strip_suffix ''.log'' rest of None \<Rightarrow> None | Some num \<Rightarrow> parse_u64 num))"

lemma of_char_digit: "d < 10 \<Longrightarrow> of_char (digit_char d) = 48 + d"
  by (simp add: digit_char_def)

lemma is_digit_digit [simp]: "d < 10 \<Longrightarrow> is_digit (digit_char d)"
  by (simp add: is_digit_def of_char_digit)

lemma decimal_digits: "list_all is_digit (decimal n)" "decimal n \<noteq> []"
proof -
  show "list_all is_digit (decimal n)"
    by (induction n rule: decimal.induct) (subst decimal.simps, auto)
  show "decimal n \<noteq> []" by (subst decimal.simps) simp
qed

lemma decimal_value_snoc: "decimal_value (s @ [c]) = decimal_value s * 10 + (of_char c - 48)"
  by (simp add: decimal_value_def)

lemma decimal_value_decimal: "decimal_value (decimal n) = n"
proof (induction n rule: decimal.induct)
  case (1 n)
  show ?case
  proof (cases "n < 10")
    case True
    then show ?thesis by (simp add: decimal.simps decimal_value_def of_char_digit)
  next
    case False
    then show ?thesis
      using 1 by (subst decimal.simps) (simp add: decimal_value_snoc of_char_digit)
  qed
qed

lemma decimal_value_pad: "decimal_value (replicate k (digit_char 0) @ s) = decimal_value s"
proof (induction k)
  case (Suc k)
  then show ?case by (simp add: decimal_value_def of_char_digit)
qed simp

lemma parse_pad8: "parse_u64 (pad8 (decimal (unat i))) = Some i"
proof -
  let ?s = "pad8 (decimal (unat i))"
  have d: "list_all is_digit ?s" "?s \<noteq> []"
    using decimal_digits [of "unat i"] by (auto simp: pad8_def list_all_iff)
  have plus: "\<not> is_digit (CHR ''+'')" by (simp add: is_digit_def)
  have "decimal_value ?s = unat i" by (simp add: pad8_def decimal_value_pad decimal_value_decimal)
  moreover have "unat i < 2 ^ 64" using unsigned_less [of i, where 'a = nat] by simp
  ultimately show ?thesis
    using d plus by (cases ?s) (auto simp: parse_u64_def Let_def)
qed

lemma parse_segment_name_roundtrip [simp]: "parse_segment_name (segment_name i) = Some i"
  by (simp add: parse_segment_name_def segment_name_def strip_prefix_def strip_suffix_def parse_pad8)

lemma segment_name_inj [simp]: "segment_name i = segment_name j \<longleftrightarrow> i = j"
  by (metis option.inject parse_segment_name_roundtrip)

lemma segment_path_inj [simp]: "segment_path dir i = segment_path dir j \<longleftrightarrow> i = j"
  by (simp add: segment_path_def)

text \<open>\<open>discover_segment_ids\<close>: the ids of the names that parse, in directory order.\<close>

definition discover_segment_ids :: "'fs io_engine \<Rightarrow> path \<Rightarrow> 'fs \<Rightarrow> wal_error + u64 list" where
  "discover_segment_ids eng dir fs =
     (if \<not> e_exists eng dir fs then Inr []
      else (case e_read_dir eng dir fs of Inl e \<Rightarrow> Inl (Io e)
            | Inr names \<Rightarrow> Inr (List.map_filter parse_segment_name names)))"

section \<open>Segments\<close>

record segment_meta =
  m_id :: u64
  m_path :: path
  m_size :: u64
  m_entry_count :: u64
  m_first_lsn :: u64
  m_last_lsn :: u64

record segment =
  sg_id :: u64
  sg_path :: path
  sg_size :: u64
  sg_max_size :: u64
  sg_entry_count :: u64
  sg_first_lsn :: u64
  sg_last_lsn :: u64

definition segment_open ::
    "'fs io_engine \<Rightarrow> u64 \<Rightarrow> path \<Rightarrow> u64 \<Rightarrow> bool \<Rightarrow> 'fs \<Rightarrow> (wal_error + segment) \<times> 'fs" where
  "segment_open eng i dir max_size direct_io fs =
     (let p = segment_path dir i in
      io_try (e_open_append eng p direct_io fs) (\<lambda>_ fs1.
        io_try (e_metadata_len eng p fs1, fs1) (\<lambda>size fs2.
          (Inr \<lparr>sg_id = i, sg_path = p, sg_size = size, sg_max_size = max_size, sg_entry_count = 0,
                sg_first_lsn = 0, sg_last_lsn = 0\<rparr>, fs2))))"

text \<open>
  \<open>append_entry\<close>: on an I/O error the segment's counters are unchanged, although part of the entry
  may have reached the file.
\<close>

definition segment_append_entry ::
    "(bytes \<Rightarrow> u32) \<Rightarrow> 'fs io_engine \<Rightarrow> u64 \<Rightarrow> bytes \<Rightarrow> segment \<Rightarrow> 'fs \<Rightarrow> (wal_error + usize) \<times> segment \<times> 'fs" where
  "segment_append_entry crc eng lsn data seg fs =
     (let header_bytes = header_to_bytes (header_new crc data);
          n = of_nat (HEADER_SIZE + length data)
      in case e_write_all eng (sg_path seg) header_bytes fs of
           (Inl e, fs1) \<Rightarrow> (Inl (Io e), seg, fs1)
         | (Inr _, fs1) \<Rightarrow>
             (case e_write_all eng (sg_path seg) data fs1 of
                (Inl e, fs2) \<Rightarrow> (Inl (Io e), seg, fs2)
              | (Inr _, fs2) \<Rightarrow>
                  (Inr n,
                   seg\<lparr>sg_size := sg_size seg + n, sg_entry_count := sg_entry_count seg + 1,
                       sg_first_lsn := (if sg_first_lsn seg = 0 then lsn else sg_first_lsn seg),
                       sg_last_lsn := lsn\<rparr>,
                   fs2)))"

definition segment_needs_rotation :: "segment \<Rightarrow> bool" where
  "segment_needs_rotation seg \<longleftrightarrow> sg_max_size seg \<le> sg_size seg"

definition segment_fsync :: "'fs io_engine \<Rightarrow> segment \<Rightarrow> 'fs \<Rightarrow> (wal_error + unit) \<times> 'fs" where
  "segment_fsync eng seg fs = io_try (e_sync_all eng (sg_path seg) fs) (\<lambda>_ fs1. (Inr (), fs1))"

definition segment_fsync_data :: "'fs io_engine \<Rightarrow> segment \<Rightarrow> 'fs \<Rightarrow> (wal_error + unit) \<times> 'fs" where
  "segment_fsync_data eng seg fs = io_try (e_sync_data eng (sg_path seg) fs) (\<lambda>_ fs1. (Inr (), fs1))"

text \<open>The duplicated descriptor stands for the same file, so it is represented by its path.\<close>

definition segment_flush_and_clone_fd :: "'fs io_engine \<Rightarrow> segment \<Rightarrow> 'fs \<Rightarrow> (wal_error + path) \<times> 'fs" where
  "segment_flush_and_clone_fd eng seg fs =
     io_try (e_flush eng (sg_path seg) fs) (\<lambda>_ fs1.
       io_try (e_try_clone_file eng (sg_path seg) fs1, fs1) (\<lambda>fd fs2. (Inr fd, fs2)))"

definition segment_seal :: "'fs io_engine \<Rightarrow> segment \<Rightarrow> 'fs \<Rightarrow> (wal_error + segment_meta) \<times> 'fs" where
  "segment_seal eng seg fs =
     (case segment_fsync eng seg fs of
        (Inl e, fs1) \<Rightarrow> (Inl e, fs1)
      | (Inr _, fs1) \<Rightarrow>
          (Inr \<lparr>m_id = sg_id seg, m_path = sg_path seg, m_size = sg_size seg,
                m_entry_count = sg_entry_count seg, m_first_lsn = sg_first_lsn seg,
                m_last_lsn = sg_last_lsn seg\<rparr>, fs1))"

section \<open>Segment manager\<close>

record segment_manager =
  sm_dir :: path
  sm_max_segment_size :: u64
  sm_direct_io :: bool
  sm_active :: segment
  sm_sealed :: "segment_meta list"
  sm_next_segment_id :: u64

definition manager_open ::
    "'fs io_engine \<Rightarrow> path \<Rightarrow> u64 \<Rightarrow> bool \<Rightarrow> 'fs \<Rightarrow> (wal_error + segment_manager) \<times> 'fs" where
  "manager_open eng dir max_size direct_io fs =
     io_try (e_create_dir_all eng dir fs) (\<lambda>_ fs1.
       case discover_segment_ids eng dir fs1 of
         Inl e \<Rightarrow> (Inl e, fs1)
       | Inr found \<Rightarrow>
           (let ids = sort found;
                next_id = (if ids = [] then 1 else last ids + 1)
            in case segment_open eng next_id dir max_size direct_io fs1 of
                 (Inl e, fs2) \<Rightarrow> (Inl e, fs2)
               | (Inr seg, fs2) \<Rightarrow>
                   (Inr \<lparr>sm_dir = dir, sm_max_segment_size = max_size, sm_direct_io = direct_io,
                         sm_active = seg, sm_sealed = [], sm_next_segment_id = next_id + 1\<rparr>, fs2)))"

text \<open>
  \<open>rotate\<close>: the id is consumed first, the new segment opened, the old one replaced and then sealed;
  each early return leaves what was already changed.
\<close>

definition manager_rotate ::
    "'fs io_engine \<Rightarrow> segment_manager \<Rightarrow> 'fs \<Rightarrow> (wal_error + unit) \<times> segment_manager \<times> 'fs" where
  "manager_rotate eng sm fs =
     (let new_id = sm_next_segment_id sm;
          sm1 = sm\<lparr>sm_next_segment_id := new_id + 1\<rparr>
      in case segment_open eng new_id (sm_dir sm1) (sm_max_segment_size sm1) (sm_direct_io sm1) fs of
           (Inl e, fs1) \<Rightarrow> (Inl e, sm1, fs1)
         | (Inr new_segment, fs1) \<Rightarrow>
             (let old_segment = sm_active sm1; sm2 = sm1\<lparr>sm_active := new_segment\<rparr>
              in case segment_seal eng old_segment fs1 of
                   (Inl e, fs2) \<Rightarrow> (Inl e, sm2, fs2)
                 | (Inr meta, fs2) \<Rightarrow> (Inr (), sm2\<lparr>sm_sealed := sm_sealed sm2 @ [meta]\<rparr>, fs2)))"

fun manager_write_batch ::
    "(bytes \<Rightarrow> u32) \<Rightarrow> 'fs io_engine \<Rightarrow> (u64 \<times> bytes) list \<Rightarrow> segment_manager \<Rightarrow> 'fs \<Rightarrow>
     (wal_error + unit) \<times> segment_manager \<times> 'fs" where
  "manager_write_batch crc eng [] sm fs = (Inr (), sm, fs)"
| "manager_write_batch crc eng ((lsn, data) # batch) sm fs =
     (case (if segment_needs_rotation (sm_active sm) then manager_rotate eng sm fs else (Inr (), sm, fs)) of
        (Inl e, sm1, fs1) \<Rightarrow> (Inl e, sm1, fs1)
      | (Inr _, sm1, fs1) \<Rightarrow>
          (case segment_append_entry crc eng lsn data (sm_active sm1) fs1 of
             (Inl e, seg, fs2) \<Rightarrow> (Inl e, sm1\<lparr>sm_active := seg\<rparr>, fs2)
           | (Inr _, seg, fs2) \<Rightarrow> manager_write_batch crc eng batch (sm1\<lparr>sm_active := seg\<rparr>) fs2))"

definition manager_fsync :: "'fs io_engine \<Rightarrow> segment_manager \<Rightarrow> 'fs \<Rightarrow> (wal_error + unit) \<times> 'fs" where
  "manager_fsync eng sm fs = segment_fsync eng (sm_active sm) fs"

definition manager_fsync_data :: "'fs io_engine \<Rightarrow> segment_manager \<Rightarrow> 'fs \<Rightarrow> (wal_error + unit) \<times> 'fs" where
  "manager_fsync_data eng sm fs = segment_fsync_data eng (sm_active sm) fs"

definition manager_flush :: "'fs io_engine \<Rightarrow> segment_manager \<Rightarrow> 'fs \<Rightarrow> (wal_error + unit) \<times> 'fs" where
  "manager_flush eng sm fs = io_try (e_flush eng (sg_path (sm_active sm)) fs) (\<lambda>_ fs1. (Inr (), fs1))"

definition manager_flush_and_clone_fd :: "'fs io_engine \<Rightarrow> segment_manager \<Rightarrow> 'fs \<Rightarrow> (wal_error + path) \<times> 'fs" where
  "manager_flush_and_clone_fd eng sm fs = segment_flush_and_clone_fd eng (sm_active sm) fs"

definition manager_sealed_segments :: "segment_manager \<Rightarrow> segment_meta list" where
  "manager_sealed_segments sm = sm_sealed sm"

definition manager_active_segment_id :: "segment_manager \<Rightarrow> u64" where
  "manager_active_segment_id sm = sg_id (sm_active sm)"

text \<open>\<open>truncate_before\<close>: \<open>retain\<close> with a best-effort delete of what is not kept.\<close>

definition manager_truncate_before ::
    "'fs io_engine \<Rightarrow> u64 \<Rightarrow> segment_manager \<Rightarrow> 'fs \<Rightarrow> (wal_error + nat) \<times> segment_manager \<times> 'fs" where
  "manager_truncate_before eng checkpoint_lsn sm fs =
     (let gone = filter (\<lambda>m. m_last_lsn m < checkpoint_lsn) (sm_sealed sm)
      in (Inr (length gone),
          sm\<lparr>sm_sealed := filter (\<lambda>m. \<not> m_last_lsn m < checkpoint_lsn) (sm_sealed sm)\<rparr>,
          foldl (\<lambda>fs m. snd (e_remove_file eng (m_path m) fs)) fs gone))"

end
