(* ===== verification/Allocators.thy ===== *)
theory Allocators
  imports Stack_Ring Wal_Segment Channel
begin

text \<open>
  The buffer allocators of crate \<open>ringmpsc\<close> (\<open>allocator.rs\<close>, \<open>numa.rs\<close>) at the level of addresses: which
  bytes they request, which pointer they hand out, which node they ask the kernel for.  The memory
  itself is obtained from the system, so what it answers (\<open>Vec\<close>'s allocation, \<open>mmap\<close>, \<open>sysconf\<close>,
  \<open>sched_getcpu\<close>, the directory listings of sysfs) is a parameter.  The lemmas show that a request that
  fits the address space yields a buffer inside the memory obtained, aligned and of the requested length;
  that a ring over any of the allocators is the ring over the heap allocator; and how nodes are chosen.
\<close>

section \<open>Arithmetic on sizes\<close>

text \<open>Size and alignment of \<open>MaybeUninit<T>\<close>.\<close>

record ty_layout =
  ty_size :: usize
  ty_align :: usize

definition checked_mul :: "usize \<Rightarrow> usize \<Rightarrow> usize option" where
  "checked_mul a b = (if unat a * unat b < 2 ^ 64 then Some (a * b) else None)"

text \<open>\<open>a + b\<close> on \<open>usize\<close>: it panics on overflow in debug builds and wraps in release builds.\<close>

definition usize_add :: "bool \<Rightarrow> usize \<Rightarrow> usize \<Rightarrow> fault + usize" where
  "usize_add debug a b = (if debug \<and> 2 ^ 64 \<le> unat a + unat b then Inl Panicked else Inr (a + b))"

definition isize_max :: usize where
  "isize_max = 2 ^ 63 - 1"

lemma usize_add_fits: "unat a + unat b < 2 ^ 64 \<Longrightarrow> usize_add debug a b = Inr (a + b)"
  by (simp add: usize_add_def)

lemma checked_mul_Some: "checked_mul a b = Some n \<Longrightarrow> unat n = unat a * unat b"
  by (auto simp: checked_mul_def unat_word_ariths split: if_splits)

lemma power_of_two_cases:
  assumes "usize_is_power_of_two n"
  obtains b where "b < 64" "n = 2 ^ b" "unat n = 2 ^ b"
proof -
  note b = sr_bits_pow2 [OF assms]
  have "(2::nat) ^ sr_bits n < 2 ^ 64" using b(1) by (rule power_strict_increasing) simp
  then have "unat (2 ^ sr_bits n :: usize) = 2 ^ sr_bits n" by (intro unat_2_power) simp
  moreover have n: "n = 2 ^ sr_bits n" using b(2) by (simp only: push_bit_eq_mult mult_1)
  ultimately show thesis using that [OF b(1) n] by metis
qed

lemma unat_and_not_mask: "unat (y AND NOT (mask b) :: 'w::len word) = unat y - unat y mod 2 ^ b"
proof -
  have "(y AND NOT (mask b)) AND (y AND mask b) = 0" by (rule bit_word_eqI) (auto simp: bit_simps)
  then have "(y AND NOT (mask b)) + (y AND mask b) = (y AND NOT (mask b)) OR (y AND mask b)"
    by (rule disjunctive_add_eq_or)
  also have "\<dots> = y" by (rule bit_word_eqI) (auto simp: bit_simps)
  finally have a: "y AND NOT (mask b) = y - (y AND mask b)" by (simp add: eq_diff_eq)
  have "y AND mask b \<le> y" by (simp add: word_and_le2)
  then show ?thesis unfolding a by (simp add: unat_sub unat_and_mask)
qed

text \<open>\<open>(x + align - 1) & !(align - 1)\<close> is the least multiple of a power of two that is not below \<open>x\<close>.\<close>

lemma round_up:
  assumes "usize_is_power_of_two n" "unat x + unat n \<le> 2 ^ 64"
  defines "y \<equiv> (x + n - 1) AND NOT (n - 1)"
  shows "unat n dvd unat y" "unat x \<le> unat y" "unat y < unat x + unat n"
proof -
  from assms(1) obtain b where b: "b < 64" "n = 2 ^ b" "unat n = 2 ^ b" by (rule power_of_two_cases)
  have m: "unat (n - 1) = 2 ^ b - 1" using unat_sub [of 1 n] b(3) by (simp add: word_le_nat_alt)
  have "unat x + unat (n - 1) < 2 ^ 64" unfolding m using assms(2) b(3) one_le_power [of "2::nat" b] by linarith
  then have "unat (x + (n - 1)) = unat x + unat (n - 1)" using unat_add_lem [of x "n - 1"] by simp
  then have u: "unat (x + n - 1) = unat x + (2 ^ b - 1)" by (simp only: m add_diff_eq)
  have "n - 1 = mask b" by (simp only: b(2) mask_eq_exp_minus_1)
  then have y: "unat y = unat x + (2 ^ b - 1) - (unat x + (2 ^ b - 1)) mod 2 ^ b"
    by (simp only: y_def unat_and_not_mask u)
  show "unat n dvd unat y" unfolding y b(3) by (rule dvd_minus_mod)
  have "(unat x + (2 ^ b - 1)) mod 2 ^ b < 2 ^ b" by simp
  then show "unat x \<le> unat y" "unat y < unat x + unat n" unfolding y b(3) by linarith+
qed

text \<open>Of two powers of two the smaller divides the larger.\<close>

lemma power_of_two_dvd:
  assumes "usize_is_power_of_two a" "usize_is_power_of_two n" "a \<le> n"
  shows "unat a dvd unat n"
proof -
  obtain i j where "unat a = 2 ^ i" "unat n = 2 ^ j" using assms(1,2) by (metis power_of_two_cases)
  with assms(3) show ?thesis by (simp add: word_le_nat_alt le_imp_power_dvd)
qed

section \<open>Aligned allocator\<close>

text \<open>
  \<open>AlignedBuffer\<close>: the pointer handed out, the number of elements, and address and length of the byte
  vector behind it.  \<open>vec_alloc\<close> answers a request for that many bytes.
\<close>

record aligned_buffer =
  ab_ptr :: usize
  ab_len :: usize
  ab_backing :: "usize \<times> usize"

definition vec_with_capacity :: "(usize \<Rightarrow> fault + usize) \<Rightarrow> usize \<Rightarrow> fault + usize" where
  "vec_with_capacity vec_alloc n = (if isize_max < n then Inl Panicked else vec_alloc n)"

definition aligned_allocate ::
    "bool \<Rightarrow> (usize \<Rightarrow> fault + usize) \<Rightarrow> usize \<Rightarrow> ty_layout \<Rightarrow> usize \<Rightarrow> fault + aligned_buffer" where
  "aligned_allocate debug vec_alloc ALIGN ty capacity =
     (if \<not> usize_is_power_of_two ALIGN then Inl Panicked
      else if \<not> ty_align ty \<le> ALIGN then Inl Panicked
      else case checked_mul (ty_size ty) capacity of
             None \<Rightarrow> Inl Panicked
           | Some total_bytes \<Rightarrow>
               try_bind (usize_add debug total_bytes ALIGN) (\<lambda>padded.
                 let alloc_bytes = padded - 1
                 in try_bind (vec_with_capacity vec_alloc alloc_bytes) (\<lambda>raw.
                      try_bind (usize_add debug raw ALIGN) (\<lambda>raised.
                        let aligned = (raised - 1) AND NOT (ALIGN - 1)
                        in if debug \<and> aligned mod ALIGN \<noteq> 0 then Inl Panicked
                           else Inr \<lparr>ab_ptr = aligned, ab_len = capacity, ab_backing = (raw, alloc_bytes)\<rparr>))))"

text \<open>\<open>Deref\<close>: the slots behind the pointer; they hold no value yet.\<close>

definition aligned_deref :: "aligned_buffer \<Rightarrow> 'a slots" where
  "aligned_deref buf = replicate (unat (ab_len buf)) None"

text \<open>What the trait demands of the memory a buffer of \<open>n\<close> elements at \<open>p\<close> lives in.\<close>

definition buffer_inside :: "ty_layout \<Rightarrow> usize \<Rightarrow> usize \<Rightarrow> usize \<Rightarrow> usize \<Rightarrow> bool" where
  "buffer_inside ty p n base len \<longleftrightarrow>
     unat base \<le> unat p \<and> unat p + unat (ty_size ty) * unat n \<le> unat base + unat len \<and> unat (ty_align ty) dvd unat p"

lemma aligned_mod_0:
  fixes a b :: "'w::len word"
  assumes "unat b dvd unat a"
  shows "a mod b = 0"
proof -
  have "unat (a mod b) = 0" using assms by (simp only: unat_mod mod_eq_0_iff_dvd)
  then show ?thesis by (simp only: unat_eq_0)
qed

lemma aligned_allocate_spec:
  assumes ALIGN: "usize_is_power_of_two ALIGN" "ty_align ty \<le> ALIGN" "usize_is_power_of_two (ty_align ty)"
    and bytes: "0 < unat (ty_size ty) * unat capacity" "unat (ty_size ty) * unat capacity + unat ALIGN \<le> 2 ^ 63"
    and memory: "vec_alloc (ty_size ty * capacity + ALIGN - 1) = Inr raw"
      "unat raw + unat (ty_size ty * capacity + ALIGN - 1) < 2 ^ 64"
  shows "\<exists>buf. aligned_allocate debug vec_alloc ALIGN ty capacity = Inr buf \<and> ab_len buf = capacity \<and>
           ab_backing buf = (raw, ty_size ty * capacity + ALIGN - 1) \<and> unat ALIGN dvd unat (ab_ptr buf) \<and>
           buffer_inside ty (ab_ptr buf) capacity raw (ty_size ty * capacity + ALIGN - 1)"
proof -
  let ?t = "ty_size ty * capacity" and ?n = "ty_size ty * capacity + ALIGN - 1"
  let ?p = "(raw + ALIGN - 1) AND NOT (ALIGN - 1)"
  have mul: "checked_mul (ty_size ty) capacity = Some ?t" using bytes(2) by (simp add: checked_mul_def)
  have t: "unat ?t = unat (ty_size ty) * unat capacity" by (rule checked_mul_Some [OF mul])
  obtain b where b: "unat ALIGN = 2 ^ b" using ALIGN(1) by (rule power_of_two_cases)
  have A: "0 < unat ALIGN" by (simp add: b)
  have t1: "unat (?t + ALIGN) = unat ?t + unat ALIGN" using bytes(2) t unat_add_lem [of ?t ALIGN] by simp
  then have n: "unat ?n = unat ?t + unat ALIGN - 1" using A unat_sub [of 1 "?t + ALIGN"] by (simp add: word_le_nat_alt)
  have le: "\<not> isize_max < ?n" using n bytes(2) t by (simp add: isize_max_def word_less_nat_alt)
  have raise: "unat raw + unat ALIGN < 2 ^ 64" using memory(2) n bytes(1) t A by linarith
  note p = round_up [OF ALIGN(1), of raw, OF less_imp_le, OF raise]
  have "unat (ty_align ty) dvd unat ?p" using dvd_trans [OF power_of_two_dvd [OF ALIGN(3,1,2)] p(1)] .
  moreover have "unat ?p + unat ?t \<le> unat raw + unat ?n" using p(3) n A by linarith
  ultimately have inside: "buffer_inside ty ?p capacity raw ?n" using p(2) t by (simp add: buffer_inside_def)
  have "aligned_allocate debug vec_alloc ALIGN ty capacity = Inr \<lparr>ab_ptr = ?p, ab_len = capacity, ab_backing = (raw, ?n)\<rparr>"
    using ALIGN bytes(2) memory(1) le raise aligned_mod_0 [OF p(1)]
    by (simp add: aligned_allocate_def mul t usize_add_fits vec_with_capacity_def Let_def)
  with p(1) inside show ?thesis by simp
qed

text \<open>The assertions of the allocator, and the sizes it refuses.\<close>

lemma aligned_allocate_panics:
  assumes "\<not> usize_is_power_of_two ALIGN \<or> ALIGN < ty_align ty \<or> 2 ^ 64 \<le> unat (ty_size ty) * unat capacity \<or>
           debug \<and> 2 ^ 64 \<le> unat (ty_size ty) * unat capacity + unat ALIGN"
  shows "aligned_allocate debug vec_alloc ALIGN ty capacity = Inl Panicked"
proof (cases "usize_is_power_of_two ALIGN \<and> ty_align ty \<le> ALIGN")
  case False
  then show ?thesis by (auto simp: aligned_allocate_def)
next
  case True
  then have big: "2 ^ 64 \<le> unat (ty_size ty) * unat capacity \<or>
      debug \<and> 2 ^ 64 \<le> unat (ty_size ty) * unat capacity + unat ALIGN"
    using assms by auto
  show ?thesis
  proof (cases "checked_mul (ty_size ty) capacity")
    case None
    with True show ?thesis by (simp add: aligned_allocate_def)
  next
    case (Some n)
    then have "unat n = unat (ty_size ty) * unat capacity" "\<not> 2 ^ 64 \<le> unat (ty_size ty) * unat capacity"
      by (auto simp: checked_mul_Some) (auto simp: checked_mul_def split: if_splits)
    with big have "usize_add debug n ALIGN = Inl Panicked" unfolding usize_add_def by simp
    with True Some show ?thesis by (simp add: aligned_allocate_def)
  qed
qed

text \<open>
  In a release build the padding wraps: a buffer of \<open>usize::MAX\<close> bytes is handed out over 126 bytes of
  memory, from safe code.
\<close>

lemma aligned_allocate_wraps:
  "aligned_allocate False (\<lambda>_. Inr 4096) 128 \<lparr>ty_size = 1, ty_align = 1\<rparr> (- 1) =
     Inr \<lparr>ab_ptr = 4096, ab_len = - 1, ab_backing = (4096, 126)\<rparr>"
  by (simp add: aligned_allocate_def usize_add_def checked_mul_def vec_with_capacity_def isize_max_def Let_def
      usize_is_power_of_two_def upt_rec unsigned_minus_1_eq_mask mask_eq_exp_minus_1)

text \<open>A ring over the slots of such a buffer is the ring over the heap allocator.\<close>

lemma aligned_deref_heap: "aligned_deref buf = heap_allocate (ab_len buf)"
  by (simp add: aligned_deref_def heap_allocate_def)

section \<open>NUMA allocator\<close>

datatype numa_policy = Fixed u16 | RoundRobin | ProducerLocal

record numa_allocator =
  na_policy :: numa_policy
  na_num_nodes :: u16
  na_rr_counter :: u16
  na_huge_pages :: bool

text \<open>
  A directory listing: \<open>None\<close> when the directory cannot be read; an entry can be an error, have a name
  that is not UTF-8, or a name.
\<close>

datatype dir_item = Item_Error | Item_Not_Utf8 | Item_Name string

type_synonym listing = "dir_item list option"

definition item_name :: "dir_item \<Rightarrow> string option" where
  "item_name i = (case i of Item_Name n \<Rightarrow> Some n | _ \<Rightarrow> None)"

definition detect_num_nodes :: "listing \<Rightarrow> u16" where
  "detect_num_nodes entries =
     (case entries of
        None \<Rightarrow> 1
      | Some es \<Rightarrow>
          (let n = length (filter (\<lambda>name. strip_prefix ''node'' name \<noteq> None) (List.map_filter item_name es))
           in if 0 < n then of_nat n else 1))"

text \<open>\<open>str::parse::<u16>\<close>: as for 64 bits, with the smaller bound.\<close>

definition parse_u16 :: "string \<Rightarrow> u16 option" where
  "parse_u16 s = (case parse_u64 s of None \<Rightarrow> None | Some n \<Rightarrow> if n < 65536 then Some (ucast n) else None)"

fun first_node :: "dir_item list \<Rightarrow> u16 option" where
  "first_node [] = None"
| "first_node (e # es) =
     (case item_name e of
        None \<Rightarrow> first_node es
      | Some name \<Rightarrow>
          (case strip_prefix ''node'' name of
             None \<Rightarrow> first_node es
           | Some node_str \<Rightarrow> (case parse_u16 node_str of None \<Rightarrow> first_node es | Some node \<Rightarrow> Some node)))"

text \<open>
  \<open>current_numa_node\<close>: \<open>cpu\<close> is the answer of \<open>sched_getcpu\<close>, \<open>cpu_dir\<close> lists the directory of a CPU,
  \<open>mempolicy\<close> is result and node of the \<open>get_mempolicy\<close> call.
\<close>

record numa_system =
  sys_cpu :: int
  sys_cpu_dir :: "int \<Rightarrow> listing"
  sys_mempolicy :: "int \<times> int"
  sys_nodes :: listing

definition current_numa_node :: "numa_system \<Rightarrow> u16" where
  "current_numa_node sys =
     (if sys_cpu sys < 0 then 0
      else case (case sys_cpu_dir sys (sys_cpu sys) of None \<Rightarrow> None | Some es \<Rightarrow> first_node es) of
             Some node \<Rightarrow> node
           | None \<Rightarrow> (case sys_mempolicy sys of (ret, node) \<Rightarrow> if ret = 0 \<and> 0 \<le> node then of_int node else 0))"

definition numa_new :: "numa_system \<Rightarrow> numa_policy \<Rightarrow> numa_allocator" where
  "numa_new sys policy =
     \<lparr>na_policy = policy, na_num_nodes = detect_num_nodes (sys_nodes sys), na_rr_counter = 0, na_huge_pages = False\<rparr>"

definition numa_with_huge_pages :: "numa_system \<Rightarrow> numa_policy \<Rightarrow> numa_allocator" where
  "numa_with_huge_pages sys policy =
     \<lparr>na_policy = policy, na_num_nodes = detect_num_nodes (sys_nodes sys), na_rr_counter = 0, na_huge_pages = True\<rparr>"

definition is_numa_available :: "numa_allocator \<Rightarrow> bool" where
  "is_numa_available a \<longleftrightarrow> 1 < na_num_nodes a"

definition numa_available :: "numa_system \<Rightarrow> bool" where
  "numa_available sys \<longleftrightarrow> 1 < detect_num_nodes (sys_nodes sys)"

text \<open>The remainder panics when there are no nodes.\<close>

definition resolve_node :: "numa_system \<Rightarrow> numa_allocator \<Rightarrow> fault + u16 \<times> numa_allocator" where
  "resolve_node sys a =
     (case na_policy a of
        Fixed node \<Rightarrow> Inr (node, a)
      | RoundRobin \<Rightarrow>
          (let idx = na_rr_counter a; a1 = a\<lparr>na_rr_counter := idx + 1\<rparr>
           in if na_num_nodes a = 0 then Inl Panicked else Inr (idx mod na_num_nodes a, a1))
      | ProducerLocal \<Rightarrow> Inr (current_numa_node sys, a))"

text \<open>The mask for \<open>mbind\<close>, in 64-bit words, and the number of bits it tells the kernel.\<close>

definition build_nodemask :: "u16 \<Rightarrow> u64 list \<times> u64" where
  "build_nodemask node =
     (let word_idx = unat node div 64; bit_idx = unat node mod 64; num_words = word_idx + 1
      in ((replicate num_words 0)[word_idx := push_bit bit_idx 1], of_nat (num_words * 64 + 1)))"

text \<open>
  \<open>NumaBuffer\<close>, and the arguments of a call of \<open>mbind\<close>.  \<open>mmap\<close> gets length and huge-page flag and answers
  with an address unless it fails; \<open>mbind\<close> answers with its result and the error number.  A failed \<open>mbind\<close> is
  reported on standard error unless the number is that of a kernel without support or of a single node.
\<close>

record numa_buffer =
  nb_ptr :: usize
  nb_len :: usize
  nb_mmap_ptr :: usize
  nb_mmap_len :: usize

record mbind_call =
  mb_addr :: usize
  mb_len :: usize
  mb_mode :: int
  mb_nodemask :: "u64 list"
  mb_maxnode :: u64
  mb_flags :: int

definition MPOL_BIND :: int where
  "MPOL_BIND = 2"

definition ENOSYS :: int where
  "ENOSYS = 38"

definition EINVAL :: int where
  "EINVAL = 22"

text \<open>\<open>allocate_numa\<close>: the buffer, the call of \<open>mbind\<close> it made, and whether it printed a warning.\<close>

definition allocate_numa ::
    "bool \<Rightarrow> usize \<Rightarrow> (usize \<Rightarrow> bool \<Rightarrow> usize option) \<Rightarrow> (mbind_call \<Rightarrow> int \<times> int) \<Rightarrow> ty_layout \<Rightarrow> usize \<Rightarrow> u16 \<Rightarrow> bool \<Rightarrow>
     fault + numa_buffer \<times> mbind_call \<times> bool" where
  "allocate_numa debug page_size mmap mbind ty capacity node huge_pages =
     (case checked_mul (ty_size ty) capacity of
        None \<Rightarrow> Inl Panicked
      | Some total_bytes \<Rightarrow>
          try_bind (usize_add debug total_bytes page_size) (\<lambda>padded.
            let mmap_len = (padded - 1) AND NOT (page_size - 1)
            in if \<not> ty_align ty \<le> page_size then Inl Panicked
               else case mmap mmap_len huge_pages of
                      None \<Rightarrow> Inl Panicked
                    | Some p \<Rightarrow>
                        (let (nodemask, maxnode) = build_nodemask node;
                             call = \<lparr>mb_addr = p, mb_len = mmap_len, mb_mode = MPOL_BIND, mb_nodemask = nodemask,
                                     mb_maxnode = maxnode, mb_flags = 0\<rparr>;
                             (ret, errno) = mbind call
                         in Inr (\<lparr>nb_ptr = p, nb_len = capacity, nb_mmap_ptr = p, nb_mmap_len = mmap_len\<rparr>, call,
                                 ret \<noteq> 0 \<and> errno \<noteq> ENOSYS \<and> errno \<noteq> EINVAL))))"

text \<open>\<open>Drop\<close>: what is passed to \<open>munmap\<close>.\<close>

definition numa_drop :: "numa_buffer \<Rightarrow> usize \<times> usize" where
  "numa_drop buf = (nb_mmap_ptr buf, nb_mmap_len buf)"

definition numa_deref :: "numa_buffer \<Rightarrow> 'a slots" where
  "numa_deref buf = replicate (unat (nb_len buf)) None"

definition numa_allocate ::
    "bool \<Rightarrow> usize \<Rightarrow> (usize \<Rightarrow> bool \<Rightarrow> usize option) \<Rightarrow> (mbind_call \<Rightarrow> int \<times> int) \<Rightarrow> numa_system \<Rightarrow> ty_layout \<Rightarrow> usize \<Rightarrow>
     numa_allocator \<Rightarrow> fault + (numa_buffer \<times> mbind_call \<times> bool) \<times> numa_allocator" where
  "numa_allocate debug page_size mmap mbind sys ty capacity a =
     try_bind (resolve_node sys a) (\<lambda>(node, a1).
       try_bind (allocate_numa debug page_size mmap mbind ty capacity node (na_huge_pages a1)) (\<lambda>r. Inr (r, a1)))"

text \<open>
  The loop of \<open>Channel::new_in\<close> over the producers: every clone of the allocator shares the counter, so
  the allocator is threaded through; \<open>mmap n\<close> and \<open>mbind n\<close> answer when \<open>n\<close> more rings are to follow.  With
  each ring come its buffer and the call that bound it.
\<close>

fun numa_rings ::
    "bool \<Rightarrow> usize \<Rightarrow> (nat \<Rightarrow> usize \<Rightarrow> bool \<Rightarrow> usize option) \<Rightarrow> (nat \<Rightarrow> mbind_call \<Rightarrow> int \<times> int) \<Rightarrow> numa_system \<Rightarrow> ty_layout \<Rightarrow>
     config \<Rightarrow> nat \<Rightarrow> numa_allocator \<Rightarrow> fault + ((numa_buffer \<times> mbind_call) \<times> 'a ring) list \<times> numa_allocator" where
  "numa_rings debug page_size mmap mbind sys ty c 0 a = Inr ([], a)"
| "numa_rings debug page_size mmap mbind sys ty c (Suc n) a =
     try_bind (numa_allocate debug page_size (mmap n) (mbind n) sys ty (config_capacity c) a) (\<lambda>((buf, call, _), a1).
       try_bind (numa_rings debug page_size mmap mbind sys ty c n a1) (\<lambda>(rs, a2).
         Inr (((buf, call), ring_new_in c (\<lambda>_. numa_deref buf)) # rs, a2)))"

text \<open>A call that binds the whole mapping of a buffer to one node, with a mask the kernel reads to its end.\<close>

definition binds_to :: "numa_buffer \<Rightarrow> mbind_call \<Rightarrow> nat \<Rightarrow> bool" where
  "binds_to buf call node \<longleftrightarrow>
     (mb_addr call, mb_len call) = (nb_mmap_ptr buf, nb_mmap_len buf) \<and> mb_mode call = MPOL_BIND \<and>
     unat (mb_maxnode call) = 64 * length (mb_nodemask call) + 1 \<and>
     (\<forall>j. j < 64 * length (mb_nodemask call) \<and> bit (mb_nodemask call ! (j div 64)) (j mod 64) \<longleftrightarrow> j = node)"

text \<open>The mask selects the node and no other, and the kernel reads all of it.\<close>

lemma nodemask_selects:
  "(i < 64 * length (fst (build_nodemask node)) \<and> bit (fst (build_nodemask node) ! (i div 64)) (i mod 64)) \<longleftrightarrow> i = unat node"
  "unat (snd (build_nodemask node)) = 64 * length (fst (build_nodemask node)) + 1"
proof -
  let ?w = "unat node div 64"
  have n: "unat node < 2 ^ 16" using unsigned_less [of node] by simp
  have mask: "fst (build_nodemask node) = (replicate (?w + 1) 0)[?w := push_bit (unat node mod 64) 1]"
    by (simp add: build_nodemask_def Let_def)
  have len: "length (fst (build_nodemask node)) = ?w + 1" unfolding mask by (simp only: length_list_update length_replicate)
  have nth: "fst (build_nodemask node) ! j = (if j = ?w then push_bit (unat node mod 64) 1 else 0)" if "j < ?w + 1" for j
    using that unfolding mask by (simp add: nth_list_update del: replicate_Suc)
  show "(i < 64 * length (fst (build_nodemask node)) \<and> bit (fst (build_nodemask node) ! (i div 64)) (i mod 64)) \<longleftrightarrow> i = unat node"
  proof
    assume i: "i < 64 * length (fst (build_nodemask node)) \<and> bit (fst (build_nodemask node) ! (i div 64)) (i mod 64)"
    then have "i div 64 < ?w + 1" by (simp add: len less_mult_imp_div_less mult.commute)
    with i nth have "i div 64 = ?w" "i mod 64 = unat node mod 64"
      by (auto simp: bit_simps bit_1_iff split: if_splits)
    then show "i = unat node" by (metis mult_div_mod_eq)
  next
    assume "i = unat node"
    moreover have "unat node < 64 * (?w + 1)" by simp
    ultimately show "i < 64 * length (fst (build_nodemask node)) \<and> bit (fst (build_nodemask node) ! (i div 64)) (i mod 64)"
      using nth [of ?w] by (simp add: len bit_simps)
  qed
  have "(?w + 1) * 64 + 1 < 2 ^ 64" using n by simp
  then have "unat (of_nat ((?w + 1) * 64 + 1) :: u64) = (?w + 1) * 64 + 1" by (simp only: unat_of_nat) simp
  then show "unat (snd (build_nodemask node)) = 64 * length (fst (build_nodemask node)) + 1"
    by (simp only: len) (simp add: build_nodemask_def Let_def)
qed

text \<open>A mapping that serves the buffer: a page-aligned region of the rounded length.\<close>

definition mapped_len :: "usize \<Rightarrow> ty_layout \<Rightarrow> usize \<Rightarrow> usize" where
  "mapped_len page_size ty capacity = (ty_size ty * capacity + page_size - 1) AND NOT (page_size - 1)"

lemma allocate_numa_spec:
  assumes page: "usize_is_power_of_two page_size" "ty_align ty \<le> page_size" "usize_is_power_of_two (ty_align ty)"
    and bytes: "unat (ty_size ty) * unat capacity + unat page_size < 2 ^ 64"
    and memory: "mmap (mapped_len page_size ty capacity) huge_pages = Some p" "unat page_size dvd unat p"
  shows "\<exists>buf call warned. allocate_numa debug page_size mmap mbind ty capacity node huge_pages = Inr (buf, call, warned) \<and>
           nb_len buf = capacity \<and> binds_to buf call (unat node) \<and>
           numa_drop buf = (p, mapped_len page_size ty capacity) \<and> unat page_size dvd unat (mapped_len page_size ty capacity) \<and>
           buffer_inside ty (nb_ptr buf) (nb_len buf) (nb_mmap_ptr buf) (nb_mmap_len buf)"
proof -
  let ?t = "ty_size ty * capacity"
  have mul: "checked_mul (ty_size ty) capacity = Some ?t" using bytes by (simp add: checked_mul_def)
  have t: "unat ?t = unat (ty_size ty) * unat capacity" by (rule checked_mul_Some [OF mul])
  have fits: "unat ?t + unat page_size < 2 ^ 64" using bytes by (simp add: t)
  note r = round_up [OF page(1), of ?t, OF less_imp_le, OF fits, folded mapped_len_def]
  have "unat (ty_align ty) dvd unat p" using dvd_trans [OF power_of_two_dvd [OF page(3,1,2)] memory(2)] .
  then have inside: "buffer_inside ty p capacity p (mapped_len page_size ty capacity)"
    using r(2) by (simp add: buffer_inside_def t)
  let ?buf = "\<lparr>nb_ptr = p, nb_len = capacity, nb_mmap_ptr = p, nb_mmap_len = mapped_len page_size ty capacity\<rparr>"
  let ?call = "\<lparr>mb_addr = p, mb_len = mapped_len page_size ty capacity, mb_mode = MPOL_BIND, mb_nodemask = fst (build_nodemask node),
    mb_maxnode = snd (build_nodemask node), mb_flags = 0\<rparr>"
  have "binds_to ?buf ?call (unat node)"
    unfolding binds_to_def mbind_call.simps numa_buffer.simps using nodemask_selects by blast
  moreover have "\<exists>warned. allocate_numa debug page_size mmap mbind ty capacity node huge_pages = Inr (?buf, ?call, warned)"
    using page(2) memory(1) by (simp add: allocate_numa_def mul usize_add_fits [OF fits] Let_def mapped_len_def case_prod_unfold)
  ultimately show ?thesis using r(1) inside
    by (elim exE) (intro exI conjI, assumption, simp_all add: numa_drop_def)
qed

text \<open>
  For a type without size the request is for no bytes at all, which \<open>mmap\<close> refuses; the heap allocator
  serves it.
\<close>

lemma allocate_numa_zero_sized:
  assumes "usize_is_power_of_two page_size" "ty_size ty = 0" "mmap 0 huge_pages = None"
  shows "allocate_numa debug page_size mmap mbind ty capacity node huge_pages = Inl Panicked"
proof -
  have "(page_size - 1) AND NOT (page_size - 1) = 0" by (rule bit_word_eqI) (simp add: bit_simps)
  with assms(2,3) show ?thesis
    by (simp add: allocate_numa_def checked_mul_def usize_add_def Let_def)
qed

section \<open>Round-robin placement\<close>

lemma numa_deref_heap: "numa_deref buf = heap_allocate (nb_len buf)"
  by (simp add: numa_deref_def heap_allocate_def)

lemma ring_new_in_const: "ring_new_in c (\<lambda>_. heap_allocate (config_capacity c)) = ring_new c"
  by (simp add: ring_new_def ring_new_in_def)

text \<open>The buffer of a ring holds its elements and is bound to \<open>node\<close>.\<close>

definition ring_bound :: "ty_layout \<Rightarrow> config \<Rightarrow> numa_buffer \<times> mbind_call \<Rightarrow> nat \<Rightarrow> bool" where
  "ring_bound ty c b node \<longleftrightarrow>
     nb_len (fst b) = config_capacity c \<and> binds_to (fst b) (snd b) node \<and>
     buffer_inside ty (nb_ptr (fst b)) (nb_len (fst b)) (nb_mmap_ptr (fst b)) (nb_mmap_len (fst b))"

lemma numa_rings_spec:
  assumes page: "usize_is_power_of_two page_size" "ty_align ty \<le> page_size" "usize_is_power_of_two (ty_align ty)"
    and bytes: "unat (ty_size ty) * unat (config_capacity c) + unat page_size < 2 ^ 64"
    and memory: "\<forall>i<n. \<exists>p. mmap i (mapped_len page_size ty (config_capacity c)) (na_huge_pages a) = Some p \<and> unat page_size dvd unat p"
    and nodes: "na_policy a = RoundRobin" "na_num_nodes a \<noteq> 0" "unat (na_rr_counter a) + n \<le> 2 ^ 16"
  shows "\<exists>(rs :: ((numa_buffer \<times> mbind_call) \<times> 'b ring) list) a'. numa_rings debug page_size mmap mbind sys ty c n a = Inr (rs, a') \<and>
           length rs = n \<and> map snd rs = replicate n (ring_new c) \<and>
           (\<forall>i<n. ring_bound ty c (fst (rs ! i)) ((unat (na_rr_counter a) + i) mod unat (na_num_nodes a)))"
  using memory nodes
proof (induction n arbitrary: a)
  case 0
  then show ?case by simp
next
  case (Suc n)
  let ?idx = "na_rr_counter a" and ?a = "a\<lparr>na_rr_counter := na_rr_counter a + 1\<rparr>"
  let ?node = "?idx mod na_num_nodes a"
  obtain p where p: "mmap n (mapped_len page_size ty (config_capacity c)) (na_huge_pages a) = Some p" "unat page_size dvd unat p"
    using Suc.prems(1) by blast
  from allocate_numa_spec [where mmap = "mmap n" and mbind = "mbind n" and node = ?node and debug = debug, OF page bytes p]
  obtain buf call warned where
    buf: "allocate_numa debug page_size (mmap n) (mbind n) ty (config_capacity c) ?node (na_huge_pages a) = Inr (buf, call, warned)"
    "nb_len buf = config_capacity c" "ring_bound ty c (buf, call) (unat ?node)" by (auto simp: ring_bound_def)
  have alloc: "numa_allocate debug page_size (mmap n) (mbind n) sys ty (config_capacity c) a = Inr ((buf, call, warned), ?a)"
    using Suc.prems(2,3) buf(1) by (simp add: numa_allocate_def resolve_node_def Let_def)
  show ?case
  proof (cases "n = 0")
    case True
    with alloc buf(2,3) show ?thesis by (simp add: unat_mod numa_deref_heap ring_new_in_const)
  next
    case False
    then have "unat ?idx + 1 < 2 ^ 16" using Suc.prems(4) by simp
    then have c1: "unat (?idx + 1) = Suc (unat ?idx)" using unat_add_lem [of ?idx 1] by simp
    have pre: "\<forall>i<n. \<exists>p. mmap i (mapped_len page_size ty (config_capacity c)) (na_huge_pages ?a) = Some p \<and> unat page_size dvd unat p"
      "na_policy ?a = RoundRobin" "na_num_nodes ?a \<noteq> 0" "unat (na_rr_counter ?a) + n \<le> 2 ^ 16"
      using Suc.prems c1 by simp_all
    obtain rs :: "((numa_buffer \<times> mbind_call) \<times> 'b ring) list" and a' where
      rs: "numa_rings debug page_size mmap mbind sys ty c n ?a = Inr (rs, a')" "length rs = n" "map snd rs = replicate n (ring_new c)"
      "\<And>i. i < n \<Longrightarrow> ring_bound ty c (fst (rs ! i)) ((unat (na_rr_counter ?a) + i) mod unat (na_num_nodes ?a))"
      using Suc.IH [of ?a, OF pre] by blast
    have "ring_bound ty c (fst ((((buf, call), ring_new c) # rs) ! i)) ((unat ?idx + i) mod unat (na_num_nodes a))" if "i < Suc n" for i
      using that rs(4) c1 buf(3) by (cases i) (simp_all add: unat_mod)
    with alloc rs buf(2) show ?thesis by (simp add: numa_deref_heap ring_new_in_const)
  qed
qed

text \<open>
  The counter wraps at 65536, which is not a multiple of every number of nodes: there two rings in a row
  land on one node.
\<close>

lemma round_robin_wrap:
  "resolve_node sys \<lparr>na_policy = RoundRobin, na_num_nodes = 3, na_rr_counter = - 1, na_huge_pages = False\<rparr> =
     Inr (0, \<lparr>na_policy = RoundRobin, na_num_nodes = 3, na_rr_counter = 0, na_huge_pages = False\<rparr>)"
  "resolve_node sys \<lparr>na_policy = RoundRobin, na_num_nodes = 3, na_rr_counter = 0, na_huge_pages = False\<rparr> =
     Inr (0, \<lparr>na_policy = RoundRobin, na_num_nodes = 3, na_rr_counter = 1, na_huge_pages = False\<rparr>)"
  by (simp_all add: resolve_node_def Let_def)

lemma detect_num_nodes_pos:
  assumes "\<And>es. entries = Some es \<Longrightarrow> length es < 2 ^ 16"
  shows "detect_num_nodes entries \<noteq> 0"
proof (cases entries)
  case (Some es)
  let ?n = "length (filter (\<lambda>name. strip_prefix ''node'' name \<noteq> None) (List.map_filter item_name es))"
  have "length (List.map_filter item_name es) \<le> length es" by (simp add: map_filter_def)
  then have "?n \<le> length es" using le_trans [OF length_filter_le] by blast
  then have "?n < 2 ^ 16" using assms [OF Some] by simp
  then have "unat (of_nat ?n :: u16) = ?n" by (simp add: unat_of_nat)
  then have "0 < ?n \<Longrightarrow> (of_nat ?n :: u16) \<noteq> 0" by (metis less_irrefl unat_0)
  with Some show ?thesis by (simp add: detect_num_nodes_def Let_def)
qed (simp add: detect_num_nodes_def)

section \<open>The allocator contracts\<close>

text \<open>
  C31. \<open>AlignedAllocator::allocate\<close>.  When the padded size of the buffer is within what a vector may
  hold and the memory obtained does not reach the end of the address space, the allocation succeeds in
  both builds: the pointer is a multiple of \<open>ALIGN\<close> and of the type's alignment, all elements lie inside
  the bytes obtained, and the buffer has exactly the requested number of empty slots, as one from the
  heap allocator has.
\<close>

theorem aligned_buffer_in_bounds:
  assumes "usize_is_power_of_two ALIGN" "ty_align ty \<le> ALIGN" "usize_is_power_of_two (ty_align ty)"
    and "0 < unat (ty_size ty) * unat capacity" "unat (ty_size ty) * unat capacity + unat ALIGN \<le> 2 ^ 63"
    and "vec_alloc (ty_size ty * capacity + ALIGN - 1) = Inr raw"
    and "unat raw + unat (ty_size ty * capacity + ALIGN - 1) < 2 ^ 64"
  shows "\<exists>buf. aligned_allocate debug vec_alloc ALIGN ty capacity = Inr buf \<and>
           fst (ab_backing buf) = raw \<and> unat ALIGN dvd unat (ab_ptr buf) \<and>
           buffer_inside ty (ab_ptr buf) (ab_len buf) (fst (ab_backing buf)) (snd (ab_backing buf)) \<and>
           aligned_deref buf = heap_allocate capacity"
  using aligned_allocate_spec [where vec_alloc = vec_alloc, OF assms, of debug] by (auto simp: aligned_deref_heap)

theorem aligned_buffer_in_bounds_witness:
  "\<exists>buf. aligned_allocate True (\<lambda>_. Inr 1001) 64 \<lparr>ty_size = 8, ty_align = 8\<rparr> 4 = Inr buf \<and>
     fst (ab_backing buf) = 1001 \<and> 64 dvd unat (ab_ptr buf) \<and>
     buffer_inside \<lparr>ty_size = 8, ty_align = 8\<rparr> (ab_ptr buf) (ab_len buf) (fst (ab_backing buf)) (snd (ab_backing buf)) \<and>
     aligned_deref buf = (heap_allocate 4 :: nat slots)"
  using aligned_buffer_in_bounds [of 64 "\<lparr>ty_size = 8, ty_align = 8\<rparr>" 4 "\<lambda>_. Inr 1001" 1001 True]
  by (simp add: usize_is_power_of_two_def upt_rec)

text \<open>
  C34. \<open>Channel::new_numa\<close> with the round-robin policy.  When the kernel maps the page-aligned memory that
  is asked for and there are at most 65536 producers, the channel gets the same rings as one on the heap,
  and the buffer of each lies aligned inside its mapping.  For producer \<open>i\<close> one call of \<open>mbind\<close> is made: it
  covers exactly the mapping of that producer's buffer, and its mask, of which the kernel is told the full
  length, names node \<open>i\<close> modulo the number of nodes and no other.
\<close>

theorem numa_channel_placement:
  assumes page: "usize_is_power_of_two page_size" "ty_align ty \<le> page_size" "usize_is_power_of_two (ty_align ty)"
    and bytes: "unat (ty_size ty) * unat (config_capacity c) + unat page_size < 2 ^ 64"
    and memory: "\<forall>i<unat (max_producers c). \<exists>p. mmap i (mapped_len page_size ty (config_capacity c)) False = Some p \<and> unat page_size dvd unat p"
    and producers: "unat (max_producers c) \<le> 2 ^ 16"
    and listing: "\<forall>es. sys_nodes sys = Some es \<longrightarrow> length es < 2 ^ 16"
  shows "\<exists>(rs :: ((numa_buffer \<times> mbind_call) \<times> 'a ring) list) a'.
           numa_rings debug page_size mmap mbind sys ty c (unat (max_producers c)) (numa_new sys RoundRobin) = Inr (rs, a') \<and>
           map snd rs = ch_rings (channel_new debug c) \<and>
           (\<forall>i<length rs. ring_bound ty c (fst (rs ! i)) (i mod unat (detect_num_nodes (sys_nodes sys))))"
proof -
  let ?n = "unat (max_producers c)" and ?a = "numa_new sys RoundRobin"
  have "detect_num_nodes (sys_nodes sys) \<noteq> 0" using listing by (intro detect_num_nodes_pos) blast
  then have pre: "na_policy ?a = RoundRobin" "na_num_nodes ?a \<noteq> 0" "unat (na_rr_counter ?a) + ?n \<le> 2 ^ 16"
    using producers by (simp_all add: numa_new_def)
  have "\<forall>i<?n. \<exists>p. mmap i (mapped_len page_size ty (config_capacity c)) (na_huge_pages ?a) = Some p \<and> unat page_size dvd unat p"
    using memory by (simp add: numa_new_def)
  from numa_rings_spec [where mmap = mmap and mbind = mbind, OF page bytes this pre, of debug sys]
  obtain rs :: "((numa_buffer \<times> mbind_call) \<times> 'a ring) list" and a' where
    rs: "numa_rings debug page_size mmap mbind sys ty c ?n ?a = Inr (rs, a')" "length rs = ?n" "map snd rs = replicate ?n (ring_new c)"
      "\<forall>i<?n. ring_bound ty c (fst (rs ! i)) ((unat (na_rr_counter ?a) + i) mod unat (na_num_nodes ?a))"
    by blast
  have "map snd rs = ch_rings (channel_new debug c)"
    using rs(3) by (simp add: channel_new_def channel_new_in_def ring_new_def)
  with rs(1,2,4) show ?thesis by (intro exI [of _ rs] exI [of _ a']) (simp add: numa_new_def)
qed

definition sample_numa :: numa_system where
  "sample_numa = \<lparr>sys_cpu = 0, sys_cpu_dir = (\<lambda>_. None), sys_mempolicy = (0, 0),
     sys_nodes = Some [Item_Name ''node0'', Item_Name ''possible'', Item_Name ''node1'']\<rparr>"

theorem numa_channel_placement_witness:
  "\<exists>(rs :: ((numa_buffer \<times> mbind_call) \<times> nat ring) list) a'.
     numa_rings True 4096 (\<lambda>i _ _. Some (4096 * (of_nat i + 1))) (\<lambda>_ _. (0, 0)) sample_numa \<lparr>ty_size = 8, ty_align = 8\<rparr>
       \<lparr>ring_bits = 2, max_producers = 3, enable_metrics = False\<rparr> 3 (numa_new sample_numa RoundRobin) = Inr (rs, a') \<and>
     map snd rs = ch_rings (channel_new True \<lparr>ring_bits = 2, max_producers = 3, enable_metrics = False\<rparr>) \<and>
     (\<forall>i<length rs. ring_bound \<lparr>ty_size = 8, ty_align = 8\<rparr> \<lparr>ring_bits = 2, max_producers = 3, enable_metrics = False\<rparr> (fst (rs ! i)) (i mod 2))"
proof -
  let ?c = "\<lparr>ring_bits = 2, max_producers = 3, enable_metrics = False\<rparr>" and ?ty = "\<lparr>ty_size = 8, ty_align = 8\<rparr>"
  have "unat (4096 * (of_nat i + 1) :: usize) = 4096 * (i + 1)" if "i < 3" for i
    using that by (auto simp: numeral_3_eq_3 less_Suc_eq)
  then have "\<forall>i<3. \<exists>p. Some (4096 * (of_nat i + 1) :: usize) = Some p \<and> 4096 dvd unat p" by simp
  moreover have "detect_num_nodes (sys_nodes sample_numa) = 2" by code_simp
  ultimately show ?thesis
    using numa_channel_placement [of 4096 ?ty ?c "\<lambda>i _ _. Some (4096 * (of_nat i + 1))" sample_numa True "\<lambda>_ _. (0, 0)"]
    by (simp add: usize_is_power_of_two_def upt_rec config_capacity_def sample_numa_def)
qed

end
