(* ===== verification/Wal_Recovery.thy ===== *)
theory Wal_Recovery
  imports Wal_Segment "HOL-Library.AList"
begin

text \<open>
  Recovery, checkpoints and truncation (\<open>recovery.rs\<close>).  \<open>crc\<close> is the checksum, \<open>deser\<close> bincode's
  decoder for the entry type, \<open>hash_order\<close> the iteration order of the \<open>HashSet\<close> of transaction ids,
  which the code depends on and the language leaves open.  The lemmas show that the reader
  recovers exactly the entries a writer framed, also in front of a torn or arbitrary tail, and
  what the classification of transactions computes.
\<close>

datatype recovery_action = Act_Commit | Act_Rollback | Act_Incomplete

record recovery_stats =
  total_transactions :: nat
  committed :: nat
  aborted :: nat
  incomplete :: nat
  partial_writes :: nat
  checksum_failures :: nat

definition stats_default :: recovery_stats where
  "stats_default = \<lparr>total_transactions = 0, committed = 0, aborted = 0, incomplete = 0,
     partial_writes = 0, checksum_failures = 0\<rparr>"

record 'e recovered_transaction =
  rt_tx_id :: u64
  rt_action :: recovery_action
  rt_entries :: "'e list"

section \<open>Reading one segment\<close>

definition note_partial :: "recovery_stats \<Rightarrow> recovery_stats" where
  "note_partial st = st\<lparr>partial_writes := partial_writes st + 1\<rparr>"

definition note_checksum :: "recovery_stats \<Rightarrow> recovery_stats" where
  "note_checksum st = st\<lparr>checksum_failures := checksum_failures st + 1\<rparr>"

text \<open>
  The loop of \<open>read_segment_entries\<close>: \<open>rest\<close> is what the handle has not delivered yet, \<open>offset\<close> how
  far it is, \<open>file_len\<close> the length \<open>metadata_len\<close> reported.  \<open>offset + header.length\<close> is a 64-bit
  addition of a length that was read from the file: when it overflows, a debug build panics on the
  addition and a release build on the allocation of the buffer, whose size then exceeds
  \<open>isize::MAX\<close>.
\<close>

function read_entries_loop ::
    "(bytes \<Rightarrow> u32) \<Rightarrow> (bytes \<Rightarrow> 'e option) \<Rightarrow> nat \<Rightarrow> nat \<Rightarrow> bytes \<Rightarrow> 'e list \<Rightarrow> recovery_stats \<Rightarrow>
     fault + 'e list \<times> recovery_stats" where
  "read_entries_loop crc deser file_len offset rest entries st =
     (if file_len < offset + HEADER_SIZE
      then Inr (entries, if offset < file_len then note_partial st else st)
      else if length rest < HEADER_SIZE then Inr (entries, note_partial st)
      else
        (let header = header_from_bytes (take HEADER_SIZE rest);
             offset' = offset + HEADER_SIZE;
             len = unat (h_length header);
             rest' = drop HEADER_SIZE rest
         in if 2 ^ 64 \<le> offset' + len then Inl Panicked
            else if file_len < offset' + len then Inr (entries, note_partial st)
            else if length rest' < len then Inr (entries, note_partial st)
            else
              (let data = take len rest'
               in case header_validate crc header data of
                    Inl _ \<Rightarrow> Inr (entries, note_checksum st)
                  | Inr _ \<Rightarrow>
                      (case deser data of
                         None \<Rightarrow> Inr (entries, note_checksum st)
                       | Some e \<Rightarrow>
                           read_entries_loop crc deser file_len (offset' + len) (drop len rest')
                             (entries @ [e]) st))))"
  by pat_completeness auto
termination
  by (relation "measure (\<lambda>(crc, deser, fl, off, rest, es, st). length rest)") (auto simp: HEADER_SIZE_def)

declare read_entries_loop.simps [simp del]

text \<open>What a function of this file can end in besides a value: a panic or a \<open>WalError\<close>.\<close>

datatype recover_error = Fault fault | Failed wal_error

definition read_segment_entries ::
    "(bytes \<Rightarrow> u32) \<Rightarrow> (bytes \<Rightarrow> 'e option) \<Rightarrow> 'fs io_engine \<Rightarrow> path \<Rightarrow> 'e list \<Rightarrow> recovery_stats \<Rightarrow> 'fs \<Rightarrow>
     (recover_error + 'e list \<times> recovery_stats) \<times> 'fs" where
  "read_segment_entries crc deser eng p entries st fs =
     (case e_open_read eng p fs of
        (Inl NotFound, fs1) \<Rightarrow> (Inr (entries, st), fs1)
      | (Inl e, fs1) \<Rightarrow> (Inl (Failed (Io e)), fs1)
      | (Inr (file_len, content), fs1) \<Rightarrow>
          (case read_entries_loop crc deser (unat file_len) 0 content entries st of
             Inl f \<Rightarrow> (Inl (Fault f), fs1)
           | Inr r \<Rightarrow> (Inr r, fs1)))"

fun read_segments ::
    "(bytes \<Rightarrow> u32) \<Rightarrow> (bytes \<Rightarrow> 'e option) \<Rightarrow> 'fs io_engine \<Rightarrow> path \<Rightarrow> u64 list \<Rightarrow> 'e list \<Rightarrow> recovery_stats \<Rightarrow>
     'fs \<Rightarrow> (recover_error + 'e list \<times> recovery_stats) \<times> 'fs" where
  "read_segments crc deser eng dir [] entries st fs = (Inr (entries, st), fs)"
| "read_segments crc deser eng dir (i # ids) entries st fs =
     (case read_segment_entries crc deser eng (segment_path dir i) entries st fs of
        (Inl e, fs1) \<Rightarrow> (Inl e, fs1)
      | (Inr (entries', st'), fs1) \<Rightarrow> read_segments crc deser eng dir ids entries' st' fs1)"

section \<open>Classification\<close>

text \<open>The two hash maps and the running maximum.\<close>

record 'e tx_tables =
  tt_entries :: "(u64 \<times> 'e list) list"
  tt_status :: "(u64 \<times> recovery_action) list"
  tt_max :: u64

definition classify_entry ::
    "('k, 'v) wal_entry \<Rightarrow> ('k, 'v) wal_entry tx_tables \<Rightarrow> ('k, 'v) wal_entry tx_tables" where
  "classify_entry e t =
     (let i = tx_id e; t1 = (if tt_max t < i then t\<lparr>tt_max := i\<rparr> else t)
      in if is_commit e then t1\<lparr>tt_status := AList.update i Act_Commit (tt_status t1)\<rparr>
         else if is_abort e then t1\<lparr>tt_status := AList.update i Act_Rollback (tt_status t1)\<rparr>
         else t1\<lparr>tt_entries := AList.map_default i [e] (\<lambda>es. es @ [e]) (tt_entries t1)\<rparr>)"

definition classify :: "('k, 'v) wal_entry list \<Rightarrow> ('k, 'v) wal_entry tx_tables" where
  "classify entries = foldl (\<lambda>t e. classify_entry e t) \<lparr>tt_entries = [], tt_status = [], tt_max = 0\<rparr> entries"

definition count_action :: "recovery_action \<Rightarrow> recovery_stats \<Rightarrow> recovery_stats" where
  "count_action a st =
     (case a of Act_Commit \<Rightarrow> st\<lparr>committed := committed st + 1\<rparr>
      | Act_Rollback \<Rightarrow> st\<lparr>aborted := aborted st + 1\<rparr>
      | Act_Incomplete \<Rightarrow> st\<lparr>incomplete := incomplete st + 1\<rparr>)"

definition build_transaction :: "'e tx_tables \<Rightarrow> u64 \<Rightarrow> 'e recovered_transaction" where
  "build_transaction t i =
     \<lparr>rt_tx_id = i,
      rt_action = (case map_of (tt_status t) i of None \<Rightarrow> Act_Incomplete | Some a \<Rightarrow> a),
      rt_entries = (case map_of (tt_entries t) i of None \<Rightarrow> [] | Some es \<Rightarrow> es)\<rparr>"

text \<open>
  \<open>recover\<close>: also returns the value the global transaction counter is reset to, when it is.
\<close>

definition recover ::
    "(bytes \<Rightarrow> u32) \<Rightarrow> (bytes \<Rightarrow> ('k, 'v) wal_entry option) \<Rightarrow> (u64 list \<Rightarrow> u64 list) \<Rightarrow> 'fs io_engine \<Rightarrow> path \<Rightarrow> 'fs \<Rightarrow>
     (recover_error + ('k, 'v) wal_entry recovered_transaction list \<times> recovery_stats \<times> u64 option) \<times> 'fs" where
  "recover crc deser hash_order eng dir fs =
     (case discover_segment_ids eng dir fs of
        Inl e \<Rightarrow> (Inl (Failed e), fs)
      | Inr found \<Rightarrow>
          (case read_segments crc deser eng dir (sort found) [] stats_default fs of
             (Inl e, fs1) \<Rightarrow> (Inl e, fs1)
           | (Inr (all_entries, st), fs1) \<Rightarrow>
               (let t = classify all_entries;
                    all_tx_ids = hash_order (remdups (map fst (tt_entries t) @ map fst (tt_status t)));
                    recovered = map (build_transaction t) all_tx_ids;
                    st' = foldl (\<lambda>st r. count_action (rt_action r) st) st recovered
                in (Inr (recovered, st'\<lparr>total_transactions := length recovered\<rparr>,
                         if 0 < tt_max t then Some (tt_max t + 1) else None), fs1))))"

section \<open>Checkpoints\<close>

definition write_checkpoint :: "'fs io_engine \<Rightarrow> path \<Rightarrow> u64 \<Rightarrow> 'fs \<Rightarrow> (wal_error + unit) \<times> 'fs" where
  "write_checkpoint eng dir lsn fs =
     io_try (e_write_file_bytes eng (dir @ [''checkpoint'']) (u64_to_le_bytes lsn) fs) (\<lambda>_ fs1. (Inr (), fs1))"

definition read_checkpoint :: "'fs io_engine \<Rightarrow> path \<Rightarrow> 'fs \<Rightarrow> wal_error + u64" where
  "read_checkpoint eng dir fs =
     (case e_read_file_bytes eng (dir @ [''checkpoint'']) fs of
        Inr data \<Rightarrow> if length data = 8 then Inr (u64_from_le_bytes data) else Inr 0
      | Inl NotFound \<Rightarrow> Inr 0
      | Inl e \<Rightarrow> Inl (Io e))"

definition committed_ids :: "'e recovered_transaction list \<Rightarrow> u64 list" where
  "committed_ids recovered = map rt_tx_id (filter (\<lambda>t. rt_action t = Act_Commit) recovered)"

definition checkpoint ::
    "(bytes \<Rightarrow> u32) \<Rightarrow> (bytes \<Rightarrow> ('k, 'v) wal_entry option) \<Rightarrow> (u64 list \<Rightarrow> u64 list) \<Rightarrow> 'fs io_engine \<Rightarrow> path \<Rightarrow> 'fs \<Rightarrow>
     (recover_error + u64) \<times> 'fs" where
  "checkpoint crc deser hash_order eng dir fs =
     (case read_checkpoint eng dir fs of
        Inl e \<Rightarrow> (Inl (Failed e), fs)
      | Inr current_lsn \<Rightarrow>
          (case recover crc deser hash_order eng dir fs of
             (Inl e, fs1) \<Rightarrow> (Inl e, fs1)
           | (Inr (recovered, _, _), fs1) \<Rightarrow>
               (let ids = committed_ids recovered
                in if ids \<noteq> [] \<and> current_lsn < Max (set ids)
                   then (case write_checkpoint eng dir (Max (set ids)) fs1 of
                           (Inl e, fs2) \<Rightarrow> (Inl (Failed e), fs2)
                         | (Inr _, fs2) \<Rightarrow> (Inr (Max (set ids)), fs2))
                   else (Inl (Failed NoNewCheckpoints), fs1))))"

section \<open>Truncation\<close>

text \<open>
  \<open>read_segment_max_tx_id\<close>: the same walk, with the decoder fixed to \<open>ByteWalEntry\<close>; an entry that
  does not decode is skipped instead of ending the walk.
\<close>

function max_tx_id_loop ::
    "(bytes \<Rightarrow> u32) \<Rightarrow> (bytes \<Rightarrow> (string, bytes) wal_entry option) \<Rightarrow> nat \<Rightarrow> nat \<Rightarrow> bytes \<Rightarrow> u64 \<Rightarrow> fault + u64" where
  "max_tx_id_loop crc deser file_len offset rest m =
     (if file_len < offset + HEADER_SIZE \<or> length rest < HEADER_SIZE then Inr m
      else
        (let header = header_from_bytes (take HEADER_SIZE rest);
             offset' = offset + HEADER_SIZE;
             len = unat (h_length header);
             rest' = drop HEADER_SIZE rest
         in if 2 ^ 64 \<le> offset' + len then Inl Panicked
            else if file_len < offset' + len \<or> length rest' < len then Inr m
            else
              (case header_validate crc header (take len rest') of
                 Inl _ \<Rightarrow> Inr m
               | Inr _ \<Rightarrow>
                   max_tx_id_loop crc deser file_len (offset' + len) (drop len rest')
                     (case deser (take len rest') of None \<Rightarrow> m | Some e \<Rightarrow> max m (tx_id e)))))"
  by pat_completeness auto
termination
  by (relation "measure (\<lambda>(crc, deser, fl, off, rest, m). length rest)") (auto simp: HEADER_SIZE_def)

declare max_tx_id_loop.simps [simp del]

definition read_segment_max_tx_id ::
    "(bytes \<Rightarrow> u32) \<Rightarrow> (bytes \<Rightarrow> (string, bytes) wal_entry option) \<Rightarrow> 'fs io_engine \<Rightarrow> path \<Rightarrow> 'fs \<Rightarrow>
     (recover_error + u64) \<times> 'fs" where
  "read_segment_max_tx_id crc deser eng p fs =
     (case e_open_read eng p fs of
        (Inl NotFound, fs1) \<Rightarrow> (Inr 0, fs1)
      | (Inl e, fs1) \<Rightarrow> (Inl (Failed (Io e)), fs1)
      | (Inr (file_len, content), fs1) \<Rightarrow>
          (case max_tx_id_loop crc deser (unat file_len) 0 content 0 of
             Inl f \<Rightarrow> (Inl (Fault f), fs1)
           | Inr m \<Rightarrow> (Inr m, fs1)))"

fun truncate_candidates ::
    "(bytes \<Rightarrow> u32) \<Rightarrow> (bytes \<Rightarrow> (string, bytes) wal_entry option) \<Rightarrow> 'fs io_engine \<Rightarrow> path \<Rightarrow> u64 \<Rightarrow> u64 list \<Rightarrow> nat \<Rightarrow>
     'fs \<Rightarrow> (recover_error + nat) \<times> 'fs" where
  "truncate_candidates crc deser eng dir lsn [] removed fs = (Inr removed, fs)"
| "truncate_candidates crc deser eng dir lsn (i # ids) removed fs =
     (case read_segment_max_tx_id crc deser eng (segment_path dir i) fs of
        (Inl e, fs1) \<Rightarrow> (Inl e, fs1)
      | (Inr m, fs1) \<Rightarrow>
          if 0 < m \<and> m < lsn
          then truncate_candidates crc deser eng dir lsn ids (removed + 1)
                 (snd (e_remove_file eng (segment_path dir i) fs1))
          else truncate_candidates crc deser eng dir lsn ids removed fs1)"

definition truncate_segments_before ::
    "(bytes \<Rightarrow> u32) \<Rightarrow> (bytes \<Rightarrow> (string, bytes) wal_entry option) \<Rightarrow> 'fs io_engine \<Rightarrow> path \<Rightarrow> u64 \<Rightarrow> 'fs \<Rightarrow>
     (recover_error + nat) \<times> 'fs" where
  "truncate_segments_before crc deser eng dir checkpoint_lsn fs =
     (case discover_segment_ids eng dir fs of
        Inl e \<Rightarrow> (Inl (Failed e), fs)
      | Inr found \<Rightarrow>
          (let ids = sort found
           in if length ids \<le> 1 then (Inr 0, fs)
              else truncate_candidates crc deser eng dir checkpoint_lsn (butlast ids) 0 fs))"

section \<open>What the reader recovers\<close>

lemma read_one_frame:
  assumes e: "deser data = Some e" and len: "offset + length (frame crc data @ suf) = file_len"
    and small: "file_len < 2 ^ 64"
  shows "read_entries_loop crc deser file_len offset (frame crc data @ suf) entries st =
         read_entries_loop crc deser file_len (offset + length (frame crc data)) suf (entries @ [e]) st"
proof -
  have hd: "header_from_bytes (take HEADER_SIZE (frame crc data @ suf)) = header_new crc data"
    using header_roundtrip [of "header_new crc data" "[]"] by (simp add: frame_def)
  have "length data < 2 ^ 64" using len small by (simp add: HEADER_SIZE_def)
  then have l: "unat (h_length (header_new crc data)) = length data"
    by (simp add: header_new_def unat_of_nat)
  have dr: "drop HEADER_SIZE (frame crc data @ suf) = data @ suf" by (simp add: frame_def)
  have v: "header_validate crc (header_new crc data) data = Inr ()"
    by (simp add: header_validate_def header_new_def)
  have ok: "\<not> file_len < offset + HEADER_SIZE" "\<not> length (frame crc data @ suf) < HEADER_SIZE"
    "\<not> 2 ^ 64 \<le> offset + HEADER_SIZE + length data" "\<not> file_len < offset + HEADER_SIZE + length data"
    using len small by (auto simp: HEADER_SIZE_def)
  show ?thesis
    unfolding read_entries_loop.simps [of crc deser file_len offset "frame crc data @ suf"] Let_def hd l dr
    using ok by (simp add: v e add.assoc)
qed

text \<open>A file that consists of frames, followed by anything.\<close>

lemma read_frames:
  assumes "list_all2 (\<lambda>d e. deser d = Some e) datas es"
    "offset + length (concat (map (frame crc) datas) @ suf) = file_len" "file_len < 2 ^ 64"
  shows "read_entries_loop crc deser file_len offset (concat (map (frame crc) datas) @ suf) entries st =
         read_entries_loop crc deser file_len (file_len - length suf) suf (entries @ es) st"
  using assms
proof (induction datas es arbitrary: offset entries rule: list_all2_induct)
  case Nil
  then have "offset = file_len - length suf" by simp
  then show ?case by simp
next
  case (Cons d ds e es)
  have "read_entries_loop crc deser file_len offset (frame crc d @ (concat (map (frame crc) ds) @ suf)) entries st =
        read_entries_loop crc deser file_len (offset + length (frame crc d)) (concat (map (frame crc) ds) @ suf)
          (entries @ [e]) st"
    using Cons.prems by (intro read_one_frame [where deser = deser and data = d and e = e]) (simp_all add: Cons.hyps(1))
  moreover have "offset + length (frame crc d) + length (concat (map (frame crc) ds) @ suf) = file_len"
    using Cons.prems by simp
  ultimately show ?case
    using Cons.IH [of "offset + length (frame crc d)" "entries @ [e]"] Cons.prems by simp
qed

lemma read_end: "file_len - 0 = offset \<Longrightarrow> read_entries_loop crc deser file_len offset [] entries st = Inr (entries, st)"
  by (simp add: read_entries_loop.simps HEADER_SIZE_def)

lemma read_all_frames:
  assumes "list_all2 (\<lambda>d e. deser d = Some e) datas es" "length (concat (map (frame crc) datas)) < 2 ^ 64"
  shows "read_entries_loop crc deser (length (concat (map (frame crc) datas))) 0 (concat (map (frame crc) datas))
           entries st = Inr (entries @ es, st)"
  using read_frames [OF assms(1), of 0 crc "[]" _ entries st] assms(2) by (simp add: read_end)

text \<open>A proper, non-empty prefix of a frame at the end is noticed and counted, not decoded.\<close>

lemma read_torn_frame:
  assumes torn: "frame crc data = torn @ missing" "torn \<noteq> []" "missing \<noteq> []"
    and small: "offset + length (frame crc data) < 2 ^ 64"
  shows "read_entries_loop crc deser (offset + length torn) offset torn entries st = Inr (entries, note_partial st)"
proof (cases "length torn < HEADER_SIZE")
  case True
  then show ?thesis using torn(2) by (simp add: read_entries_loop.simps)
next
  case False
  let ?h = "header_new crc data"
  have "take HEADER_SIZE torn = take HEADER_SIZE (frame crc data)" using torn(1) False by simp
  then have hd: "header_from_bytes (take HEADER_SIZE torn) = ?h"
    using header_roundtrip [of ?h "[]"] by (simp add: frame_def)
  have l: "unat (h_length ?h) = length data"
    using small by (simp add: header_new_def unat_of_nat)
  have "length torn < HEADER_SIZE + length data"
    using arg_cong [OF torn(1), of length] torn(3) by (cases missing) auto
  then show ?thesis
    using False small by (simp add: read_entries_loop.simps [of crc deser _ offset] Let_def hd l add.assoc)
qed

text \<open>Whatever follows, the loop only ever adds entries at the end.\<close>

lemma read_extends:
  "read_entries_loop crc deser file_len offset rest entries st = Inr (entries', st') \<Longrightarrow> \<exists>more_es. entries' = entries @ more_es"
proof (induction crc deser file_len offset rest entries st arbitrary: entries' st' rule: read_entries_loop.induct)
  case (1 crc deser file_len offset rest entries st)
  let ?h = "header_from_bytes (take HEADER_SIZE rest)" and ?rest = "drop HEADER_SIZE rest"
  let ?len = "unat (h_length ?h)"
  let ?data = "take ?len ?rest"
  note unfold = read_entries_loop.simps [of crc deser file_len offset rest entries st]
  show ?case
  proof (cases "(file_len < offset + HEADER_SIZE \<or> length rest < HEADER_SIZE) \<or>
      2 ^ 64 \<le> offset + HEADER_SIZE + ?len \<or> file_len < offset + HEADER_SIZE + ?len \<or> length ?rest < ?len \<or>
      header_validate crc ?h ?data \<noteq> Inr () \<or> deser ?data = None")
    case True
    then show ?thesis
      using "1.prems" unfolding unfold Let_def by (auto split: if_splits sum.splits option.splits)
  next
    case False
    then obtain e where e: "deser ?data = Some e" by auto
    have "read_entries_loop crc deser file_len (offset + HEADER_SIZE + ?len) (drop ?len ?rest) (entries @ [e]) st =
          Inr (entries', st')"
      using "1.prems" False e unfolding unfold Let_def by simp
    from "1.IH" [OF _ _ refl refl refl refl _ _ _ refl _ e this] False show ?thesis by auto
  qed
qed

section \<open>What the classification computes\<close>

definition is_marker :: "('k, 'v) wal_entry \<Rightarrow> bool" where
  "is_marker e \<longleftrightarrow> is_commit e \<or> is_abort e"

text \<open>The last marker of a transaction decides; its other entries are kept in log order.\<close>

definition outcome :: "('k, 'v) wal_entry list \<Rightarrow> u64 \<Rightarrow> recovery_action" where
  "outcome es i =
     (case rev (filter (\<lambda>e. tx_id e = i \<and> is_marker e) es) of
        [] \<Rightarrow> Act_Incomplete
      | e # _ \<Rightarrow> if is_commit e then Act_Commit else Act_Rollback)"

definition data_of :: "('k, 'v) wal_entry list \<Rightarrow> u64 \<Rightarrow> ('k, 'v) wal_entry list" where
  "data_of es i = filter (\<lambda>e. tx_id e = i \<and> \<not> is_marker e) es"

lemma classify_snoc: "classify (es @ [e]) = classify_entry e (classify es)"
  by (simp add: classify_def)

lemma classify_status:
  "map_of (tt_status (classify es)) i =
     (if filter (\<lambda>e. tx_id e = i \<and> is_marker e) es = [] then None else Some (outcome es i))"
proof (induction es rule: rev_induct)
  case Nil
  then show ?case by (simp add: classify_def)
next
  case (snoc e es)
  have "\<not> (is_commit e \<and> is_abort e)" by (cases e) auto
  with snoc show ?case
    by (auto simp: classify_snoc classify_entry_def Let_def update_conv' is_marker_def outcome_def)
qed

lemma map_of_map_default:
  "map_of (AList.map_default k v f xs) i =
     (if i = k then Some (case map_of xs k of None \<Rightarrow> v | Some x \<Rightarrow> f x) else map_of xs i)"
  by (induction xs) (auto split: if_splits)

lemma classify_entries:
  "map_of (tt_entries (classify es)) i = (if data_of es i = [] then None else Some (data_of es i))"
proof (induction es rule: rev_induct)
  case Nil
  then show ?case by (simp add: classify_def data_of_def)
next
  case (snoc e es)
  then show ?case
    by (auto simp: classify_snoc classify_entry_def Let_def map_of_map_default is_marker_def data_of_def
        split: option.splits)
qed

lemma classify_ids:
  "set (map fst (tt_entries (classify es)) @ map fst (tt_status (classify es))) = set (map tx_id es)"
proof -
  have "i \<in> set (map fst (tt_entries (classify es)) @ map fst (tt_status (classify es))) \<longleftrightarrow>
        data_of es i \<noteq> [] \<or> filter (\<lambda>e. tx_id e = i \<and> is_marker e) es \<noteq> []" for i
    using map_of_eq_None_iff [of "tt_entries (classify es)" i] map_of_eq_None_iff [of "tt_status (classify es)" i]
    unfolding classify_entries classify_status by (auto split: if_splits)
  moreover have "data_of es i \<noteq> [] \<or> filter (\<lambda>e. tx_id e = i \<and> is_marker e) es \<noteq> [] \<longleftrightarrow> i \<in> set (map tx_id es)" for i
    by (auto simp: data_of_def filter_empty_conv image_iff)
  ultimately show ?thesis by blast
qed

lemma classify_max: "(\<forall>e\<in>set es. tx_id e \<le> tt_max (classify es)) \<and> (tt_max (classify es) = 0 \<or> tt_max (classify es) \<in> tx_id ` set es)"
proof (induction es rule: rev_induct)
  case Nil
  then show ?case by (simp add: classify_def)
next
  case (snoc e es)
  have "tt_max (classify (es @ [e])) = (if tt_max (classify es) < tx_id e then tx_id e else tt_max (classify es))"
    by (simp add: classify_snoc classify_entry_def Let_def)
  with snoc show ?case by (auto simp: not_less intro: order.trans dest: less_imp_le)
qed

lemma build_transaction_classify:
  "build_transaction (classify es) i = \<lparr>rt_tx_id = i, rt_action = outcome es i, rt_entries = data_of es i\<rparr>"
  by (auto simp: build_transaction_def classify_status classify_entries outcome_def)

text \<open>The order of a hash set is some arrangement of its elements.\<close>

definition hash_set_order :: "(u64 list \<Rightarrow> u64 list) \<Rightarrow> bool" where
  "hash_set_order ho \<longleftrightarrow> (\<forall>xs. distinct xs \<longrightarrow> distinct (ho xs) \<and> set (ho xs) = set xs)"

lemma count_actions:
  "committed (foldl (\<lambda>st r. count_action (rt_action r) st) st rs) =
     committed st + length (filter (\<lambda>r. rt_action r = Act_Commit) rs)"
  "aborted (foldl (\<lambda>st r. count_action (rt_action r) st) st rs) =
     aborted st + length (filter (\<lambda>r. rt_action r = Act_Rollback) rs)"
  "incomplete (foldl (\<lambda>st r. count_action (rt_action r) st) st rs) =
     incomplete st + length (filter (\<lambda>r. rt_action r = Act_Incomplete) rs)"
  "partial_writes (foldl (\<lambda>st r. count_action (rt_action r) st) st rs) = partial_writes st"
  "checksum_failures (foldl (\<lambda>st r. count_action (rt_action r) st) st rs) = checksum_failures st"
  by (induction rs arbitrary: st) (auto simp: count_action_def split: recovery_action.splits)

text \<open>What \<open>recover\<close> returns once the segments have been read.\<close>

lemma recover_spec:
  assumes "discover_segment_ids eng dir fs = Inr found"
    "read_segments crc deser eng dir (sort found) [] stats_default fs = (Inr (es, st), fs1)"
    "hash_set_order ho"
  shows "\<exists>rs st' reset. recover crc deser ho eng dir fs = (Inr (rs, st', reset), fs1) \<and>
           distinct (map rt_tx_id rs) \<and> set (map rt_tx_id rs) = set (map tx_id es) \<and>
           (\<forall>r\<in>set rs. rt_action r = outcome es (rt_tx_id r) \<and> rt_entries r = data_of es (rt_tx_id r)) \<and>
           total_transactions st' = length rs \<and>
           committed st' = committed st + length (filter (\<lambda>r. rt_action r = Act_Commit) rs) \<and>
           aborted st' = aborted st + length (filter (\<lambda>r. rt_action r = Act_Rollback) rs) \<and>
           incomplete st' = incomplete st + length (filter (\<lambda>r. rt_action r = Act_Incomplete) rs) \<and>
           partial_writes st' = partial_writes st \<and> checksum_failures st' = checksum_failures st \<and>
           reset = (if 0 < tt_max (classify es) then Some (tt_max (classify es) + 1) else None)"
proof -
  let ?t = "classify es"
  let ?ids = "ho (remdups (map fst (tt_entries ?t) @ map fst (tt_status ?t)))"
  let ?rs = "map (build_transaction ?t) ?ids"
  have ids: "distinct ?ids" "set ?ids = set (map tx_id es)"
    using assms(3) classify_ids [of es] unfolding hash_set_order_def by auto
  define rs where "rs = ?rs"
  have eq: "map rt_tx_id rs = ?ids" by (simp add: rs_def build_transaction_classify o_def)
  have "length ?ids = length rs" "rt_tx_id ` set rs = set ?ids"
    using arg_cong [OF eq, of length] arg_cong [OF eq, of set] by simp_all
  note this eq
  moreover have "\<forall>r\<in>set rs. rt_action r = outcome es (rt_tx_id r) \<and> rt_entries r = data_of es (rt_tx_id r)"
    by (simp add: rs_def build_transaction_classify)
  ultimately show ?thesis
    using assms(1,2) ids by (simp add: recover_def Let_def count_actions flip: rs_def)
qed

end
