(* ===== verification/Wal_Log.thy ===== *)
theory Wal_Log
  imports Wal_Recovery
begin

text \<open>
  The log that the segments of a directory hold, and its durability.  The contract of a well-behaved
  I/O engine is stated as locales: \<open>segment_dir\<close> for listing a directory, \<open>log_reader\<close> for what recovery
  needs, \<open>durable_engine\<close> for what the segment manager needs, over the bytes that were written to a path
  (\<open>vis\<close>) and those that every crash leaves of it (\<open>dur\<close>).  Inside them, the segment manager is shown to
  append to the log and recovery to read it back.
\<close>

section \<open>The log of a segment manager\<close>

definition frames :: "(bytes \<Rightarrow> u32) \<Rightarrow> bytes list \<Rightarrow> bytes" where
  "frames crc ds = concat (map (frame crc) ds)"

text \<open>
  \<open>sealed\<close> lists the earlier segments in id order with the data of their entries, \<open>ds\<close> is the data of
  the active segment.  Sealed segments are durable as they are; of the active one a prefix of
  \<open>k\<close> entries is.  The directory has no other segments.
\<close>

definition manager_log ::
    "(bytes \<Rightarrow> u32) \<Rightarrow> (path \<Rightarrow> bytes option) \<Rightarrow> (path \<Rightarrow> bytes option) \<Rightarrow> (u64 \<times> bytes list) list \<Rightarrow> bytes list \<Rightarrow> nat \<Rightarrow>
     segment_manager \<Rightarrow> bool" where
  "manager_log crc vis dur sealed ds k sm \<longleftrightarrow>
     sorted_wrt (<) (map fst sealed @ [sg_id (sm_active sm)]) \<and>
     sg_path (sm_active sm) = segment_path (sm_dir sm) (sg_id (sm_active sm)) \<and>
     unat (sm_next_segment_id sm) = Suc (unat (sg_id (sm_active sm))) \<and>
     (\<forall>i xs. (i, xs) \<in> set sealed \<longrightarrow>
        vis (segment_path (sm_dir sm) i) = Some (frames crc xs) \<and>
        dur (segment_path (sm_dir sm) i) = Some (frames crc xs)) \<and>
     vis (sg_path (sm_active sm)) = Some (frames crc ds) \<and> k \<le> length ds \<and>
     dur (sg_path (sm_active sm)) = Some (frames crc (take k ds)) \<and>
     (\<forall>n. vis (sm_dir sm @ [n]) \<noteq> None \<longrightarrow> n \<in> segment_name ` insert (sg_id (sm_active sm)) (fst ` set sealed))"

text \<open>All data in the log, and how many entries of it would survive a crash.\<close>

definition log_data :: "(u64 \<times> bytes list) list \<Rightarrow> bytes list \<Rightarrow> bytes list" where
  "log_data sealed ds = concat (map snd sealed) @ ds"

definition durable_count :: "(u64 \<times> bytes list) list \<Rightarrow> nat \<Rightarrow> nat" where
  "durable_count sealed k = length (concat (map snd sealed)) + k"

lemma frames_append [simp]: "frames crc (xs @ ys) = frames crc xs @ frames crc ys"
  by (simp add: frames_def)

lemma frames_single [simp]: "frames crc [d] = frame crc d" "frames crc [] = []"
  by (simp_all add: frames_def)

lemma manager_log_fresh:
  "manager_log crc vis dur sealed ds k sm \<Longrightarrow> (i, xs) \<in> set sealed \<Longrightarrow> i < sg_id (sm_active sm)"
  by (auto simp: manager_log_def sorted_wrt_append)

section \<open>The contract of the engine\<close>

locale segment_dir =
  fixes eng :: "'fs io_engine" and ok :: "'fs \<Rightarrow> bool"
    and vis :: "'fs \<Rightarrow> path \<Rightarrow> bytes option" and is_dir :: "'fs \<Rightarrow> path \<Rightarrow> bool"
  assumes read_dir: "ok fs \<Longrightarrow> is_dir fs dir \<Longrightarrow> \<exists>ns. e_read_dir eng dir fs = Inr ns \<and> distinct ns \<and>
        set ns = {n. vis fs (dir @ [n]) \<noteq> None}"
    and dir_exists: "ok fs \<Longrightarrow> is_dir fs dir \<Longrightarrow> e_exists eng dir fs"
begin

lemma discover_log:
  assumes fs: "ok fs" "is_dir fs dir" and sorted: "sorted_wrt (<) ids"
    and names: "{n. vis fs (dir @ [n]) \<noteq> None} = segment_name ` set ids"
  shows "\<exists>found. discover_segment_ids eng dir fs = Inr found \<and> sort found = ids"
proof -
  obtain ns where ns: "e_read_dir eng dir fs = Inr ns" "distinct ns" "set ns = segment_name ` set ids"
    using read_dir [OF fs] names by auto
  have all: "\<forall>n\<in>set ns. \<exists>i. n = segment_name i" using ns(3) by auto
  define found where "found = List.map_filter parse_segment_name ns"
  have "map segment_name found = ns"
    using all unfolding found_def by (induction ns) (auto simp: map_filter_simps)
  then have "distinct found" "segment_name ` set found = segment_name ` set ids"
    using ns(2,3) by (metis distinct_map, metis set_map)
  then have "distinct found" "set found = set ids"
    by (simp_all add: inj_image_eq_iff inj_def)
  then have "sort found = ids"
    using sorted by (intro sorted_distinct_set_unique) (auto simp: strict_sorted_iff)
  with ns(1) show ?thesis
    using dir_exists [OF fs] by (simp add: discover_segment_ids_def found_def)
qed

end

text \<open>What recovery needs: readers see what is visible.\<close>

locale log_reader = segment_dir +
  assumes open_read: "ok fs \<Longrightarrow> vis fs p = Some b \<Longrightarrow> e_open_read eng p fs = (Inr (of_nat (length b), b), fs)"
begin

lemma read_segments_frames:
  assumes "ok fs" "\<forall>(i, ds)\<in>set segs. vis fs (segment_path dir i) = Some (frames crc ds) \<and> length (frames crc ds) < 2 ^ 64"
    "list_all2 (\<lambda>d e. deser d = Some e) (concat (map snd segs)) es"
  shows "read_segments crc deser eng dir (map fst segs) entries st fs = (Inr (entries @ es, st), fs)"
  using assms
proof (induction segs arbitrary: es entries)
  case Nil
  then show ?case by simp
next
  case (Cons s segs)
  obtain i ds where s: "s = (i, ds)" by (cases s)
  obtain es1 es2 where es: "es = es1 @ es2" "list_all2 (\<lambda>d e. deser d = Some e) ds es1"
    "list_all2 (\<lambda>d e. deser d = Some e) (concat (map snd segs)) es2"
    using Cons.prems(3) by (auto simp: s list_all2_append1)
  have v: "vis fs (segment_path dir i) = Some (frames crc ds)" and l: "length (frames crc ds) < 2 ^ 64"
    using Cons.prems(2) by (auto simp: s)
  have "unat (of_nat (length (frames crc ds)) :: u64) = length (frames crc ds)" using l by (simp add: unat_of_nat)
  moreover have "read_entries_loop crc deser (length (frames crc ds)) 0 (frames crc ds) entries st = Inr (entries @ es1, st)"
    using read_all_frames [OF es(2), of crc entries st] l by (simp add: frames_def)
  ultimately have "read_segment_entries crc deser eng (segment_path dir i) entries st fs = (Inr (entries @ es1, st), fs)"
    using open_read [OF Cons.prems(1) v] by (simp add: read_segment_entries_def)
  with Cons.IH [OF Cons.prems(1) _ es(3), of "entries @ es1"] Cons.prems(2) show ?case by (simp add: s es(1))
qed

end

text \<open>What the segment manager needs.\<close>

locale durable_engine = segment_dir +
  fixes dur :: "'fs \<Rightarrow> path \<Rightarrow> bytes option"
  assumes open_append: "ok fs \<Longrightarrow> is_dir fs dir \<Longrightarrow> vis fs (dir @ [n]) = None \<Longrightarrow>
        \<exists>fs'. e_open_append eng (dir @ [n]) d fs = (Inr (), fs') \<and> ok fs' \<and> is_dir fs' = is_dir fs \<and>
          vis fs' = (vis fs)(dir @ [n] \<mapsto> []) \<and> dur fs' = (dur fs)(dir @ [n] \<mapsto> [])"
    and metadata_len: "ok fs \<Longrightarrow> vis fs p = Some b \<Longrightarrow> e_metadata_len eng p fs = Inr (of_nat (length b))"
    and write_all: "ok fs \<Longrightarrow> vis fs p = Some b \<Longrightarrow> \<exists>fs'. e_write_all eng p x fs = (Inr (), fs') \<and> ok fs' \<and>
        is_dir fs' = is_dir fs \<and> vis fs' = (vis fs)(p \<mapsto> b @ x) \<and> dur fs' = dur fs"
    and sync_all: "ok fs \<Longrightarrow> vis fs p = Some b \<Longrightarrow> \<exists>fs'. e_sync_all eng p fs = (Inr (), fs') \<and> ok fs' \<and>
        is_dir fs' = is_dir fs \<and> vis fs' = vis fs \<and> dur fs' = (dur fs)(p \<mapsto> b)"
    and create_dir_all: "ok fs \<Longrightarrow> dir \<noteq> [] \<Longrightarrow> \<exists>fs'. e_create_dir_all eng dir fs = (Inr (), fs') \<and> ok fs' \<and>
        is_dir fs' dir \<and> vis fs' = vis fs \<and> dur fs' = dur fs"
begin

lemma append_entry_log:
  assumes fs: "ok fs" "is_dir fs (sm_dir sm)" and log: "manager_log crc (vis fs) (dur fs) sealed ds k sm"
  shows "\<exists>n seg fs'. segment_append_entry crc eng lsn data (sm_active sm) fs = (Inr n, seg, fs') \<and> ok fs' \<and>
           is_dir fs' (sm_dir sm) \<and>
           manager_log crc (vis fs') (dur fs') sealed (ds @ [data]) k (sm\<lparr>sm_active := seg\<rparr>)"
proof -
  let ?p = "sg_path (sm_active sm)"
  have vis: "vis fs ?p = Some (frames crc ds)" and p: "?p = segment_path (sm_dir sm) (sg_id (sm_active sm))"
    using log unfolding manager_log_def by blast+
  from write_all [OF fs(1) vis, of "header_to_bytes (header_new crc data)"] obtain fs1 where
    f1: "e_write_all eng ?p (header_to_bytes (header_new crc data)) fs = (Inr (), fs1)" "ok fs1" "is_dir fs1 = is_dir fs"
      "vis fs1 = (vis fs)(?p \<mapsto> frames crc ds @ header_to_bytes (header_new crc data))" "dur fs1 = dur fs"
    by auto
  from write_all [OF f1(2), of ?p _ data] f1(4) obtain fs2 where
    f2: "e_write_all eng ?p data fs1 = (Inr (), fs2)" "ok fs2" "is_dir fs2 = is_dir fs"
      "vis fs2 = (vis fs)(?p \<mapsto> frames crc (ds @ [data]))" "dur fs2 = dur fs"
    by (auto simp: frame_def f1)
  obtain seg where seg: "segment_append_entry crc eng lsn data (sm_active sm) fs = (Inr (of_nat (HEADER_SIZE + length data)), seg, fs2)"
    "sg_id seg = sg_id (sm_active sm)" "sg_path seg = ?p"
    using f1(1) f2(1) by (simp add: segment_append_entry_def Let_def)
  have "i \<noteq> sg_id (sm_active sm)" if "(i, xs) \<in> set sealed" for i xs
    using manager_log_fresh [OF log that] by simp
  then have "manager_log crc (vis fs2) (dur fs2) sealed (ds @ [data]) k (sm\<lparr>sm_active := seg\<rparr>)"
    using log seg(2,3) unfolding manager_log_def p f2(4,5) by (auto simp: segment_path_def)
  with seg f2 fs show ?thesis by auto
qed

lemma rotate_log:
  assumes fs: "ok fs" "is_dir fs (sm_dir sm)" and log: "manager_log crc (vis fs) (dur fs) sealed ds k sm"
    and next_id: "Suc (unat (sm_next_segment_id sm)) < 2 ^ 64"
  shows "\<exists>sm' fs'. manager_rotate eng sm fs = (Inr (), sm', fs') \<and> ok fs' \<and> is_dir fs' (sm_dir sm') \<and> sm_dir sm' = sm_dir sm \<and>
           unat (sm_next_segment_id sm') = Suc (unat (sm_next_segment_id sm)) \<and>
           manager_log crc (vis fs') (dur fs') (sealed @ [(sg_id (sm_active sm), ds)]) [] 0 sm'"
proof -
  let ?n = "sm_next_segment_id sm" and ?a = "sg_id (sm_active sm)" and ?dir = "sm_dir sm"
  let ?q = "segment_path ?dir ?n" and ?p = "segment_path ?dir ?a"
  have un: "unat ?n = Suc (unat ?a)" and p: "sg_path (sm_active sm) = ?p" using log by (auto simp: manager_log_def)
  have an: "?a < ?n" using un by (simp add: word_less_nat_alt)
  have un1: "unat (?n + 1) = Suc (unat ?n)" using next_id unat_add_lem [of ?n 1] by simp
  have "?n \<notin> insert ?a (fst ` set sealed)" using an manager_log_fresh [OF log] by fastforce
  then have "segment_name ?n \<notin> segment_name ` insert ?a (fst ` set sealed)" by (auto simp: image_iff)
  then have fresh: "vis fs ?q = None"
    using log unfolding manager_log_def segment_path_def by blast
  obtain fs1 where f1: "e_open_append eng ?q (sm_direct_io sm) fs = (Inr (), fs1)" "ok fs1" "is_dir fs1 = is_dir fs"
      "vis fs1 = (vis fs)(?q \<mapsto> [])" "dur fs1 = (dur fs)(?q \<mapsto> [])"
    using open_append [OF fs, of "segment_name ?n" "sm_direct_io sm"] fresh by (auto simp: segment_path_def)
  have len: "e_metadata_len eng ?q fs1 = Inr 0" using metadata_len [OF f1(2), of ?q "[]"] f1(4) by simp
  have ne: "?p \<noteq> ?q" using an by simp
  have "vis fs1 ?p = Some (frames crc ds)" using log ne f1(4) by (simp add: manager_log_def p)
  from sync_all [OF f1(2) this] obtain fs2 where f2: "e_sync_all eng ?p fs1 = (Inr (), fs2)" "ok fs2" "is_dir fs2 = is_dir fs"
      "vis fs2 = (vis fs)(?q \<mapsto> [])" "dur fs2 = (dur fs)(?q \<mapsto> [], ?p \<mapsto> frames crc ds)"
    using f1 by auto
  let ?seg = "\<lparr>sg_id = ?n, sg_path = ?q, sg_size = 0, sg_max_size = sm_max_segment_size sm, sg_entry_count = 0,
      sg_first_lsn = 0, sg_last_lsn = 0\<rparr>"
  obtain sm' where sm': "manager_rotate eng sm fs = (Inr (), sm', fs2)" "sm_dir sm' = ?dir"
      "sm_next_segment_id sm' = ?n + 1" "sm_active sm' = ?seg"
    using f1(1) f2(1) len by (simp add: manager_rotate_def Let_def segment_open_def segment_seal_def segment_fsync_def p)
  have "sorted_wrt (<) ((map fst sealed @ [?a]) @ [?n])"
    using log an manager_log_fresh [OF log] by (fastforce simp: manager_log_def sorted_wrt_append)
  moreover have "i \<noteq> ?n \<and> i \<noteq> ?a" if "(i, xs) \<in> set sealed" for i xs
    using manager_log_fresh [OF log that] an by auto
  ultimately have "manager_log crc (vis fs2) (dur fs2) (sealed @ [(?a, ds)]) [] 0 sm'"
    using log ne un1 unfolding manager_log_def sm' f2(4,5) p by (auto simp: segment_path_def)
  with sm' f2 fs un1 show ?thesis by auto
qed

lemma write_batch_log:
  assumes "ok fs" "is_dir fs (sm_dir sm)" "manager_log crc (vis fs) (dur fs) sealed ds k sm"
    "unat (sm_next_segment_id sm) + length batch < 2 ^ 64"
  shows "\<exists>sm' fs' sealed' ds' k'. manager_write_batch crc eng batch sm fs = (Inr (), sm', fs') \<and> ok fs' \<and>
           is_dir fs' (sm_dir sm') \<and> sm_dir sm' = sm_dir sm \<and>
           manager_log crc (vis fs') (dur fs') sealed' ds' k' sm' \<and>
           unat (sm_next_segment_id sm') \<le> unat (sm_next_segment_id sm) + length batch \<and>
           log_data sealed' ds' = log_data sealed ds @ map snd batch \<and> durable_count sealed k \<le> durable_count sealed' k'"
  using assms
proof (induction batch arbitrary: sm fs sealed ds k)
  case Nil
  then show ?case by auto
next
  case (Cons e batch)
  obtain lsn data where e: "e = (lsn, data)" by (cases e)
  obtain sm1 fs1 sealed1 ds1 k1 where r: "(if segment_needs_rotation (sm_active sm) then manager_rotate eng sm fs
      else (Inr (), sm, fs)) = (Inr (), sm1, fs1)" "ok fs1" "is_dir fs1 (sm_dir sm1)" "sm_dir sm1 = sm_dir sm"
      "unat (sm_next_segment_id sm1) \<le> Suc (unat (sm_next_segment_id sm))"
      "manager_log crc (vis fs1) (dur fs1) sealed1 ds1 k1 sm1" "log_data sealed1 ds1 = log_data sealed ds"
      "durable_count sealed k \<le> durable_count sealed1 k1"
  proof (cases "segment_needs_rotation (sm_active sm)")
    case True
    have "Suc (unat (sm_next_segment_id sm)) < 2 ^ 64" using Cons.prems(4) by simp
    from rotate_log [OF Cons.prems(1-3) this] obtain sm' fs' where rot:
      "manager_rotate eng sm fs = (Inr (), sm', fs')" "ok fs'" "is_dir fs' (sm_dir sm')" "sm_dir sm' = sm_dir sm"
      "unat (sm_next_segment_id sm') = Suc (unat (sm_next_segment_id sm))"
      "manager_log crc (vis fs') (dur fs') (sealed @ [(sg_id (sm_active sm), ds)]) [] 0 sm'" by blast
    have k: "k \<le> length ds" using Cons.prems(3) by (simp add: manager_log_def)
    show ?thesis
      by (rule that [of sm' fs' "sealed @ [(sg_id (sm_active sm), ds)]" "[]" 0])
        (use True rot k in \<open>simp_all add: log_data_def durable_count_def\<close>)
  next
    case False
    show ?thesis by (rule that [of sm fs sealed ds k]) (use False Cons.prems in simp_all)
  qed
  obtain n seg fs2 where a: "segment_append_entry crc eng lsn data (sm_active sm1) fs1 = (Inr n, seg, fs2)" "ok fs2"
      "is_dir fs2 (sm_dir sm1)" "manager_log crc (vis fs2) (dur fs2) sealed1 (ds1 @ [data]) k1 (sm1\<lparr>sm_active := seg\<rparr>)"
    using append_entry_log [OF r(2,3,6)] by blast
  have "unat (sm_next_segment_id (sm1\<lparr>sm_active := seg\<rparr>)) + length batch < 2 ^ 64"
    using r(5) Cons.prems(4) by simp
  from Cons.IH [OF a(2) _ a(4) this] a(3) obtain sm' fs' sealed' ds' k' where
    "manager_write_batch crc eng batch (sm1\<lparr>sm_active := seg\<rparr>) fs2 = (Inr (), sm', fs')" "ok fs'" "is_dir fs' (sm_dir sm')"
    "sm_dir sm' = sm_dir sm1" "manager_log crc (vis fs') (dur fs') sealed' ds' k' sm'"
    "unat (sm_next_segment_id sm') \<le> unat (sm_next_segment_id sm1) + length batch"
    "log_data sealed' ds' = log_data sealed1 (ds1 @ [data]) @ map snd batch" "durable_count sealed1 k1 \<le> durable_count sealed' k'"
    by auto
  with r a show ?case
    by (intro exI [of _ sm'] exI [of _ fs'] exI [of _ sealed'] exI [of _ ds'] exI [of _ k'])
      (auto simp: e log_data_def)
qed

lemma fsync_log:
  assumes fs: "ok fs" "is_dir fs (sm_dir sm)" and log: "manager_log crc (vis fs) (dur fs) sealed ds k sm"
  shows "\<exists>fs'. manager_fsync eng sm fs = (Inr (), fs') \<and> ok fs' \<and> is_dir fs' (sm_dir sm) \<and>
           manager_log crc (vis fs') (dur fs') sealed ds (length ds) sm"
proof -
  have "vis fs (sg_path (sm_active sm)) = Some (frames crc ds)" using log unfolding manager_log_def by blast
  from sync_all [OF fs(1) this] obtain fs' where f: "e_sync_all eng (sg_path (sm_active sm)) fs = (Inr (), fs')" "ok fs'"
      "is_dir fs' = is_dir fs" "vis fs' = vis fs" "dur fs' = (dur fs)(sg_path (sm_active sm) \<mapsto> frames crc ds)"
    by auto
  have "i \<noteq> sg_id (sm_active sm)" if "(i, xs) \<in> set sealed" for i xs
    using manager_log_fresh [OF log that] by simp
  then have "manager_log crc (vis fs') (dur fs') sealed ds (length ds) sm"
    using log unfolding manager_log_def f(4,5) by auto
  with f fs show ?thesis by (simp add: manager_fsync_def segment_fsync_def)
qed

section \<open>Opening and recovering\<close>

lemma manager_open_log:
  assumes "ok fs" "dir \<noteq> []" "\<forall>n. vis fs (dir @ [n]) = None"
  shows "\<exists>sm fs'. manager_open eng dir max_size d fs = (Inr sm, fs') \<and> ok fs' \<and> is_dir fs' (sm_dir sm) \<and> sm_dir sm = dir \<and>
           sm_next_segment_id sm = 2 \<and> manager_log crc (vis fs') (dur fs') [] [] 0 sm"
proof -
  obtain fs1 where f1: "e_create_dir_all eng dir fs = (Inr (), fs1)" "ok fs1" "is_dir fs1 dir" "vis fs1 = vis fs" "dur fs1 = dur fs"
    using create_dir_all [OF assms(1,2)] by auto
  have "e_read_dir eng dir fs1 = Inr []"
    using read_dir [OF f1(2,3)] assms(3) f1(4) by auto
  then have disc: "discover_segment_ids eng dir fs1 = Inr []"
    using dir_exists [OF f1(2,3)] by (simp add: discover_segment_ids_def map_filter_simps)
  let ?q = "segment_path dir 1"
  have "vis fs1 ?q = None" using assms(3) f1(4) by (simp add: segment_path_def)
  then obtain fs2 where f2: "e_open_append eng ?q d fs1 = (Inr (), fs2)" "ok fs2" "is_dir fs2 = is_dir fs1"
      "vis fs2 = (vis fs)(?q \<mapsto> [])" "dur fs2 = (dur fs)(?q \<mapsto> [])"
    using open_append [OF f1(2,3), of "segment_name 1" d] f1(4,5) by (auto simp: segment_path_def)
  have "e_metadata_len eng ?q fs2 = Inr 0" using metadata_len [OF f2(2), of ?q "[]"] f2(4) by simp
  then obtain sm where sm: "manager_open eng dir max_size d fs = (Inr sm, fs2)" "sm_dir sm = dir" "sm_next_segment_id sm = 2"
      "sg_id (sm_active sm) = 1" "sg_path (sm_active sm) = ?q"
    using f1(1) f2(1) disc by (simp add: manager_open_def Let_def segment_open_def)
  have "manager_log crc (vis fs2) (dur fs2) [] [] 0 sm"
    using assms(3) sm unfolding manager_log_def f2(4,5) by (auto simp: segment_path_def)
  with sm f2 f1 show ?thesis by auto
qed

end

end
