(* ===== verification/Log_Run.thy ===== *)
theory Log_Run
  imports Wal_Log
begin

text \<open>
  Sequences of batch writes and fsyncs through the segment manager on any durable engine, the invariant
  of such a run, and what recovery reads after a crash that keeps the durable part of every file and
  some further prefix of it.
\<close>

section \<open>Runs\<close>

datatype log_op = Log_Write "(u64 \<times> bytes) list" | Log_Fsync

text \<open>\<open>written\<close> and \<open>synced\<close>: the data written so far, and how much of it when fsync last returned.\<close>

record 'fs log_state =
  lr_manager :: segment_manager
  lr_fs :: 'fs
  lr_written :: "bytes list"
  lr_synced :: nat

fun log_step :: "(bytes \<Rightarrow> u32) \<Rightarrow> 'fs io_engine \<Rightarrow> log_op \<Rightarrow> 'fs log_state \<Rightarrow> wal_error + 'fs log_state" where
  "log_step crc eng (Log_Write batch) s =
     (case manager_write_batch crc eng batch (lr_manager s) (lr_fs s) of
        (Inl e, _, _) \<Rightarrow> Inl e
      | (Inr _, sm, fs) \<Rightarrow> Inr (s\<lparr>lr_manager := sm, lr_fs := fs, lr_written := lr_written s @ map snd batch\<rparr>))"
| "log_step crc eng Log_Fsync s =
     (case manager_fsync eng (lr_manager s) (lr_fs s) of
        (Inl e, _) \<Rightarrow> Inl e
      | (Inr _, fs) \<Rightarrow> Inr (s\<lparr>lr_fs := fs, lr_synced := length (lr_written s)\<rparr>))"

fun log_run :: "(bytes \<Rightarrow> u32) \<Rightarrow> 'fs io_engine \<Rightarrow> log_op list \<Rightarrow> 'fs log_state \<Rightarrow> wal_error + 'fs log_state" where
  "log_run crc eng [] s = Inr s"
| "log_run crc eng (op # ops) s = try_bind (log_step crc eng op s) (log_run crc eng ops)"

definition log_open :: "'fs io_engine \<Rightarrow> path \<Rightarrow> u64 \<Rightarrow> bool \<Rightarrow> 'fs \<Rightarrow> wal_error + 'fs log_state" where
  "log_open eng dir max_size direct_io fs =
     (case manager_open eng dir max_size direct_io fs of
        (Inl e, _) \<Rightarrow> Inl e
      | (Inr sm, fs1) \<Rightarrow> Inr \<lparr>lr_manager = sm, lr_fs = fs1, lr_written = [], lr_synced = 0\<rparr>)"

text \<open>How many entries a sequence of operations writes, and what they are.\<close>

fun op_data :: "log_op \<Rightarrow> bytes list" where
  "op_data (Log_Write batch) = map snd batch"
| "op_data Log_Fsync = []"

fun synced_count :: "nat \<Rightarrow> nat \<Rightarrow> log_op list \<Rightarrow> nat" where
  "synced_count n synced [] = synced"
| "synced_count n synced (Log_Write batch # ops) = synced_count (n + length batch) synced ops"
| "synced_count n synced (Log_Fsync # ops) = synced_count n n ops"

section \<open>Invariant\<close>

definition log_inv ::
    "('fs \<Rightarrow> bool) \<Rightarrow> ('fs \<Rightarrow> path \<Rightarrow> bytes option) \<Rightarrow> ('fs \<Rightarrow> path \<Rightarrow> bool) \<Rightarrow> ('fs \<Rightarrow> path \<Rightarrow> bytes option) \<Rightarrow>
     (bytes \<Rightarrow> u32) \<Rightarrow> path \<Rightarrow> 'fs log_state \<Rightarrow> bool" where
  "log_inv ok vis is_dir dur crc dir s \<longleftrightarrow>
     ok (lr_fs s) \<and> is_dir (lr_fs s) dir \<and> sm_dir (lr_manager s) = dir \<and>
     (\<exists>sealed ds k. manager_log crc (vis (lr_fs s)) (dur (lr_fs s)) sealed ds k (lr_manager s) \<and>
        log_data sealed ds = lr_written s \<and> lr_synced s \<le> durable_count sealed k)"

context durable_engine
begin

lemma log_open_ok:
  assumes "ok fs" "dir \<noteq> []" "\<forall>n. vis fs (dir @ [n]) = None"
  shows "\<exists>s. log_open eng dir max_size d fs = Inr s \<and> log_inv ok vis is_dir dur crc dir s \<and> lr_written s = [] \<and> lr_synced s = 0 \<and>
           unat (sm_next_segment_id (lr_manager s)) = 2"
proof -
  from manager_open_log [OF assms, of max_size d crc] obtain sm fs' where
    o: "manager_open eng dir max_size d fs = (Inr sm, fs')" "ok fs'" "is_dir fs' (sm_dir sm)"
      "sm_dir sm = dir" "sm_next_segment_id sm = 2" "manager_log crc (vis fs') (dur fs') [] [] 0 sm" by blast
  have "log_data [] [] = []" "durable_count [] 0 = 0" by (simp_all add: log_data_def durable_count_def)
  with o show ?thesis by (auto simp: log_open_def log_inv_def intro!: exI [of _ "[] :: (u64 \<times> bytes list) list"] exI [of _ "[] :: bytes list"])
qed

lemma log_step_ok:
  assumes inv: "log_inv ok vis is_dir dur crc dir s" and room: "unat (sm_next_segment_id (lr_manager s)) + length (op_data op) < 2 ^ 64"
  shows "\<exists>s'. log_step crc eng op s = Inr s' \<and> log_inv ok vis is_dir dur crc dir s' \<and>
           lr_written s' = lr_written s @ op_data op \<and>
           lr_synced s' = (case op of Log_Write _ \<Rightarrow> lr_synced s | Log_Fsync \<Rightarrow> length (lr_written s)) \<and>
           unat (sm_next_segment_id (lr_manager s')) \<le> unat (sm_next_segment_id (lr_manager s)) + length (op_data op)"
proof -
  obtain sealed ds k where log: "manager_log crc (vis (lr_fs s)) (dur (lr_fs s)) sealed ds k (lr_manager s)"
    "log_data sealed ds = lr_written s" "lr_synced s \<le> durable_count sealed k"
    and fs: "ok (lr_fs s)" "is_dir (lr_fs s) (sm_dir (lr_manager s))" "sm_dir (lr_manager s) = dir"
    using inv by (auto simp: log_inv_def)
  show ?thesis
  proof (cases op)
    case (Log_Write batch)
    with room have "unat (sm_next_segment_id (lr_manager s)) + length batch < 2 ^ 64" by simp
    from write_batch_log [OF fs(1,2) log(1) this] obtain sm fs sealed' ds' k' where
      w: "manager_write_batch crc eng batch (lr_manager s) (lr_fs s) = (Inr (), sm, fs)" "ok fs"
        "is_dir fs (sm_dir sm)" "sm_dir sm = dir"
        "manager_log crc (vis fs) (dur fs) sealed' ds' k' sm"
        "unat (sm_next_segment_id sm) \<le> unat (sm_next_segment_id (lr_manager s)) + length batch"
        "log_data sealed' ds' = log_data sealed ds @ map snd batch" "durable_count sealed k \<le> durable_count sealed' k'"
      using fs(3) by auto
    have "log_inv ok vis is_dir dur crc dir (s\<lparr>lr_manager := sm, lr_fs := fs, lr_written := lr_written s @ map snd batch\<rparr>)"
      unfolding log_inv_def using w log by (auto intro: order.trans)
    with Log_Write w show ?thesis by simp
  next
    case Log_Fsync
    from fsync_log [OF fs(1,2) log(1)] obtain fs where
      f: "manager_fsync eng (lr_manager s) (lr_fs s) = (Inr (), fs)" "ok fs"
        "is_dir fs (sm_dir (lr_manager s))"
        "manager_log crc (vis fs) (dur fs) sealed ds (length ds) (lr_manager s)"
      by auto
    have "length (lr_written s) = durable_count sealed (length ds)"
      using arg_cong [OF log(2), of length] by (simp add: log_data_def durable_count_def)
    then have "log_inv ok vis is_dir dur crc dir (s\<lparr>lr_fs := fs, lr_synced := length (lr_written s)\<rparr>)"
      unfolding log_inv_def using f log fs(3) by auto
    with Log_Fsync f show ?thesis by simp
  qed
qed

lemma log_run_ok:
  assumes "log_inv ok vis is_dir dur crc dir s" "unat (sm_next_segment_id (lr_manager s)) + length (concat (map op_data lops)) < 2 ^ 64"
  shows "\<exists>s'. log_run crc eng lops s = Inr s' \<and> log_inv ok vis is_dir dur crc dir s' \<and>
           lr_written s' = lr_written s @ concat (map op_data lops) \<and>
           lr_synced s' = synced_count (length (lr_written s)) (lr_synced s) lops"
  using assms
proof (induction lops arbitrary: s)
  case (Cons op lops)
  have "unat (sm_next_segment_id (lr_manager s)) + length (op_data op) < 2 ^ 64" using Cons.prems(2) by simp
  from log_step_ok [OF Cons.prems(1) this] obtain s1 where
    s1: "log_step crc eng op s = Inr s1" "log_inv ok vis is_dir dur crc dir s1" "lr_written s1 = lr_written s @ op_data op"
      "lr_synced s1 = (case op of Log_Write _ \<Rightarrow> lr_synced s | Log_Fsync \<Rightarrow> length (lr_written s))"
      "unat (sm_next_segment_id (lr_manager s1)) \<le> unat (sm_next_segment_id (lr_manager s)) + length (op_data op)"
    by blast
  have "unat (sm_next_segment_id (lr_manager s1)) + length (concat (map op_data lops)) < 2 ^ 64"
    using s1(5) Cons.prems(2) by simp
  from Cons.IH [OF s1(2) this] s1 show ?case by (cases op) auto
qed simp

end

section \<open>Crash and recovery\<close>

text \<open>
  A crash keeps the durable part of a file of directory \<open>dir\<close> and, of what was written after it, some
  prefix: \<open>keep p\<close> bytes of path \<open>p\<close>.  \<open>v\<close> and \<open>d\<close> are what was written and durable before the crash, \<open>new\<close> is what is there after.
\<close>

definition crash_keeps ::
    "path \<Rightarrow> (path \<Rightarrow> nat) \<Rightarrow> (path \<Rightarrow> bytes option) \<Rightarrow> (path \<Rightarrow> bytes option) \<Rightarrow> (path \<Rightarrow> bytes option) \<Rightarrow> bool" where
  "crash_keeps dir keep v d new \<longleftrightarrow>
     (\<forall>n. (new (dir @ [n]) = None) = (v (dir @ [n]) = None)) \<and>
     (\<forall>n b c. v (dir @ [n]) = Some (b @ c) \<longrightarrow> d (dir @ [n]) = Some b \<longrightarrow> new (dir @ [n]) = Some (b @ take (keep (dir @ [n])) c))"

text \<open>A cut through a log leaves whole frames and perhaps a torn one.\<close>

definition torn_frame :: "(bytes \<Rightarrow> u32) \<Rightarrow> bytes \<Rightarrow> bytes \<Rightarrow> bool" where
  "torn_frame crc torn d \<longleftrightarrow> torn \<noteq> [] \<and> (\<exists>missing. missing \<noteq> [] \<and> frame crc d = torn @ missing)"

lemma take_frames:
  "\<exists>j torn. take m (frames crc ds) = frames crc (take j ds) @ torn \<and> j \<le> length ds \<and>
     (torn = [] \<or> j < length ds \<and> torn_frame crc torn (ds ! j)) \<and> (m = 0 \<longrightarrow> j = 0 \<and> torn = [])"
proof (induction ds arbitrary: m)
  case Nil
  show ?case by simp
next
  case (Cons d ds)
  show ?case
  proof (cases "m < length (frame crc d)")
    case True
    then have "take m (frame crc d) = [] \<or> torn_frame crc (take m (frame crc d)) d" "m = 0 \<longrightarrow> take m (frame crc d) = []"
      unfolding torn_frame_def by (auto intro!: exI [of _ "drop m (frame crc d)"])
    then show ?thesis using True
      by (intro exI [of _ 0] exI [of _ "take m (frame crc d)"]) (auto simp: frames_def)
  next
    case False
    let ?m = "m - length (frame crc d)"
    obtain j torn where j: "take ?m (frames crc ds) = frames crc (take j ds) @ torn" "j \<le> length ds"
      "torn = [] \<or> j < length ds \<and> torn_frame crc torn (ds ! j)" using Cons.IH [of ?m] by blast
    have "m \<noteq> 0" using False by (cases "m = 0") (auto simp: HEADER_SIZE_def)
    with j False show ?thesis
      by (intro exI [of _ "Suc j"] exI [of _ torn]) (auto simp: frames_def)
  qed
qed

lemma cut_frames:
  assumes "k \<le> length ds"
  obtains n torn where "frames crc (take k ds) @ take m (frames crc (drop k ds)) = frames crc (take n ds) @ torn"
    "k \<le> n" "n \<le> length ds" "torn = [] \<or> n < length ds \<and> torn_frame crc torn (ds ! n)" "m = 0 \<longrightarrow> n = k \<and> torn = []"
proof -
  obtain j torn where j: "take m (frames crc (drop k ds)) = frames crc (take j (drop k ds)) @ torn" "j \<le> length (drop k ds)"
    "torn = [] \<or> j < length (drop k ds) \<and> torn_frame crc torn (drop k ds ! j)" "m = 0 \<longrightarrow> j = 0 \<and> torn = []"
    using take_frames by blast
  have "frames crc (take k ds) @ frames crc (take j (drop k ds)) = frames crc (take (k + j) ds)"
    by (simp add: take_add)
  then show thesis using j assms by (intro that [of "k + j" torn]) auto
qed

lemma length_frames_le: "length (frames crc (take n xs)) \<le> length (frames crc xs)"
  by (metis append_take_drop_id frames_append le_add1 length_append)

lemma frames_nth_le: "n < length ds \<Longrightarrow> length (frames crc (take n ds) @ frame crc (ds ! n)) \<le> length (frames crc ds)"
  using length_frames_le [of crc "Suc n" ds] by (simp add: take_Suc_conv_app_nth)

context log_reader
begin

text \<open>Reading complete segments and a last one that may end in a torn frame.\<close>

lemma read_crashed_segment:
  assumes fs: "ok fs" and v: "vis fs p = Some (frames crc ds @ torn)" and dec: "list_all2 (\<lambda>d e. deser d = Some e) ds es"
    and small: "length (frames crc ds) < 2 ^ 64"
    and torn: "torn = [] \<or> (\<exists>d. torn_frame crc torn d \<and> length (frames crc ds @ frame crc d) < 2 ^ 64)"
  shows "read_segment_entries crc deser eng p entries st fs = (Inr (entries @ es, if torn = [] then st else note_partial st), fs)"
proof -
  let ?c = "frames crc ds @ torn"
  have "length torn \<le> length (frame crc d)" if "torn_frame crc torn d" for d using that by (auto simp: torn_frame_def simp del: length_frame)
  then have c: "length ?c < 2 ^ 64" using small torn by fastforce
  then have l: "unat (of_nat (length ?c) :: u64) = length ?c" by (simp only: unat_of_nat) simp
  have "read_entries_loop crc deser (length ?c) 0 ?c entries st =
      read_entries_loop crc deser (length ?c) (length (frames crc ds)) torn (entries @ es) st"
    using read_frames [OF dec, of 0 crc torn "length ?c" entries st] c by (simp add: frames_def)
  also have "\<dots> = Inr (entries @ es, if torn = [] then st else note_partial st)"
  proof (cases "torn = []")
    case True
    then show ?thesis by (simp add: read_end)
  next
    case False
    with torn obtain d missing where d: "frame crc d = torn @ missing" "missing \<noteq> []" "length (frames crc ds @ frame crc d) < 2 ^ 64"
      unfolding torn_frame_def by blast
    from read_torn_frame [OF d(1) False d(2), of "length (frames crc ds)"] d(3) False show ?thesis by simp
  qed
  finally show ?thesis using open_read [OF fs v] l by (simp add: read_segment_entries_def)
qed

lemma read_segments_append:
  "read_segments crc deser eng dir ids entries st fs = (Inr (entries', st'), fs') \<Longrightarrow>
   read_segments crc deser eng dir (ids @ ids') entries st fs = read_segments crc deser eng dir ids' entries' st' fs'"
  by (induction ids arbitrary: entries st fs) (auto split: prod.splits sum.splits)

text \<open>What recovery reads of the log of a segment manager after a crash.\<close>

lemma read_crashed_log:
  assumes log: "manager_log crc v d sealed ds k sm" and small: "length (frames crc (log_data sealed ds)) < 2 ^ 64"
    and dec: "list_all2 (\<lambda>d e. deser d = Some e) (log_data sealed ds) es"
    and fs: "ok fs" "is_dir fs (sm_dir sm)" and keeps: "crash_keeps (sm_dir sm) keep v d (vis fs)"
  shows "\<exists>found n st'. discover_segment_ids eng (sm_dir sm) fs = Inr found \<and>
      read_segments crc deser eng (sm_dir sm) (sort found) [] st fs = (Inr (take n es, st'), fs) \<and>
      durable_count sealed k \<le> n \<and> n \<le> length es \<and> (st' = st \<or> st' = note_partial st) \<and> ((\<forall>p. keep p = 0) \<longrightarrow> st' = st)"
proof -
  let ?a = "sg_id (sm_active sm)" and ?dir = "sm_dir sm"
  have k: "k \<le> length ds" and active: "sg_path (sm_active sm) = segment_path ?dir ?a"
    "v (segment_path ?dir ?a) = Some (frames crc (take k ds) @ frames crc (drop k ds))"
    "d (segment_path ?dir ?a) = Some (frames crc (take k ds))"
    using log unfolding manager_log_def by (auto simp flip: frames_append)
  obtain n torn where cut: "frames crc (take k ds) @ take (keep (segment_path ?dir ?a)) (frames crc (drop k ds)) = frames crc (take n ds) @ torn"
    "k \<le> n" "n \<le> length ds" "torn = [] \<or> n < length ds \<and> torn_frame crc torn (ds ! n)"
    "keep (segment_path ?dir ?a) = 0 \<longrightarrow> n = k \<and> torn = []" using cut_frames [OF k] by blast
  have last: "vis fs (segment_path ?dir ?a) = Some (frames crc (take n ds) @ torn)"
    using keeps active(2,3) cut(1) unfolding crash_keeps_def segment_path_def by metis
  have sealed: "vis fs (segment_path ?dir i) = Some (frames crc xs)" if "(i, xs) \<in> set sealed" for i xs
  proof -
    have "v (segment_path ?dir i) = Some (frames crc xs @ [])" "d (segment_path ?dir i) = Some (frames crc xs)"
      using log that unfolding manager_log_def by auto
    then show ?thesis using keeps unfolding crash_keeps_def segment_path_def by (metis append_Nil2 take_Nil)
  qed
  have names: "{n. vis fs (?dir @ [n]) \<noteq> None} = segment_name ` set (map fst sealed @ [?a])"
  proof
    show "{n. vis fs (?dir @ [n]) \<noteq> None} \<subseteq> segment_name ` set (map fst sealed @ [?a])"
      using log keeps unfolding manager_log_def crash_keeps_def by auto
    show "segment_name ` set (map fst sealed @ [?a]) \<subseteq> {n. vis fs (?dir @ [n]) \<noteq> None}"
      using sealed last by (fastforce simp: segment_path_def)
  qed
  have "sorted_wrt (<) (map fst sealed @ [?a])" using log by (simp add: manager_log_def)
  from discover_log [OF fs this names] obtain found where
    found: "discover_segment_ids eng ?dir fs = Inr found" "sort found = map fst sealed @ [?a]" by blast
  obtain es1 es2 where es: "es = es1 @ es2" "list_all2 (\<lambda>d e. deser d = Some e) (concat (map snd sealed)) es1"
    "list_all2 (\<lambda>d e. deser d = Some e) ds es2" using dec by (auto simp: log_data_def list_all2_append1)
  have bound: "length (frames crc ds) < 2 ^ 64" using small by (simp add: log_data_def)
  have "length (frames crc xs) < 2 ^ 64" if el: "(i, xs) \<in> set sealed" for i xs
  proof -
    obtain ys zs where "sealed = ys @ (i, xs) # zs" using split_list [OF el] by blast
    then show ?thesis using small by (simp add: log_data_def)
  qed
  with sealed have "\<forall>(i, xs)\<in>set sealed. vis fs (segment_path ?dir i) = Some (frames crc xs) \<and> length (frames crc xs) < 2 ^ 64" by blast
  from read_segments_append [OF read_segments_frames [OF fs(1) this es(2), of "[]" st], of "[?a]"]
  have r1: "read_segments crc deser eng ?dir (sort found) [] st fs = read_segments crc deser eng ?dir [?a] es1 st fs"
    unfolding found(2) by simp
  have "torn = [] \<or> (\<exists>d. torn_frame crc torn d \<and> length (frames crc (take n ds) @ frame crc d) < 2 ^ 64)"
    using cut(4) frames_nth_le [of n ds crc] bound by (auto intro: exI [of _ "ds ! n"])
  moreover have "length (frames crc (take n ds)) < 2 ^ 64" using length_frames_le [of crc n ds] bound by simp
  ultimately have "read_segments crc deser eng ?dir [?a] es1 st fs =
      (Inr (es1 @ take n es2, if torn = [] then st else note_partial st), fs)"
    using read_crashed_segment [OF fs(1) last list_all2_takeI [OF es(3)]] by simp
  moreover have "es1 @ take n es2 = take (durable_count sealed n) es" "durable_count sealed n \<le> length es"
    using list_all2_lengthD [OF es(2)] list_all2_lengthD [OF es(3)] cut(3) by (simp_all add: es(1) durable_count_def)
  moreover have "durable_count sealed k \<le> durable_count sealed n" using cut(2) by (simp add: durable_count_def)
  ultimately show ?thesis using found(1) r1 cut(5)
    by (intro exI [of _ found] exI [of _ "durable_count sealed n"] exI [of _ "if torn = [] then st else note_partial st"]) auto
qed

end

end
