(* ===== verification/Wal_Durability.thy ===== *)
theory Wal_Durability
  imports Sim_Io
begin

text \<open>
  Crash safety of the log on the simulated engine: a sequence of batch writes and fsyncs through the
  segment manager, then a crash, then recovery.  What is recovered is a prefix of what was
  written that contains everything written before the last fsync.
\<close>

section \<open>Runs\<close>

definition log_start :: "'g rng_ops \<Rightarrow> path \<Rightarrow> u64 \<Rightarrow> 'g \<Rightarrow> wal_error + 'g sim_fs log_state" where
  "log_start ops dir max_size g =
     (case manager_open (sim_engine ops) dir max_size False (fs_new g fault_none clock_default) of
        (Inl e, _) \<Rightarrow> Inl e
      | (Inr sm, fs) \<Rightarrow> Inr \<lparr>lr_manager = sm, lr_fs = fs, lr_written = [], lr_synced = 0\<rparr>)"

section \<open>Invariant\<close>

definition run_inv :: "(bytes \<Rightarrow> u32) \<Rightarrow> path \<Rightarrow> 'g sim_fs log_state \<Rightarrow> bool" where
  "run_inv crc dir s \<longleftrightarrow>
     sim_ok (lr_fs s) \<and> sim_is_dir (lr_fs s) dir \<and> sm_dir (lr_manager s) = dir \<and>
     (\<exists>sealed ds k. manager_log crc (sim_visible (lr_fs s)) (\<lambda>p. sim_durable_bytes p (lr_fs s)) sealed ds k (lr_manager s) \<and>
        log_data sealed ds = lr_written s \<and> lr_synced s \<le> durable_count sealed k)"

lemma run_inv_log: "run_inv crc dir s = log_inv sim_ok sim_visible sim_is_dir (\<lambda>fs p. sim_durable_bytes p fs) crc dir s"
  by (simp add: run_inv_def log_inv_def)

lemma log_start_open:
  "log_start ops dir max_size g = log_open (sim_engine ops) dir max_size False (fs_new g fault_none clock_default)"
  by (simp add: log_start_def log_open_def)

lemma log_start_inv:
  assumes "dir \<noteq> []"
  shows "\<exists>s. log_start ops dir max_size g = Inr s \<and> run_inv crc dir s \<and> lr_written s = [] \<and> lr_synced s = 0 \<and>
           unat (sm_next_segment_id (lr_manager s)) = 2"
  unfolding log_start_open run_inv_log
  by (rule sim.log_open_ok) (use assms in \<open>simp_all add: sim_ok_def fs_new_def sim_visible_def\<close>)

lemmas log_step_inv = sim.log_step_ok [folded run_inv_log]
lemmas log_run_inv = sim.log_run_ok [folded run_inv_log]

section \<open>Crash and recovery\<close>

lemma recover_after_crash:
  assumes inv: "run_inv crc dir s" and small: "length (frames crc (lr_written s)) < 2 ^ 64"
    and dec: "list_all2 (\<lambda>d e. deser d = Some e) (lr_written s) es"
  shows "\<exists>found n fs'. discover_segment_ids (sim_engine ops) dir (fs_crash (lr_fs s)) = Inr found \<and>
           read_segments crc deser (sim_engine ops) dir (sort found) [] st (fs_crash (lr_fs s)) =
             (Inr (take n es, st), fs') \<and> lr_synced s \<le> n \<and> n \<le> length es"
proof -
  obtain sealed ds k where log: "manager_log crc (sim_visible (lr_fs s)) (\<lambda>p. sim_durable_bytes p (lr_fs s)) sealed ds k (lr_manager s)"
    "log_data sealed ds = lr_written s" "lr_synced s \<le> durable_count sealed k"
    and ok: "sim_ok (lr_fs s)" "sim_is_dir (lr_fs s) dir" "sm_dir (lr_manager s) = dir"
    using inv by (auto simp: run_inv_def)
  have ok': "sim_ok (fs_crash (lr_fs s))" "sim_is_dir (fs_crash (lr_fs s)) (sm_dir (lr_manager s))"
    using ok by (auto simp: sim_ok_def sim_is_dir_def fs_crash_def o_def case_prod_unfold)
  have "(sim_durable_bytes p (lr_fs s) = None) = (sim_visible (lr_fs s) p = None)" for p
    by (simp add: sim_durable_bytes_def sim_visible_def)
  then have "crash_keeps (sm_dir (lr_manager s)) (\<lambda>_. 0) (sim_visible (lr_fs s)) (\<lambda>p. sim_durable_bytes p (lr_fs s)) (sim_visible (fs_crash (lr_fs s)))"
    by (simp add: crash_keeps_def fs_crash_spec)
  from sim.read_crashed_log [OF log(1) _ _ ok' this, of deser es ops st] small dec log(2,3) ok(3) show ?thesis
    by (auto intro: order.trans)
qed

end
