(* ===== verification/Wal_Flusher.thy ===== *)
theory Wal_Flusher
  imports Wal_Durability
begin

text \<open>
  The flusher task of \<open>wal.rs\<close>: it collects envelopes from the ring into a batch, writes the batch
  through the segment manager, syncs as the mode asks and notifies the commit waiters.  The end of
  the wait for the next envelope (an item, the 100 microsecond timeout, the end of the stream, a
  shutdown request) is an event; background fsyncs are jobs that some later event runs.
\<close>

section \<open>Data\<close>

datatype sync_mode = Full | DataOnly | Background | Pipelined | PipelinedDataOnly | PipelinedDedicated | Sync_None

text \<open>A \<open>oneshot\<close> sender is represented by a number.\<close>

type_synonym waiter = nat

datatype ('k, 'v) envelope =
    Entry "('k, 'v) wal_entry"
  | CommitBarrier "('k, 'v) wal_entry" waiter

text \<open>
  The locals of the task.  \<open>fl_notified\<close> and \<open>fl_dropped\<close> record what became of the senders: a
  dropped sender makes its receiver return an error.
\<close>

record 'fs flusher =
  fl_manager :: segment_manager
  fl_fs :: 'fs
  fl_next_lsn :: u64
  fl_batch :: "(u64 \<times> bytes) list"
  fl_waiters :: "waiter list"
  fl_jobs :: "(path \<times> bool \<times> waiter list) list"
  fl_drained :: nat
  fl_stopped :: bool
  fl_notified :: "waiter list"
  fl_dropped :: "waiter list"

text \<open>
  What the task is given: the checksum and the encoder, the I/O engine, \<open>sync_all\<close> (\<open>False\<close>) or
  \<open>sync_data\<close> (\<open>True\<close>) of a duplicated \<open>std::fs::File\<close>, the batch hint and the mode.
\<close>

record ('k, 'v, 'fs) flusher_env =
  fe_crc :: "bytes \<Rightarrow> u32"
  fe_serialize :: "('k, 'v) wal_entry \<Rightarrow> bytes option"
  fe_engine :: "'fs io_engine"
  fe_fd_sync :: "bool \<Rightarrow> path \<Rightarrow> 'fs \<Rightarrow> (io_error + unit) \<times> 'fs"
  fe_batch_hint :: nat
  fe_sync_mode :: sync_mode

section \<open>Collecting\<close>

definition collect_data :: "('k, 'v, 'fs) flusher_env \<Rightarrow> ('k, 'v) wal_entry \<Rightarrow> u64 \<Rightarrow> 'fs flusher \<Rightarrow> 'fs flusher" where
  "collect_data P e lsn s =
     (case fe_serialize P e of None \<Rightarrow> s | Some data \<Rightarrow> s\<lparr>fl_batch := fl_batch s @ [(lsn, data)]\<rparr>)"

definition collect_envelope :: "('k, 'v, 'fs) flusher_env \<Rightarrow> ('k, 'v) envelope \<Rightarrow> 'fs flusher \<Rightarrow> 'fs flusher" where
  "collect_envelope P envl s =
     (let lsn = fl_next_lsn s; s1 = s\<lparr>fl_next_lsn := lsn + 1\<rparr>
      in case envl of
           Entry e \<Rightarrow> collect_data P e lsn s1
         | CommitBarrier e w \<Rightarrow>
             (let s2 = collect_data P e lsn s1 in s2\<lparr>fl_waiters := fl_waiters s2 @ [w]\<rparr>))"

section \<open>Flushing\<close>

text \<open>\<open>batch.clear()\<close> with \<open>commit_waiters.clear()\<close>, and with the notification of all waiters.\<close>

definition drop_all :: "'fs flusher \<Rightarrow> 'fs flusher" where
  "drop_all s = s\<lparr>fl_batch := [], fl_waiters := [], fl_dropped := fl_dropped s @ fl_waiters s\<rparr>"

definition notify_all :: "'fs flusher \<Rightarrow> 'fs flusher" where
  "notify_all s = s\<lparr>fl_batch := [], fl_waiters := [], fl_notified := fl_notified s @ fl_waiters s\<rparr>"

definition notify_if :: "(wal_error + 'a) \<times> 'fs \<Rightarrow> 'fs flusher \<Rightarrow> 'fs flusher" where
  "notify_if r s =
     (case r of (Inl _, fs) \<Rightarrow> drop_all (s\<lparr>fl_fs := fs\<rparr>) | (Inr _, fs) \<Rightarrow> notify_all (s\<lparr>fl_fs := fs\<rparr>))"

definition flush_and_notify :: "('k, 'v, 'fs) flusher_env \<Rightarrow> 'fs flusher \<Rightarrow> fault + 'fs flusher" where
  "flush_and_notify P s =
     (if fl_batch s = [] then Inr s
      else case manager_write_batch (fe_crc P) (fe_engine P) (fl_batch s) (fl_manager s) (fl_fs s) of
             (Inl _, sm, fs) \<Rightarrow> Inr (drop_all (s\<lparr>fl_manager := sm, fl_fs := fs\<rparr>))
           | (Inr _, sm, fs) \<Rightarrow>
               (let s1 = s\<lparr>fl_manager := sm, fl_fs := fs\<rparr>
                in case fe_sync_mode P of
                     Full \<Rightarrow> Inr (notify_if (manager_fsync (fe_engine P) sm fs) s1)
                   | DataOnly \<Rightarrow> Inr (notify_if (manager_fsync_data (fe_engine P) sm fs) s1)
                   | Background \<Rightarrow>
                       (case manager_flush_and_clone_fd (fe_engine P) sm fs of
                          (Inl _, fs1) \<Rightarrow> Inr (drop_all (s1\<lparr>fl_fs := fs1\<rparr>))
                        | (Inr fd, fs1) \<Rightarrow>
                            Inr (notify_if (io_try (fe_fd_sync P False fd fs1) (\<lambda>_ fs2. (Inr (), fs2))) s1))
                   | Pipelined \<Rightarrow> Inl Panicked
                   | PipelinedDataOnly \<Rightarrow> Inl Panicked
                   | PipelinedDedicated \<Rightarrow> Inl Panicked
                   | Sync_None \<Rightarrow> Inr (notify_all (s1\<lparr>fl_fs := snd (manager_flush (fe_engine P) sm fs)\<rparr>))))"

text \<open>
  \<open>pipelined_flush\<close> and \<open>dedicated_flush\<close> hand descriptor and waiters to a background job; they differ
  in who runs it and in which sync it uses.
\<close>

definition hand_over :: "bool \<Rightarrow> ('k, 'v, 'fs) flusher_env \<Rightarrow> 'fs flusher \<Rightarrow> 'fs flusher" where
  "hand_over data_sync P s =
     (if fl_batch s = [] then s
      else case manager_write_batch (fe_crc P) (fe_engine P) (fl_batch s) (fl_manager s) (fl_fs s) of
             (Inl _, sm, fs) \<Rightarrow> drop_all (s\<lparr>fl_manager := sm, fl_fs := fs\<rparr>)
           | (Inr _, sm, fs) \<Rightarrow>
               (let s1 = s\<lparr>fl_manager := sm, fl_fs := fs\<rparr>
                in case manager_flush_and_clone_fd (fe_engine P) sm fs of
                     (Inl _, fs1) \<Rightarrow> drop_all (s1\<lparr>fl_fs := fs1\<rparr>)
                   | (Inr fd, fs1) \<Rightarrow>
                       s1\<lparr>fl_fs := fs1, fl_jobs := fl_jobs s1 @ [(fd, data_sync, fl_waiters s1)], fl_waiters := [],
                          fl_batch := []\<rparr>))"

definition pipelined_flush :: "('k, 'v, 'fs) flusher_env \<Rightarrow> 'fs flusher \<Rightarrow> 'fs flusher" where
  "pipelined_flush P s = hand_over (fe_sync_mode P = PipelinedDataOnly) P s"

definition dedicated_flush :: "('k, 'v, 'fs) flusher_env \<Rightarrow> 'fs flusher \<Rightarrow> 'fs flusher" where
  "dedicated_flush P s = hand_over False P s"

text \<open>A background fsync: its error is printed, its waiters are notified either way.\<close>

definition run_job :: "('k, 'v, 'fs) flusher_env \<Rightarrow> nat \<Rightarrow> 'fs flusher \<Rightarrow> 'fs flusher" where
  "run_job P i s =
     (case fl_jobs s ! i of (fd, data_sync, waiters) \<Rightarrow>
        s\<lparr>fl_fs := snd (fe_fd_sync P data_sync fd (fl_fs s)),
          fl_jobs := take i (fl_jobs s) @ drop (Suc i) (fl_jobs s),
          fl_notified := fl_notified s @ waiters\<rparr>)"

text \<open>The choice the task makes at each of its three flush points.\<close>

definition flush_batch :: "('k, 'v, 'fs) flusher_env \<Rightarrow> 'fs flusher \<Rightarrow> fault + 'fs flusher" where
  "flush_batch P s =
     (if fe_sync_mode P = PipelinedDedicated then Inr (dedicated_flush P s)
      else if fe_sync_mode P = Pipelined \<or> fe_sync_mode P = PipelinedDataOnly then Inr (pipelined_flush P s)
      else flush_and_notify P s)"

section \<open>The task\<close>

datatype ('k, 'v) flusher_event =
    Received "('k, 'v) envelope"
  | Timed_Out
  | Stream_Ended
  | Shutdown_Requested "('k, 'v) envelope list"
  | Fsync_Ran nat

text \<open>
  Which events can happen: the timeout only guards the second and later items of a batch, the
  shutdown only the first; a dedicated thread runs its jobs in order, the pool in any order.
  When a stopped task has no job left, it returns.
\<close>

fun flusher_enabled :: "('k, 'v, 'fs) flusher_env \<Rightarrow> ('k, 'v) flusher_event \<Rightarrow> 'fs flusher \<Rightarrow> bool" where
  "flusher_enabled P (Received _) s = (\<not> fl_stopped s \<and> fl_drained s < fe_batch_hint P)"
| "flusher_enabled P Timed_Out s = (\<not> fl_stopped s \<and> 0 < fl_drained s \<and> fl_drained s < fe_batch_hint P)"
| "flusher_enabled P Stream_Ended s = (\<not> fl_stopped s \<and> fl_drained s < fe_batch_hint P)"
| "flusher_enabled P (Shutdown_Requested _) s = (\<not> fl_stopped s \<and> fl_drained s = 0 \<and> 0 < fe_batch_hint P)"
| "flusher_enabled P (Fsync_Ran i) s = (i < length (fl_jobs s) \<and> (fe_sync_mode P = PipelinedDedicated \<longrightarrow> i = 0))"

definition end_batch :: "('k, 'v, 'fs) flusher_env \<Rightarrow> 'fs flusher \<Rightarrow> fault + 'fs flusher" where
  "end_batch P s = try_bind (flush_batch P s) (\<lambda>s1. Inr (s1\<lparr>fl_drained := 0\<rparr>))"

definition stop_task :: "('k, 'v, 'fs) flusher_env \<Rightarrow> 'fs flusher \<Rightarrow> fault + 'fs flusher" where
  "stop_task P s = try_bind (flush_batch P s) (\<lambda>s1. Inr (s1\<lparr>fl_stopped := True\<rparr>))"

fun flusher_step :: "('k, 'v, 'fs) flusher_env \<Rightarrow> ('k, 'v) flusher_event \<Rightarrow> 'fs flusher \<Rightarrow> fault + 'fs flusher" where
  "flusher_step P (Received envl) s =
     (let s1 = collect_envelope P envl s; s2 = s1\<lparr>fl_drained := fl_drained s1 + 1\<rparr>
      in if fl_drained s2 < fe_batch_hint P then Inr s2 else end_batch P s2)"
| "flusher_step P Timed_Out s = end_batch P s"
| "flusher_step P Stream_Ended s = stop_task P s"
| "flusher_step P (Shutdown_Requested envls) s = stop_task P (foldl (\<lambda>s envl. collect_envelope P envl s) s envls)"
| "flusher_step P (Fsync_Ran i) s = Inr (run_job P i s)"

text \<open>A run over a list of events; one that cannot happen is skipped.  Also returned: the envelopes collected.\<close>

fun event_envelopes :: "('k, 'v) flusher_event \<Rightarrow> ('k, 'v) envelope list" where
  "event_envelopes (Received envl) = [envl]"
| "event_envelopes (Shutdown_Requested envls) = envls"
| "event_envelopes _ = []"

fun flusher_run ::
    "('k, 'v, 'fs) flusher_env \<Rightarrow> ('k, 'v) flusher_event list \<Rightarrow> 'fs flusher \<Rightarrow> fault + ('k, 'v) envelope list \<times> 'fs flusher" where
  "flusher_run P [] s = Inr ([], s)"
| "flusher_run P (ev # evs) s =
     (if flusher_enabled P ev s
      then try_bind (flusher_step P ev s) (\<lambda>s1.
             try_bind (flusher_run P evs s1) (\<lambda>(envls, s2). Inr (event_envelopes ev @ envls, s2)))
      else flusher_run P evs s)"

text \<open>The state \<open>Wal::open\<close> starts the task in.\<close>

definition flusher_start :: "segment_manager \<Rightarrow> 'fs \<Rightarrow> 'fs flusher" where
  "flusher_start sm fs =
     \<lparr>fl_manager = sm, fl_fs = fs, fl_next_lsn = 1, fl_batch = [], fl_waiters = [], fl_jobs = [], fl_drained = 0,
      fl_stopped = False, fl_notified = [], fl_dropped = []\<rparr>"

end
