(* ===== verification/Wal_Props.thy ===== *)
theory Wal_Props
  imports Wal_Durability
begin

text \<open>
  The properties of the write-ahead log's files: crash safety through the segment manager, what
  recovery makes of torn and corrupted tails, the classification of transactions, checkpoints.
  A checksum and a decoder that are concrete enough to compute with serve the witnesses.
\<close>

section \<open>A checksum and a decoder\<close>

definition sum_crc :: "bytes \<Rightarrow> u32" where
  "sum_crc bs = of_nat (sum_list (map unat bs))"

text \<open>One byte per transaction id; 0 a commit, 1 an abort, anything else an insertion.\<close>

fun small_deser :: "bytes \<Rightarrow> (u8, bytes) wal_entry option" where
  "small_deser [i, t] =
     (if t = 0 then Some (Commit (ucast i) 0) else if t = 1 then Some (Abort (ucast i) 0)
      else Some (Insert (ucast i) 0 i [t]))"
| "small_deser _ = None"

definition small_rng :: "nat rng_ops" where
  "small_rng = \<lparr>gen_f64 = (\<lambda>n. (1 / 2, n + 1)), gen_range = (\<lambda>lo hi n. (lo, n + 1))\<rparr>"

lemma hash_set_order_id: "hash_set_order (\<lambda>xs. xs)"
  by (simp add: hash_set_order_def)

section \<open>Crash safety\<close>

text \<open>Open a log in an empty directory, run the operations, crash, recover.\<close>

definition run_crash_recover ::
    "(bytes \<Rightarrow> u32) \<Rightarrow> (bytes \<Rightarrow> ('k, 'v) wal_entry option) \<Rightarrow> (u64 list \<Rightarrow> u64 list) \<Rightarrow> 'g rng_ops \<Rightarrow> path \<Rightarrow> u64 \<Rightarrow>
     'g \<Rightarrow> log_op list \<Rightarrow>
     recover_error + ('k, 'v) wal_entry recovered_transaction list \<times> recovery_stats \<times> u64 option" where
  "run_crash_recover crc deser ho ops dir max_size g lops =
     (case try_bind (log_start ops dir max_size g) (log_run crc (sim_engine ops) lops) of
        Inl e \<Rightarrow> Inl (Failed e)
      | Inr s \<Rightarrow> fst (recover crc deser ho (sim_engine ops) dir (fs_crash (lr_fs s))))"

lemma frames_count: "length xs \<le> length (frames crc xs) div HEADER_SIZE"
  by (induction xs) (auto simp: HEADER_SIZE_def frames_def)

lemma run_crash_recover_spec:
  assumes "dir \<noteq> []" "hash_set_order ho"
    and data: "list_all2 (\<lambda>d e. deser d = Some e) (concat (map op_data lops)) es"
    and small: "length (frames crc (concat (map op_data lops))) < 2 ^ 64"
  shows "\<exists>n rs st reset. run_crash_recover crc deser ho ops dir max_size g lops = Inr (rs, st, reset) \<and>
           synced_count 0 0 lops \<le> n \<and> n \<le> length es \<and>
           set (map rt_tx_id rs) = set (map tx_id (take n es)) \<and> distinct (map rt_tx_id rs) \<and>
           (\<forall>r\<in>set rs. rt_action r = outcome (take n es) (rt_tx_id r) \<and> rt_entries r = data_of (take n es) (rt_tx_id r)) \<and>
           partial_writes st = 0 \<and> checksum_failures st = 0"
proof -
  let ?data = "concat (map op_data lops)"
  obtain s0 where s0: "log_start ops dir max_size g = Inr s0" "run_inv crc dir s0" "lr_written s0 = []"
    "lr_synced s0 = 0" "unat (sm_next_segment_id (lr_manager s0)) = 2"
    using log_start_inv [OF assms(1), where ops = ops and max_size = max_size and g = g and crc = crc] by blast
  from frames_count [of ?data crc] small have "2 + length ?data < 2 ^ 64" by (simp add: HEADER_SIZE_def)
  with log_run_inv [OF s0(2), of lops ops] s0(3-5) obtain s where
    s: "log_run crc (sim_engine ops) lops s0 = Inr s" "run_inv crc dir s" "lr_written s = ?data"
      "lr_synced s = synced_count 0 0 lops" by auto
  from recover_after_crash [OF s(2), of deser es ops stats_default] small data s(3,4) obtain found n fs' where
    r: "discover_segment_ids (sim_engine ops) dir (fs_crash (lr_fs s)) = Inr found"
      "read_segments crc deser (sim_engine ops) dir (sort found) [] stats_default (fs_crash (lr_fs s)) =
         (Inr (take n es, stats_default), fs')" "synced_count 0 0 lops \<le> n" "n \<le> length es" by auto
  from recover_spec [OF r(1,2) assms(2)] obtain rs st reset where
    rs: "recover crc deser ho (sim_engine ops) dir (fs_crash (lr_fs s)) = (Inr (rs, st, reset), fs')"
      "distinct (map rt_tx_id rs)" "set (map rt_tx_id rs) = set (map tx_id (take n es))"
      "\<forall>r\<in>set rs. rt_action r = outcome (take n es) (rt_tx_id r) \<and> rt_entries r = data_of (take n es) (rt_tx_id r)"
      "partial_writes st = 0 \<and> checksum_failures st = 0"
    by (auto simp: stats_default_def)
  have "run_crash_recover crc deser ho ops dir max_size g lops = Inr (rs, st, reset)"
    using s0(1) s(1) rs(1) by (simp add: run_crash_recover_def)
  with r(3,4) rs(2-5) show ?thesis by blast
qed

text \<open>
  C7. Crash safety of the log.  After any sequence of batch writes (with the segment rotations they
  cause) and fsyncs on the simulated engine, a crash and a recovery, \<open>recover\<close> succeeds and reports
  the transactions of a prefix of what was written, which contains at least everything written before
  the last fsync: each transaction id of the prefix once, with the status its last marker in the
  prefix gives and its data entries in log order; no torn write and no checksum failure is reported.
\<close>

theorem crash_recovers_synced_prefix:
  assumes "dir \<noteq> []" "hash_set_order ho"
    and "list_all2 (\<lambda>d e. deser d = Some e) (concat (map op_data lops)) es"
    and "length (frames crc (concat (map op_data lops))) < 2 ^ 64"
  shows "\<exists>n rs st reset. run_crash_recover crc deser ho ops dir max_size g lops = Inr (rs, st, reset) \<and>
           synced_count 0 0 lops \<le> n \<and> n \<le> length es \<and>
           set (map rt_tx_id rs) = set (map tx_id (take n es)) \<and> distinct (map rt_tx_id rs) \<and>
           (\<forall>r\<in>set rs. rt_action r = outcome (take n es) (rt_tx_id r) \<and> rt_entries r = data_of (take n es) (rt_tx_id r)) \<and>
           partial_writes st = 0 \<and> checksum_failures st = 0"
  using assms by (rule run_crash_recover_spec)

definition sample_ops :: "log_op list" where
  "sample_ops = [Log_Write [(1, [7, 9]), (1, [7, 0])], Log_Fsync, Log_Write [(2, [8, 5])]]"

definition sample_entries :: "(u8, bytes) wal_entry list" where
  "sample_entries = [Insert 7 0 7 [9], Commit 7 0, Insert 8 0 8 [5]]"

lemma sample_decodes: "list_all2 (\<lambda>d e. small_deser d = Some e) (concat (map op_data sample_ops)) sample_entries"
  by (simp add: sample_ops_def sample_entries_def)

lemma sample_small: "length (frames sum_crc (concat (map op_data sample_ops))) < 2 ^ 64"
  by (simp add: sample_ops_def frames_def HEADER_SIZE_def)

theorem crash_recovers_synced_prefix_witness:
  "\<exists>n rs st reset. run_crash_recover sum_crc small_deser (\<lambda>xs. xs) small_rng [''wal''] 20 0 sample_ops = Inr (rs, st, reset) \<and>
     2 \<le> n \<and> n \<le> 3 \<and>
     set (map rt_tx_id rs) = set (map tx_id (take n sample_entries)) \<and> distinct (map rt_tx_id rs) \<and>
     (\<forall>r\<in>set rs. rt_action r = outcome (take n sample_entries) (rt_tx_id r) \<and>
        rt_entries r = data_of (take n sample_entries) (rt_tx_id r)) \<and>
     partial_writes st = 0 \<and> checksum_failures st = 0"
proof -
  have "synced_count 0 0 sample_ops = 2" "length sample_entries = 3"
    by (simp_all add: sample_ops_def sample_entries_def)
  with crash_recovers_synced_prefix [OF _ hash_set_order_id sample_decodes sample_small, of "[''wal'']" small_rng 20 0]
  show ?thesis by simp
qed

text \<open>A prefix of a log holds either all of a committed transaction or not its marker.\<close>

lemma prefix_all_or_nothing:
  assumes wf: "filter (\<lambda>e. tx_id e = i) es = ds @ [m]" "is_commit m" "\<forall>d\<in>set ds. \<not> is_marker d"
  shows "outcome (take n es) i = Act_Commit \<and> data_of (take n es) i = data_of es i \<or> outcome (take n es) i = Act_Incomplete"
    and "\<forall>e\<in>set (drop n es). tx_id e \<noteq> i \<Longrightarrow> outcome (take n es) i = Act_Commit"
proof -
  let ?of = "\<lambda>e. tx_id e = i"
  have split: "filter ?of (take n es) @ filter ?of (drop n es) = ds @ [m]"
    using wf(1) by (metis append_take_drop_id filter_append)
  have out: "outcome xs i = (case rev (filter is_marker (filter ?of xs)) of [] \<Rightarrow> Act_Incomplete
      | e # _ \<Rightarrow> if is_commit e then Act_Commit else Act_Rollback)" for xs
    by (simp add: outcome_def conj_commute)
  have dat: "data_of xs i = filter (\<lambda>e. \<not> is_marker e) (filter ?of xs)" for xs
    by (simp add: data_of_def conj_commute)
  have none: "filter is_marker xs = []" if "set xs \<subseteq> set ds" for xs using that wf(3) by (auto simp: filter_empty_conv)
  have full: "outcome (take n es) i = Act_Commit \<and> data_of (take n es) i = data_of es i" if "filter ?of (drop n es) = []"
  proof -
    have "filter ?of (take n es) = ds @ [m]" using split that by simp
    then show ?thesis using wf none [of ds] by (simp add: out dat is_marker_def)
  qed
  show "outcome (take n es) i = Act_Commit" if "\<forall>e\<in>set (drop n es). tx_id e \<noteq> i"
    using full that by (simp add: filter_empty_conv)
  show "outcome (take n es) i = Act_Commit \<and> data_of (take n es) i = data_of es i \<or> outcome (take n es) i = Act_Incomplete"
  proof (cases "filter ?of (drop n es)" rule: rev_cases)
    case Nil
    then show ?thesis using full by blast
  next
    case (snoc ys y)
    with split have "ds = filter ?of (take n es) @ ys" by simp
    then have "filter is_marker (filter ?of (take n es)) = []" by (intro none) simp
    then show ?thesis by (simp add: out)
  qed
qed

text \<open>Once the marker itself is in the prefix, the transaction is complete.\<close>

lemma committed_prefix:
  assumes wf: "filter (\<lambda>e. tx_id e = i) es = ds @ [Commit i ts]" "\<forall>d\<in>set ds. \<not> is_commit d \<and> \<not> is_abort d"
    and "Commit i ts \<in> set (take n es)"
  shows "outcome (take n es) i = Act_Commit \<and> data_of (take n es) i = ds"
proof -
  have ds: "\<forall>d\<in>set ds. \<not> is_marker d" using wf(2) by (simp add: is_marker_def)
  have "Commit i ts \<in> set (filter (\<lambda>e. tx_id e = i \<and> is_marker e) (take n es))"
    using assms(3) by (simp add: is_marker_def)
  then have "outcome (take n es) i \<noteq> Act_Incomplete"
    by (cases "filter (\<lambda>e. tx_id e = i \<and> is_marker e) (take n es)" rule: rev_cases) (auto simp: outcome_def)
  moreover have "data_of es i = filter (\<lambda>e. \<not> is_marker e) (filter (\<lambda>e. tx_id e = i) es)"
    by (simp add: data_of_def conj_commute)
  then have "data_of es i = ds" using wf(1) ds by (simp add: is_marker_def filter_id_conv)
  ultimately show ?thesis using prefix_all_or_nothing(1) [OF wf(1) _ ds, of n] by auto
qed

text \<open>
  C9. Atomicity and durability of transactions.  Take a transaction whose entries in the log end in its
  commit marker, with no earlier marker.  However the log was batched, rotated and synced before the
  crash, recovery reports it at most once and either as committed with every one of its data entries in
  order, or as incomplete; and when all of it was written before the last fsync, it is reported, and as
  committed.
\<close>

theorem transactions_atomic_and_durable:
  assumes "dir \<noteq> []" "hash_set_order ho"
    and "list_all2 (\<lambda>d e. deser d = Some e) (concat (map op_data lops)) es"
    and "length (frames crc (concat (map op_data lops))) < 2 ^ 64"
    and "filter (\<lambda>e. tx_id e = i) es = ds @ [m]" "is_commit m" "\<forall>d\<in>set ds. \<not> is_commit d \<and> \<not> is_abort d"
  shows "\<exists>rs st reset. run_crash_recover crc deser ho ops dir max_size g lops = Inr (rs, st, reset) \<and>
           distinct (map rt_tx_id rs) \<and>
           (\<forall>r\<in>set rs. rt_tx_id r = i \<longrightarrow>
              rt_action r = Act_Commit \<and> rt_entries r = ds \<or> rt_action r = Act_Incomplete) \<and>
           ((\<forall>e\<in>set (drop (synced_count 0 0 lops) es). tx_id e \<noteq> i) \<longrightarrow>
              (\<exists>r\<in>set rs. rt_tx_id r = i \<and> rt_action r = Act_Commit \<and> rt_entries r = ds))"
proof -
  obtain n rs st reset where r: "run_crash_recover crc deser ho ops dir max_size g lops = Inr (rs, st, reset)"
    "synced_count 0 0 lops \<le> n" "set (map rt_tx_id rs) = set (map tx_id (take n es))" "distinct (map rt_tx_id rs)"
    "\<forall>r\<in>set rs. rt_action r = outcome (take n es) (rt_tx_id r) \<and> rt_entries r = data_of (take n es) (rt_tx_id r)"
    using run_crash_recover_spec [OF assms(1-4), of ops max_size g] by blast
  have ds: "\<forall>d\<in>set ds. \<not> is_marker d" using assms(7) by (simp add: is_marker_def)
  note pre = prefix_all_or_nothing [OF assms(5,6) ds, of n]
  have "data_of es i = filter (\<lambda>e. \<not> is_marker e) (filter (\<lambda>e. tx_id e = i) es)" by (simp add: data_of_def conj_commute)
  then have data: "data_of es i = ds" using assms(5,6) ds by (simp add: is_marker_def filter_id_conv)
  have "\<exists>r\<in>set rs. rt_tx_id r = i \<and> rt_action r = Act_Commit \<and> rt_entries r = ds"
    if late: "\<forall>e\<in>set (drop (synced_count 0 0 lops) es). tx_id e \<noteq> i"
  proof -
    have "\<forall>e\<in>set (drop n es). tx_id e \<noteq> i" using late set_drop_subset_set_drop [OF r(2), of es] by blast
    with pre have c: "outcome (take n es) i = Act_Commit" by blast
    have "filter (\<lambda>e. tx_id e = i \<and> is_marker e) (take n es) \<noteq> []"
      using c by (auto simp: outcome_def)
    then have "i \<in> set (map rt_tx_id rs)" unfolding r(3) by (auto simp: filter_empty_conv)
    with r(5) c pre data show ?thesis by auto
  qed
  moreover have "\<forall>r\<in>set rs. rt_tx_id r = i \<longrightarrow>
      rt_action r = Act_Commit \<and> rt_entries r = ds \<or> rt_action r = Act_Incomplete"
    using r(5) pre data by auto
  ultimately show ?thesis using r(1,4) by blast
qed

theorem transactions_atomic_and_durable_witness:
  "\<exists>rs st reset. run_crash_recover sum_crc small_deser (\<lambda>xs. xs) small_rng [''wal''] 20 0 sample_ops = Inr (rs, st, reset) \<and>
     (\<exists>r\<in>set rs. rt_tx_id r = 7 \<and> rt_action r = Act_Commit \<and> rt_entries r = [Insert 7 0 7 [9]])"
proof -
  have "synced_count 0 0 sample_ops = 2" by (simp add: sample_ops_def)
  then have s: "\<forall>e\<in>set (drop (synced_count 0 0 sample_ops) sample_entries). tx_id e \<noteq> 7"
    by (simp add: sample_entries_def)
  have "filter (\<lambda>e. tx_id e = 7) sample_entries = [Insert 7 0 7 [9]] @ [Commit 7 0]"
    by (simp add: sample_entries_def)
  from transactions_atomic_and_durable [OF _ hash_set_order_id sample_decodes sample_small this, of "[''wal'']" small_rng 20 0] s
  show ?thesis by auto
qed

section \<open>Torn and corrupted tails\<close>

text \<open>How the reader goes on after complete frames, for any tail.\<close>

lemma read_segment_tail:
  assumes "list_all2 (\<lambda>d e. deser d = Some e) datas es" "length (frames crc datas @ suf) < 2 ^ 64"
    and "e_open_read eng p fs = (Inr (of_nat (length (frames crc datas @ suf)), frames crc datas @ suf), fs')"
  shows "read_segment_entries crc deser eng p entries st fs =
         (case read_entries_loop crc deser (length (frames crc datas @ suf)) (length (frames crc datas)) suf (entries @ es) st of
            Inl f \<Rightarrow> (Inl (Fault f), fs') | Inr r \<Rightarrow> (Inr r, fs'))"
proof -
  let ?file = "frames crc datas @ suf"
  have "read_entries_loop crc deser (length ?file) 0 ?file entries st =
        read_entries_loop crc deser (length ?file) (length (frames crc datas)) suf (entries @ es) st"
    using read_frames [OF assms(1), of 0 crc suf "length ?file" entries st] assms(2) by (simp add: frames_def)
  moreover have "unat (of_nat (length ?file) :: u64) = length ?file" using assms(2) by (simp only: unat_of_nat) simp
  ultimately show ?thesis unfolding read_segment_entries_def assms(3) by (simp only: prod.case sum.case)
qed

text \<open>
  C36. A segment that ends in a torn frame.  When the file holds complete frames followed by a
  non-empty proper prefix of one more, the reader returns exactly the complete entries in order,
  counts one partial write and no checksum failure, and does not fail.
\<close>

theorem torn_tail_is_truncated:
  assumes "list_all2 (\<lambda>d e. deser d = Some e) datas es"
    and "frame crc data = torn @ missing" "torn \<noteq> []" "missing \<noteq> []"
    and "length (frames crc datas @ frame crc data) < 2 ^ 64"
    and "e_open_read eng p fs = (Inr (of_nat (length (frames crc datas @ torn)), frames crc datas @ torn), fs')"
  shows "read_segment_entries crc deser eng p entries st fs =
         (Inr (entries @ es, st\<lparr>partial_writes := partial_writes st + 1\<rparr>), fs')"
proof -
  have "length (frame crc data) = length torn + length missing" using arg_cong [OF assms(2), of length] by simp
  then have "length (frames crc datas @ torn) < 2 ^ 64" using assms(5) by simp
  then show ?thesis
    using read_segment_tail [OF assms(1) _ assms(6), of entries st] assms(5)
      read_torn_frame [OF assms(2-4), of "length (frames crc datas)" deser "entries @ es" st]
    by (simp add: note_partial_def)
qed

text \<open>
  A file system of one file, for the witnesses.
\<close>

definition one_file :: "bytes \<Rightarrow> unit sim_fs" where
  "one_file content = (fs_new () fault_none clock_default)\<lparr>fs_files := [([''f''], file_new_with_data content)]\<rparr>"

definition unit_rng :: "unit rng_ops" where
  "unit_rng = \<lparr>gen_f64 = (\<lambda>_. (1 / 2, ())), gen_range = (\<lambda>lo hi _. (lo, ()))\<rparr>"

lemma open_one_file:
  "e_open_read (sim_engine unit_rng) [''f''] (one_file content) = (Inr (of_nat (length content), content), one_file content)"
  by (simp add: sim_engine_def sim_open_read_def one_file_def fs_new_def fault_none_def should_fault_def
      file_new_with_data_def file_all_bytes_def file_visible_len_def Let_def)

theorem torn_tail_is_truncated_witness:
  "read_segment_entries sum_crc small_deser (sim_engine unit_rng) [''f'']
     [] stats_default (one_file (frames sum_crc [[7, 9]] @ take 14 (frame sum_crc [7, 0]))) =
   (Inr ([Insert 7 0 7 [9]], stats_default\<lparr>partial_writes := 1\<rparr>),
    one_file (frames sum_crc [[7, 9]] @ take 14 (frame sum_crc [7, 0])))"
proof -
  have "frame sum_crc [7, 0] = take 14 (frame sum_crc [7, 0]) @ drop 14 (frame sum_crc [7, 0])" by simp
  moreover have "take 14 (frame sum_crc [7, 0]) \<noteq> []" "drop 14 (frame sum_crc [7, 0]) \<noteq> []"
    using length_frame [of sum_crc "[7, 0]"] by (simp_all add: HEADER_SIZE_def flip: length_0_conv)
  moreover have "length (frames sum_crc [[7, 9]] @ frame sum_crc [7, 0]) < 2 ^ 64" by (simp add: HEADER_SIZE_def)
  ultimately show ?thesis
    using torn_tail_is_truncated [where datas = "[[7, 9]]" and es = "[Insert 7 0 7 [9]]" and deser = small_deser,
        OF _ _ _ _ _ open_one_file, of sum_crc "[7, 0]" "take 14 (frame sum_crc [7, 0])" "drop 14 (frame sum_crc [7, 0])" "[]" stats_default]
    by (simp add: stats_default_def)
qed

lemma read_corrupt_entry:
  assumes "list_all2 (\<lambda>d e. deser d = Some e) datas es"
    and "length body = unat (h_length h)" "crc body \<noteq> h_checksum h"
    and "length (frames crc datas @ header_to_bytes h @ body @ suf) < 2 ^ 64"
    and "e_open_read eng p fs = (Inr (of_nat (length (frames crc datas @ header_to_bytes h @ body @ suf)),
           frames crc datas @ header_to_bytes h @ body @ suf), fs')"
  shows "read_segment_entries crc deser eng p entries st fs =
         (Inr (entries @ es, st\<lparr>checksum_failures := checksum_failures st + 1\<rparr>), fs')"
proof -
  have hd: "header_from_bytes (header_to_bytes h) = h" using header_roundtrip [of h "[]"] by simp
  have "read_entries_loop crc deser (length (frames crc datas @ header_to_bytes h @ body @ suf))
          (length (frames crc datas)) (header_to_bytes h @ body @ suf) (entries @ es) st = Inr (entries @ es, note_checksum st)"
    using assms(2-4) by (simp add: read_entries_loop.simps [of crc deser _ "length (frames crc datas)"] hd Let_def header_validate_def)
  then show ?thesis using read_segment_tail [OF assms(1,4,5), of entries st] by (simp add: note_checksum_def)
qed

text \<open>
  C37. A segment with a corrupted entry.  When complete frames are followed by a header and a body whose
  checksum differs from the header's, the reader returns exactly the entries before it, counts one
  checksum failure, and reads nothing of what follows.
\<close>

theorem corrupt_entry_stops_reader:
  assumes "list_all2 (\<lambda>d e. deser d = Some e) datas es"
    and "length body = unat (h_length h)" "crc body \<noteq> h_checksum h"
    and "length (frames crc datas @ header_to_bytes h @ body @ suf) < 2 ^ 64"
    and "e_open_read eng p fs = (Inr (of_nat (length (frames crc datas @ header_to_bytes h @ body @ suf)),
           frames crc datas @ header_to_bytes h @ body @ suf), fs')"
  shows "read_segment_entries crc deser eng p entries st fs =
         (Inr (entries @ es, st\<lparr>checksum_failures := checksum_failures st + 1\<rparr>), fs')"
  using assms by (rule read_corrupt_entry)

definition bad_header :: wal_header where
  "bad_header = \<lparr>h_length = 2, h_checksum = 99, h_version = 1\<rparr>"

theorem corrupt_entry_stops_reader_witness:
  "read_segment_entries sum_crc small_deser (sim_engine unit_rng) [''f''] [] stats_default
     (one_file (frames sum_crc [[7, 9]] @ header_to_bytes bad_header @ [7, 0] @ [1, 2, 3])) =
   (Inr ([Insert 7 0 7 [9]], stats_default\<lparr>checksum_failures := 1\<rparr>),
    one_file (frames sum_crc [[7, 9]] @ header_to_bytes bad_header @ [7, 0] @ [1, 2, 3]))"
proof -
  have "length [7, 0 :: u8] = unat (h_length bad_header)" "sum_crc [7, 0] \<noteq> h_checksum bad_header"
    "length (frames sum_crc [[7, 9]] @ header_to_bytes bad_header @ [7, 0] @ [1, 2, 3 :: u8]) < 2 ^ 64"
    by (simp_all add: bad_header_def sum_crc_def HEADER_SIZE_def)
  from corrupt_entry_stops_reader [where es = "[Insert 7 0 7 [9]]" and deser = small_deser, OF _ this open_one_file, of "[]" stats_default]
  show ?thesis by (simp add: stats_default_def)
qed

text \<open>
  A corrupted length.  When the eight length bytes of a header following complete frames hold a
  value within 13 of \<open>2\<^sup>6\<^sup>4\<close> or, more precisely, one that overflows when added to the offset, the
  reader panics instead of counting a partial write, and the entries before it are not recovered.
\<close>

theorem overlong_length_panics:
  assumes "list_all2 (\<lambda>d e. deser d = Some e) datas es"
    and "2 ^ 64 \<le> length (frames crc datas) + HEADER_SIZE + unat (h_length h)"
    and "length (frames crc datas @ header_to_bytes h @ suf) < 2 ^ 64"
    and "e_open_read eng p fs = (Inr (of_nat (length (frames crc datas @ header_to_bytes h @ suf)),
           frames crc datas @ header_to_bytes h @ suf), fs')"
  shows "read_segment_entries crc deser eng p entries st fs = (Inl (Fault Panicked), fs')"
proof -
  have hd: "header_from_bytes (header_to_bytes h) = h" using header_roundtrip [of h "[]"] by simp
  have "read_entries_loop crc deser (length (frames crc datas @ header_to_bytes h @ suf))
          (length (frames crc datas)) (header_to_bytes h @ suf) (entries @ es) st = Inl Panicked"
    using assms(2) by (simp add: read_entries_loop.simps [of crc deser _ "length (frames crc datas)"] hd Let_def)
  then show ?thesis using read_segment_tail [OF assms(1,3,4), of entries st] by simp
qed

definition overlong_header :: wal_header where
  "overlong_header = \<lparr>h_length = - 1, h_checksum = 0, h_version = 1\<rparr>"

theorem overlong_length_panics_witness:
  "read_segment_entries sum_crc small_deser (sim_engine unit_rng) [''f''] [] stats_default
     (one_file (frames sum_crc [[7, 9]] @ header_to_bytes overlong_header @ [])) =
   (Inl (Fault Panicked), one_file (frames sum_crc [[7, 9]] @ header_to_bytes overlong_header @ []))"
proof -
  have "2 ^ 64 \<le> length (frames sum_crc [[7, 9]]) + HEADER_SIZE + unat (h_length overlong_header)"
    "length (frames sum_crc [[7, 9]] @ header_to_bytes overlong_header @ []) < 2 ^ 64"
    by (simp_all add: overlong_header_def HEADER_SIZE_def unsigned_minus_1_eq_mask mask_eq_exp_minus_1)
  from overlong_length_panics [where es = "[Insert 7 0 7 [9]]" and deser = small_deser, OF _ this open_one_file]
  show ?thesis by simp
qed

section \<open>Encodings\<close>

text \<open>
  C38. The encodings of the log's files.  The 13-byte entry header is a bijection between headers and
  byte strings of that length; a freshly built header accepts its own data and, for data of less than
  \<open>2\<^sup>6\<^sup>4\<close> bytes, carries its exact length; and the name of a segment parses back to its id.
\<close>

theorem header_and_name_roundtrip:
  "header_from_bytes (header_to_bytes h) = h \<and>
   (length bs = HEADER_SIZE \<longrightarrow> header_to_bytes (header_from_bytes bs) = bs) \<and>
   header_validate crc (header_from_bytes (header_to_bytes (header_new crc data))) data = Inr () \<and>
   (length data < 2 ^ 64 \<longrightarrow> unat (h_length (header_new crc data)) = length data) \<and>
   parse_segment_name (segment_name i) = Some i"
  using header_roundtrip [of h "[]"] header_roundtrip [of "header_new crc data" "[]"] header_bytes_inverse [of bs]
  by (simp add: header_validate_def header_new_def unat_of_nat)

theorem header_and_name_roundtrip_witness:
  "header_to_bytes (header_from_bytes (replicate 13 5)) = replicate 13 5 \<and>
   unat (h_length (header_new sum_crc [1, 2, 3])) = 3 \<and> parse_segment_name (segment_name 123456789) = Some 123456789"
  using header_and_name_roundtrip [of bad_header "replicate 13 5" sum_crc "[1, 2, 3]" 123456789]
  by (simp add: HEADER_SIZE_def)

section \<open>Checkpoints\<close>


definition one_segment :: "unit sim_fs" where
  "one_segment = (fs_new () fault_none clock_default)\<lparr>fs_dirs := [[''wal'']],
     fs_files := [(segment_path [''wal''] 1, file_new_with_data (frames sum_crc [[7, 9], [7, 0]]))]\<rparr>"

definition one_recovered :: "(u8, bytes) wal_entry recovered_transaction list" where
  "one_recovered = [\<lparr>rt_tx_id = 7, rt_action = Act_Commit, rt_entries = [Insert 7 0 7 [9]]\<rparr>]"

lemma one_segment_read:
  "discover_segment_ids (sim_engine unit_rng) [''wal''] one_segment = Inr [1]"
  "read_segments sum_crc small_deser (sim_engine unit_rng) [''wal''] (sort [1]) [] stats_default one_segment =
     (Inr ([Insert 7 0 7 [9], Commit 7 0], stats_default), one_segment)"
proof -
  let ?files = "frames sum_crc [[7, 9], [7, 0]]"
  show "discover_segment_ids (sim_engine unit_rng) [''wal''] one_segment = Inr [1]"
    by (simp add: discover_segment_ids_def sim_engine_def sim_exists_def sim_read_dir_def one_segment_def segment_path_def)
  have "e_open_read (sim_engine unit_rng) (segment_path [''wal''] 1) one_segment = (Inr (of_nat (length (?files @ [])), ?files @ []), one_segment)"
    by (simp add: sim_engine_def sim_open_read_def one_segment_def fs_new_def fault_none_def should_fault_def
        file_new_with_data_def file_all_bytes_def file_visible_len_def Let_def)
  from read_segment_tail [where deser = small_deser and es = "[Insert 7 0 7 [9], Commit 7 0]", OF _ _ this, of "[]" stats_default]
  show "read_segments sum_crc small_deser (sim_engine unit_rng) [''wal''] (sort [1]) [] stats_default one_segment =
      (Inr ([Insert 7 0 7 [9], Commit 7 0], stats_default), one_segment)"
    by (simp add: read_end frames_def HEADER_SIZE_def)
qed

lemma one_segment_recovers:
  "\<exists>st reset fs1. recover sum_crc small_deser (\<lambda>xs. xs) (sim_engine unit_rng) [''wal''] one_segment = (Inr (one_recovered, st, reset), fs1)"
  using one_segment_read by (simp add: recover_def classify_def classify_entry_def build_transaction_def Let_def one_recovered_def)


end
