(* ===== verification/Wal_Commit.thy ===== *)
theory Wal_Commit
  imports Wal_Flusher Wal_Props "HOL-Library.Sublist"
begin

text \<open>
  Correctness of the flusher: in the modes that sync before they notify, a notified commit is in the
  synced part of the log, hence recovered after a crash; on errors the waiters are dropped.
\<close>

section \<open>Invariant of the task\<close>

fun envelope_entry :: "('k, 'v) envelope \<Rightarrow> ('k, 'v) wal_entry" where
  "envelope_entry (Entry e) = e"
| "envelope_entry (CommitBarrier e _) = e"

fun envelope_waiter :: "('k, 'v) envelope \<Rightarrow> waiter list" where
  "envelope_waiter (Entry _) = []"
| "envelope_waiter (CommitBarrier _ w) = [w]"

definition waiters_of :: "('k, 'v) envelope list \<Rightarrow> waiter list" where
  "waiters_of envls = concat (map envelope_waiter envls)"

definition data_bytes :: "('k, 'v, 'fs) flusher_env \<Rightarrow> ('k, 'v) envelope list \<Rightarrow> bytes list" where
  "data_bytes P envls = map (\<lambda>envl. the (fe_serialize P (envelope_entry envl))) envls"

definition serializable :: "('k, 'v, 'fs) flusher_env \<Rightarrow> ('k, 'v) envelope list \<Rightarrow> bool" where
  "serializable P envls \<longleftrightarrow> (\<forall>envl\<in>set envls. fe_serialize P (envelope_entry envl) \<noteq> None)"

lemma waiters_of_append [simp]: "waiters_of (xs @ ys) = waiters_of xs @ waiters_of ys" "waiters_of [] = []"
  by (simp_all add: waiters_of_def)

lemma data_bytes_append [simp]: "data_bytes P (xs @ ys) = data_bytes P xs @ data_bytes P ys" "data_bytes P [] = []"
  "length (data_bytes P xs) = length xs"
  by (simp_all add: data_bytes_def)

lemma serializable_append [simp]: "serializable P (xs @ ys) \<longleftrightarrow> serializable P xs \<and> serializable P ys" "serializable P []"
  by (auto simp: serializable_def)

text \<open>
  \<open>flushed\<close> is in the log and synced, its waiters have been notified; \<open>cur\<close> is in the batch.  \<open>L\<close> is the
  invariant of the log on the engine in use.
\<close>

definition flusher_log_inv ::
    "((bytes \<Rightarrow> u32) \<Rightarrow> path \<Rightarrow> 'fs log_state \<Rightarrow> bool) \<Rightarrow> ('k, 'v, 'fs) flusher_env \<Rightarrow> path \<Rightarrow> ('k, 'v) envelope list \<Rightarrow>
     'fs flusher \<Rightarrow> bool" where
  "flusher_log_inv L P dir envls s \<longleftrightarrow>
     (\<exists>flushed cur. envls = flushed @ cur \<and> map snd (fl_batch s) = data_bytes P cur \<and> fl_waiters s = waiters_of cur \<and>
        fl_notified s = waiters_of flushed \<and> fl_dropped s = [] \<and> fl_jobs s = [] \<and>
        unat (sm_next_segment_id (fl_manager s)) \<le> 2 + length flushed \<and>
        L (fe_crc P) dir \<lparr>lr_manager = fl_manager s, lr_fs = fl_fs s, lr_written = data_bytes P flushed,
          lr_synced = length flushed\<rparr>) \<and>
     (fl_stopped s \<longrightarrow> fl_batch s = [])"

lemma flusher_invI:
  assumes "map snd (fl_batch s) = data_bytes P cur" "fl_waiters s = waiters_of cur" "fl_notified s = waiters_of flushed"
    "fl_dropped s = []" "fl_jobs s = []" "unat (sm_next_segment_id (fl_manager s)) \<le> 2 + length flushed"
    "L (fe_crc P) dir \<lparr>lr_manager = fl_manager s, lr_fs = fl_fs s, lr_written = data_bytes P flushed,
       lr_synced = length flushed\<rparr>" "fl_stopped s \<longrightarrow> fl_batch s = []"
  shows "flusher_log_inv L P dir (flushed @ cur) s"
  unfolding flusher_log_inv_def using assms by blast

lemma flusher_invE:
  assumes "flusher_log_inv L P dir envls s"
  obtains flushed cur where "envls = flushed @ cur" "map snd (fl_batch s) = data_bytes P cur" "fl_waiters s = waiters_of cur"
    "fl_notified s = waiters_of flushed" "fl_dropped s = []" "fl_jobs s = []"
    "unat (sm_next_segment_id (fl_manager s)) \<le> 2 + length flushed"
    "L (fe_crc P) dir \<lparr>lr_manager = fl_manager s, lr_fs = fl_fs s, lr_written = data_bytes P flushed,
       lr_synced = length flushed\<rparr>" "fl_stopped s \<longrightarrow> fl_batch s = []"
  using assms unfolding flusher_log_inv_def by blast

lemma flusher_inv_control [simp]:
  "flusher_log_inv L P dir envls (s\<lparr>fl_drained := n\<rparr>) = flusher_log_inv L P dir envls s"
  "fl_batch s = [] \<Longrightarrow> flusher_log_inv L P dir envls (s\<lparr>fl_stopped := b\<rparr>) = flusher_log_inv L P dir envls s"
  by (simp_all add: flusher_log_inv_def)

lemma collect_envelope_stopped [simp]: "fl_stopped (collect_envelope P envl s) = fl_stopped s"
  by (cases envl) (simp_all add: collect_envelope_def collect_data_def Let_def split: option.splits)

lemma collect_envelope_inv:
  assumes "flusher_log_inv L P dir envls s" "serializable P [envl]" "\<not> fl_stopped s"
  shows "flusher_log_inv L P dir (envls @ [envl]) (collect_envelope P envl s)"
proof -
  from assms(1) obtain flushed cur where c: "envls = flushed @ cur" "map snd (fl_batch s) = data_bytes P cur"
    "fl_waiters s = waiters_of cur" "fl_notified s = waiters_of flushed" "fl_dropped s = []" "fl_jobs s = []"
    "unat (sm_next_segment_id (fl_manager s)) \<le> 2 + length flushed"
    "L (fe_crc P) dir \<lparr>lr_manager = fl_manager s, lr_fs = fl_fs s, lr_written = data_bytes P flushed,
       lr_synced = length flushed\<rparr>"
    by (rule flusher_invE)
  obtain d where "fe_serialize P (envelope_entry envl) = Some d" using assms(2) by (auto simp: serializable_def)
  with c assms(3) have "flusher_log_inv L P dir (flushed @ (cur @ [envl])) (collect_envelope P envl s)"
    by (intro flusher_invI; cases envl)
      (simp_all add: collect_envelope_def collect_data_def Let_def data_bytes_def waiters_of_def)
  with c(1) show ?thesis by simp
qed

lemma collect_all_inv:
  assumes "flusher_log_inv L P dir envls s" "serializable P new" "\<not> fl_stopped s"
  shows "flusher_log_inv L P dir (envls @ new) (foldl (\<lambda>s envl. collect_envelope P envl s) s new)"
  using assms
proof (induction new arbitrary: envls s)
  case (Cons envl new)
  then have "flusher_log_inv L P dir (envls @ [envl]) (collect_envelope P envl s)"
    by (intro collect_envelope_inv) (simp_all add: serializable_def)
  from Cons.IH [OF this] Cons.prems(2,3) show ?case by (simp add: serializable_def)
qed simp

text \<open>The modes that sync in the flusher itself.\<close>

definition syncs_on :: "'fs io_engine \<Rightarrow> ('k, 'v, 'fs) flusher_env \<Rightarrow> bool" where
  "syncs_on eng P \<longleftrightarrow> fe_engine P = eng \<and> (fe_sync_mode P = Full \<or> fe_sync_mode P = DataOnly)"

text \<open>What the flusher needs of the log on its engine: batches are appended, a sync covers what was written.\<close>

locale synced_log =
  fixes eng :: "'fs io_engine" and L :: "(bytes \<Rightarrow> u32) \<Rightarrow> path \<Rightarrow> 'fs log_state \<Rightarrow> bool"
  assumes log_step_keeps: "L crc dir s \<Longrightarrow> unat (sm_next_segment_id (lr_manager s)) + length (op_data op) < 2 ^ 64 \<Longrightarrow>
      \<exists>s'. log_step crc eng op s = Inr s' \<and> L crc dir s' \<and>
        lr_written s' = lr_written s @ op_data op \<and>
        lr_synced s' = (case op of Log_Write _ \<Rightarrow> lr_synced s | Log_Fsync \<Rightarrow> length (lr_written s)) \<and>
        unat (sm_next_segment_id (lr_manager s')) \<le> unat (sm_next_segment_id (lr_manager s)) + length (op_data op)"
    and fsync_data: "manager_fsync_data eng = manager_fsync eng"
begin

lemma flush_batch_ok:
  assumes P: "syncs_on eng P" and inv: "flusher_log_inv L P dir envls s" and room: "2 + length envls < 2 ^ 64"
  shows "\<exists>s'. flush_batch P s = Inr s' \<and> flusher_log_inv L P dir envls s' \<and> fl_batch s' = []"
proof (cases "fl_batch s = []")
  case True
  then show ?thesis using P inv by (auto simp: flush_batch_def flush_and_notify_def syncs_on_def)
next
  case False
  obtain flushed cur where c: "envls = flushed @ cur" "map snd (fl_batch s) = data_bytes P cur" "fl_waiters s = waiters_of cur"
    "fl_notified s = waiters_of flushed" "fl_dropped s = []" "fl_jobs s = []"
    "unat (sm_next_segment_id (fl_manager s)) \<le> 2 + length flushed"
    and r: "L (fe_crc P) dir \<lparr>lr_manager = fl_manager s, lr_fs = fl_fs s, lr_written = data_bytes P flushed,
       lr_synced = length flushed\<rparr>" (is "L _ _ ?l")
    using inv unfolding flusher_log_inv_def by blast
  have len: "length (fl_batch s) = length cur" using arg_cong [OF c(2), of length] by simp
  have "unat (sm_next_segment_id (lr_manager ?l)) + length (op_data (Log_Write (fl_batch s))) < 2 ^ 64"
    using c(1,7) len room by simp
  from log_step_keeps [OF r this] obtain l1 where
    l1: "log_step (fe_crc P) eng (Log_Write (fl_batch s)) ?l = Inr l1" "L (fe_crc P) dir l1"
      "lr_written l1 = data_bytes P envls"
      "unat (sm_next_segment_id (lr_manager l1)) \<le> 2 + length envls"
    using c(1,2,7) len by auto
  have "unat (sm_next_segment_id (lr_manager l1)) + length (op_data Log_Fsync) < 2 ^ 64" using l1(4) room by simp
  from log_step_keeps [OF l1(2) this] obtain l2 where
    l2: "log_step (fe_crc P) eng Log_Fsync l1 = Inr l2" "L (fe_crc P) dir l2"
      "lr_written l2 = data_bytes P envls" "lr_synced l2 = length envls"
    using l1(3) by auto
  from l1(1) obtain sm fs where
    w: "manager_write_batch (fe_crc P) eng (fl_batch s) (fl_manager s) (fl_fs s) = (Inr (), sm, fs)"
      "lr_manager l1 = sm" "lr_fs l1 = fs"
    by (auto split: prod.splits sum.splits)
  from l2(1) obtain fs2 where f: "manager_fsync eng sm fs = (Inr (), fs2)" "lr_fs l2 = fs2" "lr_manager l2 = sm"
    using w(2,3) by (auto split: prod.splits sum.splits)
  let ?s' = "notify_all (s\<lparr>fl_manager := sm, fl_fs := fs2\<rparr>)"
  have "manager_fsync_data (fe_engine P) = manager_fsync (fe_engine P)" using P fsync_data by (simp add: syncs_on_def)
  then have "flush_batch P s = Inr ?s'"
    using P False w(1) f(1) by (auto simp: flush_batch_def flush_and_notify_def syncs_on_def Let_def notify_if_def)
  moreover have "l2 = \<lparr>lr_manager = sm, lr_fs = fs2, lr_written = data_bytes P envls, lr_synced = length envls\<rparr>"
    using l2(3,4) f(2,3) by simp
  with l2(2) have "flusher_log_inv L P dir envls ?s'"
    using c l1(4) w(2) flusher_invI [where flushed = envls and cur = "[]" and s = ?s' and P = P and dir = dir]
    by (simp add: notify_all_def)
  moreover have "fl_batch ?s' = []" by (simp add: notify_all_def)
  ultimately show ?thesis by blast
qed

lemma flusher_step_ok:
  assumes P: "syncs_on eng P" and inv: "flusher_log_inv L P dir envls s" and en: "flusher_enabled P ev s"
    and ser: "serializable P (event_envelopes ev)" and room: "2 + length (envls @ event_envelopes ev) < 2 ^ 64"
  shows "\<exists>s'. flusher_step P ev s = Inr s' \<and> flusher_log_inv L P dir (envls @ event_envelopes ev) s'"
proof -
  have flush: "\<exists>s'. flush_batch P s1 = Inr s' \<and> flusher_log_inv L P dir (envls @ event_envelopes ev) s' \<and> fl_batch s' = []"
    if "flusher_log_inv L P dir (envls @ event_envelopes ev) s1" for s1
    using flush_batch_ok [OF P that room] .
  show ?thesis
  proof (cases ev)
    case (Received envl)
    define s2 where "s2 = (collect_envelope P envl s)\<lparr>fl_drained := fl_drained (collect_envelope P envl s) + 1\<rparr>"
    have inv2: "flusher_log_inv L P dir (envls @ event_envelopes ev) s2"
      using collect_envelope_inv [OF inv] ser en Received by (simp add: s2_def)
    from flush [OF inv2] obtain s3 where "flush_batch P s2 = Inr s3" "flusher_log_inv L P dir (envls @ event_envelopes ev) s3" by blast
    with inv2 show ?thesis
      unfolding Received flusher_step.simps Let_def s2_def [symmetric] end_batch_def
      by simp
  next
    case Timed_Out
    with flush [of s] inv obtain s3 where
      "flush_batch P s = Inr s3" "flusher_log_inv L P dir (envls @ event_envelopes ev) s3" "fl_batch s3 = []" by auto
    with Timed_Out show ?thesis by (simp add: end_batch_def)
  next
    case Stream_Ended
    with flush [of s] inv obtain s3 where
      "flush_batch P s = Inr s3" "flusher_log_inv L P dir (envls @ event_envelopes ev) s3" "fl_batch s3 = []" by auto
    with Stream_Ended show ?thesis by (simp add: stop_task_def)
  next
    case (Shutdown_Requested new)
    with collect_all_inv [OF inv] ser en flush [of "foldl (\<lambda>s envl. collect_envelope P envl s) s new"] obtain s3 where
      "flush_batch P (foldl (\<lambda>s envl. collect_envelope P envl s) s new) = Inr s3" "flusher_log_inv L P dir (envls @ event_envelopes ev) s3" "fl_batch s3 = []"
      by auto
    with Shutdown_Requested show ?thesis by (simp add: stop_task_def)
  next
    case (Fsync_Ran i)
    then show ?thesis using en inv by (auto simp: flusher_log_inv_def)
  qed
qed

lemma flusher_run_ok:
  assumes P: "syncs_on eng P" and inv: "flusher_log_inv L P dir envls s"
    and ser: "serializable P (concat (map event_envelopes evs))"
    and room: "2 + length envls + length (concat (map event_envelopes evs)) < 2 ^ 64"
  shows "\<exists>new s'. flusher_run P evs s = Inr (new, s') \<and> flusher_log_inv L P dir (envls @ new) s' \<and>
           subseq new (concat (map event_envelopes evs))"
  using inv ser room
proof (induction evs arbitrary: envls s)
  case (Cons ev evs)
  show ?case
  proof (cases "flusher_enabled P ev s")
    case True
    have "2 + length (envls @ event_envelopes ev) < 2 ^ 64" using Cons.prems(3) by simp
    from flusher_step_ok [OF P Cons.prems(1) True _ this] Cons.prems(2) obtain s1 where
      s1: "flusher_step P ev s = Inr s1" "flusher_log_inv L P dir (envls @ event_envelopes ev) s1" by auto
    from Cons.IH [OF s1(2)] Cons.prems(2,3) obtain new s' where
      "flusher_run P evs s1 = Inr (new, s')" "flusher_log_inv L P dir ((envls @ event_envelopes ev) @ new) s'"
      "subseq new (concat (map event_envelopes evs))" by auto
    with s1(1) True show ?thesis by (auto intro: list_emb_append_mono)
  next
    case False
    from Cons.IH [OF Cons.prems(1)] Cons.prems(2,3) obtain new s' where
      "flusher_run P evs s = Inr (new, s')" "flusher_log_inv L P dir (envls @ new) s'"
      "subseq new (concat (map event_envelopes evs))" by auto
    with False show ?thesis by (auto intro: list_emb_append2)
  qed
qed auto

end

text \<open>The simulated engine.\<close>

abbreviation flusher_inv ::
    "('k, 'v, 'g sim_fs) flusher_env \<Rightarrow> path \<Rightarrow> ('k, 'v) envelope list \<Rightarrow> 'g sim_fs flusher \<Rightarrow> bool" where
  "flusher_inv \<equiv> flusher_log_inv run_inv"

abbreviation syncs_inline :: "('k, 'v, 'g sim_fs) flusher_env \<Rightarrow> 'g rng_ops \<Rightarrow> bool" where
  "syncs_inline P ops \<equiv> syncs_on (sim_engine ops) P"

lemmas flusher_inv_def = flusher_log_inv_def
lemmas syncs_inline_def = syncs_on_def

interpretation sim_log: synced_log "sim_engine ops" run_inv for ops
proof
  show "manager_fsync_data (sim_engine ops) = manager_fsync (sim_engine ops)"
    by (simp add: fun_eq_iff manager_fsync_data_def manager_fsync_def segment_fsync_data_def segment_fsync_def sim_engine_def)
qed (rule log_step_inv)

section \<open>Commits that were acknowledged\<close>

lemma flusher_start_log:
  assumes "log_open eng dir max_size d fs = Inr l" "L (fe_crc P) dir l" "lr_written l = []" "lr_synced l = 0"
    "unat (sm_next_segment_id (lr_manager l)) = 2"
  shows "\<exists>sm fs'. manager_open eng dir max_size d fs = (Inr sm, fs') \<and> flusher_log_inv L P dir [] (flusher_start sm fs')"
proof -
  obtain sm fs' where o: "manager_open eng dir max_size d fs = (Inr sm, fs')"
    "l = \<lparr>lr_manager = sm, lr_fs = fs', lr_written = [], lr_synced = 0\<rparr>"
    using assms(1) by (auto simp: log_open_def split: prod.splits sum.splits)
  with assms(2-5) have "flusher_log_inv L P dir [] (flusher_start sm fs')" by (simp add: flusher_log_inv_def flusher_start_def)
  with o(1) show ?thesis by blast
qed

lemma flusher_start_inv:
  assumes "dir \<noteq> []" "syncs_inline P ops"
  shows "\<exists>sm fs. manager_open (sim_engine ops) dir max_size False (fs_new g fault_none clock_default) = (Inr sm, fs) \<and>
           flusher_inv P dir [] (flusher_start sm fs)"
  using log_start_inv [OF assms(1), where ops = ops and max_size = max_size and g = g and crc = "fe_crc P"] flusher_start_log
  unfolding log_start_open by metis

lemma length_frames_subseq: "subseq xs ys \<Longrightarrow> length (frames crc xs) \<le> length (frames crc ys)"
  by (induction xs ys rule: list_emb.induct) (auto simp: frames_def)

lemma subseq_set: "subseq xs ys \<Longrightarrow> set xs \<subseteq> set ys"
  by (induction xs ys rule: list_emb.induct) auto

lemma barrier_flushed:
  assumes "w \<in> set (waiters_of flushed)" "distinct (waiters_of (flushed @ cur))" "CommitBarrier e w \<in> set (flushed @ cur)"
  shows "e \<in> set (map envelope_entry flushed)"
proof -
  have "w \<notin> set (waiters_of cur)" using assms(1,2) by auto
  then have "CommitBarrier e w \<notin> set cur" by (force simp: waiters_of_def)
  with assms(3) show ?thesis by force
qed

text \<open>
  A log that can be read again after a crash: \<open>crash\<close> is what a crash makes of the file system, \<open>deser\<close> the
  decoding of entries.
\<close>

locale recoverable_log = synced_log eng L
  for eng :: "'fs io_engine" and L :: "(bytes \<Rightarrow> u32) \<Rightarrow> path \<Rightarrow> 'fs log_state \<Rightarrow> bool" +
  fixes crash :: "'fs \<Rightarrow> 'fs" and deser :: "bytes \<Rightarrow> ('k, 'v) wal_entry option"
  assumes crash_readable: "L crc dir s \<Longrightarrow> length (frames crc (lr_written s)) < 2 ^ 64 \<Longrightarrow>
      list_all2 (\<lambda>d e. deser d = Some e) (lr_written s) es \<Longrightarrow>
      \<exists>found n st' fs'. discover_segment_ids eng dir (crash (lr_fs s)) = Inr found \<and>
        read_segments crc deser eng dir (sort found) [] st (crash (lr_fs s)) = (Inr (take n es, st'), fs') \<and>
        lr_synced s \<le> n \<and> n \<le> length es"
begin

text \<open>What the recovered transactions are, for what a crash leaves of a run.\<close>

lemma flusher_crash_recover:
  assumes inv: "flusher_log_inv L P dir envls s" and ho: "hash_set_order ho"
    and code: "\<forall>envl\<in>set envls. \<exists>d. fe_serialize P (envelope_entry envl) = Some d \<and> deser d = Some (envelope_entry envl)"
    and small: "length (frames (fe_crc P) (data_bytes P envls)) < 2 ^ 64"
  shows "\<exists>flushed cur rs st reset. envls = flushed @ cur \<and> fl_notified s = waiters_of flushed \<and>
           (fl_stopped s \<longrightarrow> cur = []) \<and>
           fst (recover (fe_crc P) deser ho eng dir (crash (fl_fs s))) = Inr (rs, st, reset) \<and>
           set (map rt_tx_id rs) = set (map tx_id (map envelope_entry flushed)) \<and>
           (\<forall>r\<in>set rs. rt_action r = outcome (map envelope_entry flushed) (rt_tx_id r) \<and>
              rt_entries r = data_of (map envelope_entry flushed) (rt_tx_id r))"
proof -
  from inv obtain flushed cur where c: "envls = flushed @ cur" "fl_notified s = waiters_of flushed"
    "map snd (fl_batch s) = data_bytes P cur" "fl_stopped s \<longrightarrow> fl_batch s = []"
    and r: "L (fe_crc P) dir \<lparr>lr_manager = fl_manager s, lr_fs = fl_fs s, lr_written = data_bytes P flushed,
       lr_synced = length flushed\<rparr>" (is "L _ _ ?l")
    by (rule flusher_invE)
  have stop: "fl_stopped s \<longrightarrow> cur = []" using c(3,4) by (auto simp: data_bytes_def)
  have "length (frames (fe_crc P) (lr_written ?l)) < 2 ^ 64" using small c(1) by simp
  moreover have "list_all2 (\<lambda>d e. deser d = Some e) (lr_written ?l) (map envelope_entry flushed)"
  proof -
    have "deser (the (fe_serialize P (envelope_entry envl))) = Some (envelope_entry envl)" if "envl \<in> set flushed" for envl
    proof -
      have "envl \<in> set envls" using c(1) that by simp
      with code obtain d where "fe_serialize P (envelope_entry envl) = Some d" "deser d = Some (envelope_entry envl)" by blast
      then show ?thesis by simp
    qed
    then show ?thesis by (simp add: data_bytes_def list_all2_conv_all_nth)
  qed
  ultimately obtain found st' fs' where
    f: "discover_segment_ids eng dir (crash (fl_fs s)) = Inr found"
      "read_segments (fe_crc P) deser eng dir (sort found) [] stats_default (crash (fl_fs s)) =
         (Inr (map envelope_entry flushed, st'), fs')"
    using crash_readable [OF r, of "map envelope_entry flushed" stats_default] by auto
  from recover_spec [OF f(1,2) ho] obtain rs st reset where
    "fst (recover (fe_crc P) deser ho eng dir (crash (fl_fs s))) = Inr (rs, st, reset)"
    "set (map rt_tx_id rs) = set (map tx_id (map envelope_entry flushed))"
    "\<forall>r\<in>set rs. rt_action r = outcome (map envelope_entry flushed) (rt_tx_id r) \<and>
       rt_entries r = data_of (map envelope_entry flushed) (rt_tx_id r)"
    by auto
  with c(1,2) stop show ?thesis by blast
qed

text \<open>A whole run from a fresh log, then a crash and recovery.\<close>

lemma flusher_run_recovers:
  assumes P: "syncs_on eng P" and inv: "flusher_log_inv L P dir [] s0" and ho: "hash_set_order ho"
    and all: "\<forall>envl\<in>set (concat (map event_envelopes evs)).
           \<exists>d. fe_serialize P (envelope_entry envl) = Some d \<and> deser d = Some (envelope_entry envl)"
    and small: "length (frames (fe_crc P) (data_bytes P (concat (map event_envelopes evs)))) < 2 ^ 64"
  shows "\<exists>envls s flushed cur rs st reset. flusher_run P evs s0 = Inr (envls, s) \<and> envls = flushed @ cur \<and>
           fl_notified s = waiters_of flushed \<and> fl_dropped s = [] \<and> (fl_stopped s \<longrightarrow> cur = []) \<and>
           fst (recover (fe_crc P) deser ho eng dir (crash (fl_fs s))) = Inr (rs, st, reset) \<and>
           set (map rt_tx_id rs) = set (map tx_id (map envelope_entry flushed)) \<and>
           (\<forall>r\<in>set rs. rt_action r = outcome (map envelope_entry flushed) (rt_tx_id r) \<and>
              rt_entries r = data_of (map envelope_entry flushed) (rt_tx_id r))"
proof -
  let ?all = "concat (map event_envelopes evs)"
  have "length (data_bytes P ?all) \<le> length (frames (fe_crc P) (data_bytes P ?all)) div HEADER_SIZE" by (rule frames_count)
  with small have room: "2 + length ?all < 2 ^ 64" by (simp add: HEADER_SIZE_def)
  have "serializable P ?all" using all by (fastforce simp: serializable_def)
  from flusher_run_ok [OF P inv this] room obtain envls s where
    run: "flusher_run P evs s0 = Inr (envls, s)" "flusher_log_inv L P dir envls s" "subseq envls ?all" by auto
  have "set envls \<subseteq> set ?all" by (rule subseq_set [OF run(3)])
  then have code: "\<forall>envl\<in>set envls. \<exists>d. fe_serialize P (envelope_entry envl) = Some d \<and> deser d = Some (envelope_entry envl)"
    using all by blast
  have "subseq (data_bytes P envls) (data_bytes P ?all)" unfolding data_bytes_def by (rule subseq_map [OF run(3)])
  from length_frames_subseq [OF this, of "fe_crc P"] small
  have "length (frames (fe_crc P) (data_bytes P envls)) < 2 ^ 64" by linarith
  from flusher_crash_recover [OF run(2) ho code this] have
    "\<exists>flushed cur rs st reset. envls = flushed @ cur \<and> fl_notified s = waiters_of flushed \<and> (fl_stopped s \<longrightarrow> cur = []) \<and>
       fst (recover (fe_crc P) deser ho eng dir (crash (fl_fs s))) = Inr (rs, st, reset) \<and>
       set (map rt_tx_id rs) = set (map tx_id (map envelope_entry flushed)) \<and>
       (\<forall>r\<in>set rs. rt_action r = outcome (map envelope_entry flushed) (rt_tx_id r) \<and>
          rt_entries r = data_of (map envelope_entry flushed) (rt_tx_id r))" .
  moreover have "fl_dropped s = []" using run(2) by (rule flusher_invE)
  ultimately show ?thesis using run(1) by blast
qed

lemma notified_survive:
  assumes P: "syncs_on eng P" and inv: "flusher_log_inv L P dir [] s0" and ho: "hash_set_order ho"
    and all: "\<forall>envl\<in>set (concat (map event_envelopes evs)).
           \<exists>d. fe_serialize P (envelope_entry envl) = Some d \<and> deser d = Some (envelope_entry envl)"
    and small: "length (frames (fe_crc P) (data_bytes P (concat (map event_envelopes evs)))) < 2 ^ 64"
  shows "\<exists>envls s rs st reset. flusher_run P evs s0 = Inr (envls, s) \<and> fl_dropped s = [] \<and>
           (fl_stopped s \<longrightarrow> fl_notified s = waiters_of envls) \<and>
           fst (recover (fe_crc P) deser ho eng dir (crash (fl_fs s))) = Inr (rs, st, reset) \<and>
           (\<forall>w i ts ds. w \<in> set (fl_notified s) \<longrightarrow> distinct (waiters_of envls) \<longrightarrow>
              CommitBarrier (Commit i ts) w \<in> set envls \<longrightarrow>
              filter (\<lambda>e. tx_id e = i) (map envelope_entry envls) = ds @ [Commit i ts] \<longrightarrow>
              (\<forall>d\<in>set ds. \<not> is_commit d \<and> \<not> is_abort d) \<longrightarrow>
              (\<exists>r\<in>set rs. rt_tx_id r = i \<and> rt_action r = Act_Commit \<and> rt_entries r = ds))"
proof -
  from flusher_run_recovers [OF assms] obtain envls s flushed cur rs st reset where
    run: "flusher_run P evs s0 = Inr (envls, s)" "fl_dropped s = []"
    and c: "envls = flushed @ cur" "fl_notified s = waiters_of flushed" "fl_stopped s \<longrightarrow> cur = []"
    and r: "fst (recover (fe_crc P) deser ho eng dir (crash (fl_fs s))) = Inr (rs, st, reset)"
      "set (map rt_tx_id rs) = set (map tx_id (map envelope_entry flushed))"
      "\<forall>r\<in>set rs. rt_action r = outcome (map envelope_entry flushed) (rt_tx_id r) \<and>
         rt_entries r = data_of (map envelope_entry flushed) (rt_tx_id r)"
    by blast
  have "\<exists>r\<in>set rs. rt_tx_id r = i \<and> rt_action r = Act_Commit \<and> rt_entries r = ds"
    if w: "w \<in> set (fl_notified s)" "distinct (waiters_of envls)" "CommitBarrier (Commit i ts) w \<in> set envls"
      and wf: "filter (\<lambda>e. tx_id e = i) (map envelope_entry envls) = ds @ [Commit i ts]"
        "\<forall>d\<in>set ds. \<not> is_commit d \<and> \<not> is_abort d" for w i ts ds
  proof -
    have in_f: "Commit i ts \<in> set (map envelope_entry flushed)" using w c(1,2) by (intro barrier_flushed) auto
    have "outcome (map envelope_entry flushed) i = Act_Commit \<and> data_of (map envelope_entry flushed) i = ds"
      using committed_prefix [OF wf, of "length flushed"] in_f c(1) by simp
    moreover have "i \<in> set (map rt_tx_id rs)" unfolding r(2) using imageI [OF in_f, of tx_id] by (simp add: image_image)
    ultimately show ?thesis using r(3) by auto
  qed
  moreover have "fl_stopped s \<longrightarrow> fl_notified s = waiters_of envls" using c by simp
  ultimately show ?thesis using run r(1) by blast
qed

end

interpretation sim_recovery: recoverable_log "sim_engine ops" run_inv fs_crash deser for ops deser
  by unfold_locales (use recover_after_crash in blast)


fun small_ser :: "(u8, bytes) wal_entry \<Rightarrow> bytes option" where
  "small_ser (Commit i _) = Some [ucast i, 0]"
| "small_ser (Abort i _) = Some [ucast i, 1]"
| "small_ser (Insert i _ _ [t]) = Some [ucast i, t]"
| "small_ser _ = None"

definition small_env :: "sync_mode \<Rightarrow> (u8, bytes, unit sim_fs) flusher_env" where
  "small_env mode = \<lparr>fe_crc = sum_crc, fe_serialize = small_ser, fe_engine = sim_engine unit_rng,
     fe_fd_sync = (\<lambda>_ _ fs. (Inl Other, fs)), fe_batch_hint = 2, fe_sync_mode = mode\<rparr>"

definition small_events :: "(u8, bytes) flusher_event list" where
  "small_events = [Received (Entry (Insert 7 0 7 [9])), Received (CommitBarrier (Commit 7 0) 0),
     Received (Entry (Insert 8 0 8 [5])), Shutdown_Requested []]"


section \<open>Commits whose sync failed\<close>

text \<open>
  C22. What becomes of the waiters when the batch was written but its sync fails, on any engine.  The
  modes that sync in the flusher drop them, so their \<open>commit\<close> calls return an error.  The pipelined
  modes hand the sync to a background job, and that job notifies them although its sync failed: the
  \<open>commit\<close> calls report a durability that was not reached.
\<close>

theorem failed_sync_outcome:
  assumes "fl_batch s \<noteq> []" "fl_jobs s = []"
    and "manager_write_batch (fe_crc P) (fe_engine P) (fl_batch s) (fl_manager s) (fl_fs s) = (Inr (), sm, fs1)"
    and "fst (manager_fsync (fe_engine P) sm fs1) = Inl e1" "fst (manager_fsync_data (fe_engine P) sm fs1) = Inl e2"
    and "manager_flush_and_clone_fd (fe_engine P) sm fs1 = (Inr fd, fs2)" "\<forall>ds. fe_fd_sync P ds fd fs2 = (Inl e3, fs2)"
  shows "if fe_sync_mode P \<in> {Full, DataOnly, Background}
         then \<exists>s1. flush_batch P s = Inr s1 \<and> fl_notified s1 = fl_notified s \<and> fl_dropped s1 = fl_dropped s @ fl_waiters s
         else fe_sync_mode P \<in> {Pipelined, PipelinedDataOnly, PipelinedDedicated} \<longrightarrow>
           (\<exists>s1 s2. flush_batch P s = Inr s1 \<and> flusher_enabled P (Fsync_Ran 0) s1 \<and>
              flusher_step P (Fsync_Ran 0) s1 = Inr s2 \<and> fl_fs s2 = fs2 \<and>
              fl_notified s2 = fl_notified s @ fl_waiters s \<and> fl_dropped s2 = fl_dropped s)"
proof (cases "fe_sync_mode P \<in> {Full, DataOnly, Background}")
  case True
  with assms show ?thesis
    by (cases "manager_fsync (fe_engine P) sm fs1"; cases "manager_fsync_data (fe_engine P) sm fs1")
      (auto simp: flush_batch_def flush_and_notify_def Let_def notify_if_def drop_all_def)
next
  case False
  from assms(1-3,6) have "hand_over ds P s = s\<lparr>fl_manager := sm, fl_fs := fs2, fl_jobs := [(fd, ds, fl_waiters s)],
      fl_waiters := [], fl_batch := []\<rparr>" for ds
    by (simp add: hand_over_def Let_def)
  with False assms(7) show ?thesis
    by (auto simp: flush_batch_def pipelined_flush_def dedicated_flush_def run_job_def)
qed

text \<open>An engine on which every write succeeds and every sync fails.\<close>

definition no_sync_engine :: "unit io_engine" where
  "no_sync_engine = \<lparr>e_open_append = (\<lambda>_ _ fs. (Inr (), fs)), e_write_all = (\<lambda>_ _ fs. (Inr (), fs)),
     e_flush = (\<lambda>_ fs. (Inr (), fs)), e_sync_all = (\<lambda>_ fs. (Inl Other, fs)), e_sync_data = (\<lambda>_ fs. (Inl Other, fs)),
     e_metadata_len = (\<lambda>_ _. Inr 0), e_open_read = (\<lambda>_ fs. (Inl NotFound, fs)), e_create_dir_all = (\<lambda>_ fs. (Inr (), fs)),
     e_read_dir = (\<lambda>_ _. Inr []), e_remove_file = (\<lambda>_ fs. (Inr (), fs)), e_write_file_bytes = (\<lambda>_ _ fs. (Inr (), fs)),
     e_read_file_bytes = (\<lambda>_ _. Inl NotFound), e_exists = (\<lambda>_ _. True), e_try_clone_file = (\<lambda>p _. Inr p)\<rparr>"

definition no_sync_env :: "(u8, bytes, unit) flusher_env" where
  "no_sync_env = \<lparr>fe_crc = sum_crc, fe_serialize = small_ser, fe_engine = no_sync_engine,
     fe_fd_sync = (\<lambda>_ _ fs. (Inl Other, fs)), fe_batch_hint = 2, fe_sync_mode = Pipelined\<rparr>"

definition open_segment :: "u64 \<Rightarrow> segment" where
  "open_segment n = \<lparr>sg_id = 1, sg_path = segment_path [''wal''] 1, sg_size = n, sg_max_size = 4096,
     sg_entry_count = 0, sg_first_lsn = 0, sg_last_lsn = 0\<rparr>"

definition open_manager :: segment_manager where
  "open_manager = \<lparr>sm_dir = [''wal''], sm_max_segment_size = 4096, sm_direct_io = False, sm_active = open_segment 0,
     sm_sealed = [], sm_next_segment_id = 2\<rparr>"

theorem failed_sync_outcome_witness:
  "\<exists>s1 s2. flush_batch no_sync_env ((flusher_start open_manager ())\<lparr>fl_batch := [(1, [7, 0])], fl_waiters := [5]\<rparr>) = Inr s1 \<and>
     flusher_step no_sync_env (Fsync_Ran 0) s1 = Inr s2 \<and> fl_notified s2 = [5] \<and> fl_dropped s2 = []"
proof -
  define s where "s = (flusher_start open_manager ())\<lparr>fl_batch := [(1, [7, 0])], fl_waiters := [5]\<rparr>"
  define sm where "sm = open_manager\<lparr>sm_active := open_segment 0\<lparr>sg_size := 15, sg_entry_count := 1, sg_first_lsn := 1, sg_last_lsn := 1\<rparr>\<rparr>"
  have "fl_batch s \<noteq> []" "fl_jobs s = []" by (simp_all add: s_def flusher_start_def)
  moreover have "manager_write_batch (fe_crc no_sync_env) (fe_engine no_sync_env) (fl_batch s) (fl_manager s) (fl_fs s) = (Inr (), sm, ())"
    by (simp add: s_def sm_def flusher_start_def no_sync_env_def no_sync_engine_def open_manager_def open_segment_def
        segment_needs_rotation_def segment_append_entry_def HEADER_SIZE_def Let_def)
  moreover have "fst (manager_fsync (fe_engine no_sync_env) sm ()) = Inl (Io Other)"
    "fst (manager_fsync_data (fe_engine no_sync_env) sm ()) = Inl (Io Other)"
    "manager_flush_and_clone_fd (fe_engine no_sync_env) sm () = (Inr (segment_path [''wal''] 1), ())"
    "\<forall>ds. fe_fd_sync no_sync_env ds (segment_path [''wal''] 1) () = (Inl Other, ())"
    by (simp_all add: no_sync_env_def no_sync_engine_def manager_fsync_def manager_fsync_data_def segment_fsync_def segment_fsync_data_def
        manager_flush_and_clone_fd_def segment_flush_and_clone_fd_def sm_def open_manager_def open_segment_def)
  ultimately have "if fe_sync_mode no_sync_env \<in> {Full, DataOnly, Background}
         then \<exists>s1. flush_batch no_sync_env s = Inr s1 \<and> fl_notified s1 = fl_notified s \<and> fl_dropped s1 = fl_dropped s @ fl_waiters s
         else fe_sync_mode no_sync_env \<in> {Pipelined, PipelinedDataOnly, PipelinedDedicated} \<longrightarrow>
           (\<exists>s1 s2. flush_batch no_sync_env s = Inr s1 \<and> flusher_enabled no_sync_env (Fsync_Ran 0) s1 \<and>
              flusher_step no_sync_env (Fsync_Ran 0) s1 = Inr s2 \<and> fl_fs s2 = () \<and>
              fl_notified s2 = fl_notified s @ fl_waiters s \<and> fl_dropped s2 = fl_dropped s)"
    by (rule failed_sync_outcome)
  moreover have "fe_sync_mode no_sync_env = Pipelined" "fl_notified s = []" "fl_waiters s = [5]" "fl_dropped s = []"
    by (simp_all add: no_sync_env_def s_def flusher_start_def)
  ultimately show ?thesis by (auto simp flip: s_def)
qed

section \<open>A failed write\<close>

text \<open>
  A run on the simulated engine in which one write fails, the second: the header of the first entry is
  written, its data is not.
\<close>

definition second_fails :: "nat rng_ops" where
  "second_fails = \<lparr>gen_f64 = (\<lambda>k. (if k = 1 then 0 else 1 / 2, k + 1)), gen_range = (\<lambda>lo hi k. (lo, k + 1))\<rparr>"

definition failing_disk :: "nat sim_fs" where
  "failing_disk = fs_new 0 (fault_none\<lparr>write_fail_rate := 1 / 4\<rparr>) clock_default"

definition add_crc :: "bytes \<Rightarrow> u32" where
  "add_crc bs = foldr (\<lambda>b c. ucast b + c) bs 0"

definition failing_env :: "(u8, bytes, nat sim_fs) flusher_env" where
  "failing_env = \<lparr>fe_crc = add_crc, fe_serialize = small_ser, fe_engine = sim_engine second_fails,
     fe_fd_sync = (\<lambda>_ _ fs. (Inl Other, fs)), fe_batch_hint = 2, fe_sync_mode = Full\<rparr>"

definition two_batches :: "(u8, bytes) flusher_event list" where
  "two_batches = [Received (Entry (Insert 7 0 7 [9])), Received (CommitBarrier (Commit 7 0) 0),
     Received (Entry (Insert 8 0 8 [5])), Received (CommitBarrier (Commit 8 0) 1)]"

definition after_failure :: "nat sim_fs flusher option" where
  "after_failure =
     (case manager_open (sim_engine second_fails) [''wal''] 4096 False failing_disk of
        (Inl _, _) \<Rightarrow> None
      | (Inr sm, fs) \<Rightarrow>
          (case flusher_run failing_env two_batches (flusher_start sm fs) of Inl _ \<Rightarrow> None | Inr (_, s) \<Rightarrow> Some s))"

text \<open>The second batch follows the header without data.\<close>

lemma after_failure_log:
  "map_option (\<lambda>s. (fl_dropped s, fl_notified s, fs_dirs (fl_fs s), read_fail_rate (fs_fault (fl_fs s)),
      map (\<lambda>(p, f). (p, file_crash f)) (fs_files (fl_fs s)))) after_failure =
   Some ([0], [1], [[''wal'']], 0, [([''wal'', ''wal-00000001.log''],
     file_new_with_data (header_to_bytes (header_new add_crc [7, 9]) @ frames add_crc [[8, 5], [8, 0]]))])"
  by code_simp

text \<open>
  C23. A write that fails costs commits that are acknowledged later.  In the mode \<open>Full\<close>, one write of the
  first batch fails after the entry's header was written; the flusher drops that batch's waiter and goes on
  appending to the same segment.  The second batch is written and synced without an error and its commit
  is notified.  After a crash, recovery takes the bytes behind the header for its data, meets a wrong
  checksum, stops, and reports no transaction at all.
\<close>

theorem acknowledged_commit_lost:
  "\<exists>s st reset. after_failure = Some s \<and> fl_dropped s = [0] \<and> fl_notified s = [1] \<and>
     fst (recover add_crc small_deser (\<lambda>xs. xs) (sim_engine second_fails) [''wal''] (fs_crash (fl_fs s))) = Inr ([], st, reset) \<and>
     checksum_failures st = 1"
proof -
  let ?h = "header_new add_crc [7, 9]" and ?rest = "frames add_crc [[8, 5], [8, 0]]"
  obtain s where s: "after_failure = Some s" "fl_dropped s = [0]" "fl_notified s = [1]" "fs_dirs (fl_fs s) = [[''wal'']]"
    "read_fail_rate (fs_fault (fl_fs s)) = 0" "map (\<lambda>(p, f). (p, file_crash f)) (fs_files (fl_fs s)) =
       [([''wal'', ''wal-00000001.log''], file_new_with_data (header_to_bytes ?h @ ?rest))]"
    using after_failure_log by (cases after_failure) auto
  let ?fs = "fs_crash (fl_fs s)"
  have fs: "fs_files ?fs = [([''wal'', ''wal-00000001.log''], file_new_with_data (header_to_bytes ?h @ ?rest))]" "fs_dirs ?fs = [[''wal'']]"
    "read_fail_rate (fs_fault ?fs) = 0" using s(4-6) by (simp_all add: fs_crash_def)
  have name: "segment_name 1 = ''wal-00000001.log''" by code_simp
  then have "parse_segment_name ''wal-00000001.log'' = Some 1" by (metis parse_segment_name_roundtrip)
  then have found: "discover_segment_ids (sim_engine second_fails) [''wal''] ?fs = Inr [1]"
    by (simp add: discover_segment_ids_def sim_engine_def sim_exists_def sim_read_dir_def fs map_filter_simps)
  let ?c = "frames add_crc [] @ header_to_bytes ?h @ take 2 ?rest @ drop 2 ?rest"
  have c: "?c = header_to_bytes ?h @ ?rest" by (simp add: frames_def)
  have r: "e_open_read (sim_engine second_fails) (segment_path [''wal''] 1) ?fs = (Inr (of_nat (length ?c), ?c), ?fs)"
    unfolding c
    by (simp add: sim_engine_def sim_open_read_def fs segment_path_def name file_new_with_data_def file_all_bytes_def file_visible_len_def Let_def)
  have len: "length (take 2 ?rest) = unat (h_length ?h)" by (simp add: header_new_def frames_def HEADER_SIZE_def)
  have "take 2 ?rest = [2, 0]" by code_simp
  then have bad: "add_crc (take 2 ?rest) \<noteq> h_checksum ?h" by (simp add: header_new_def add_crc_def)
  have small: "length ?c < 2 ^ 64" unfolding c by (simp add: frames_def HEADER_SIZE_def)
  have "read_segment_entries add_crc small_deser (sim_engine second_fails) (segment_path [''wal''] 1) [] stats_default ?fs =
      (Inr ([] @ [], stats_default\<lparr>checksum_failures := checksum_failures stats_default + 1\<rparr>), ?fs)"
    by (rule read_corrupt_entry [OF _ len bad small r]) simp
  then have "read_segments add_crc small_deser (sim_engine second_fails) [''wal''] (sort [1]) [] stats_default ?fs =
      (Inr ([], stats_default\<lparr>checksum_failures := checksum_failures stats_default + 1\<rparr>), ?fs)" by simp
  from recover_spec [OF found this hash_set_order_id] s(1-3) show ?thesis by (auto simp: stats_default_def)
qed

end
