(* ===== verification/Wal_Asserts.thy ===== *)
theory Wal_Asserts
  imports Wal_Commit
begin

text \<open>
  The debug assertions of crate \<open>ringwal\<close> (\<open>invariants.rs\<close>), each macro as the predicate it checks, and
  the places of \<open>segment.rs\<close> that evaluate one.  They are compiled out of release builds, so the
  operations of the log do not branch on them; here it is shown that a debug build does not stop at them
  on a well-behaved engine, and that the two numberings they are about (segment ids, sequence numbers) are
  strictly increasing.
\<close>

section \<open>The macros\<close>

text \<open>INV-WAL-01\<close>

definition debug_assert_lsn_monotonic :: "u64 \<Rightarrow> u64 \<Rightarrow> bool" where
  "debug_assert_lsn_monotonic prev current \<longleftrightarrow> prev < current"

text \<open>INV-WAL-02\<close>

definition debug_assert_segment_size :: "u64 \<Rightarrow> u64 \<Rightarrow> bool" where
  "debug_assert_segment_size sz bound \<longleftrightarrow> sz \<le> bound"

text \<open>INV-WAL-03\<close>

definition debug_assert_entry_checksum :: "u32 \<Rightarrow> u32 \<Rightarrow> bool" where
  "debug_assert_entry_checksum expected actual \<longleftrightarrow> expected = actual"

text \<open>INV-WAL-04\<close>

definition debug_assert_segment_id_monotonic :: "u64 \<Rightarrow> u64 \<Rightarrow> bool" where
  "debug_assert_segment_id_monotonic prev current \<longleftrightarrow> prev < current"

section \<open>Where they are evaluated\<close>

text \<open>
  The end of \<open>append_entry\<close>, with the segment it leaves and the bytes it wrote: the bound is
  \<open>self.max_size + total\<close>, an addition that a debug build checks.
\<close>

definition append_assert :: "usize \<Rightarrow> segment \<Rightarrow> bool" where
  "append_assert n seg \<longleftrightarrow>
     unat (sg_max_size seg) + unat n < 2 ^ 64 \<and> debug_assert_segment_size (sg_size seg) (sg_max_size seg + n)"

text \<open>The beginning of \<open>rotate\<close>; the new id is incremented right after, again a checked addition.\<close>

definition rotate_assert :: "segment_manager \<Rightarrow> bool" where
  "rotate_assert sm \<longleftrightarrow>
     debug_assert_segment_id_monotonic (sg_id (sm_active sm)) (sm_next_segment_id sm) \<and> sm_next_segment_id sm \<noteq> - 1"

text \<open>All assertions that \<open>write_batch\<close> meets.\<close>

fun write_batch_asserts ::
    "(bytes \<Rightarrow> u32) \<Rightarrow> 'fs io_engine \<Rightarrow> (u64 \<times> bytes) list \<Rightarrow> segment_manager \<Rightarrow> 'fs \<Rightarrow> bool" where
  "write_batch_asserts crc eng [] sm fs = True"
| "write_batch_asserts crc eng ((lsn, data) # batch) sm fs =
     ((segment_needs_rotation (sm_active sm) \<longrightarrow> rotate_assert sm) \<and>
      (case (if segment_needs_rotation (sm_active sm) then manager_rotate eng sm fs else (Inr (), sm, fs)) of
         (Inl e, sm1, fs1) \<Rightarrow> True
       | (Inr _, sm1, fs1) \<Rightarrow>
           (case segment_append_entry crc eng lsn data (sm_active sm1) fs1 of
              (Inl e, seg, fs2) \<Rightarrow> True
            | (Inr n, seg, fs2) \<Rightarrow>
                append_assert n seg \<and> write_batch_asserts crc eng batch (sm1\<lparr>sm_active := seg\<rparr>) fs2)))"

section \<open>They hold\<close>

lemma append_entry_fields:
  assumes "segment_append_entry crc eng lsn data seg fs = (Inr n, seg', fs')"
  shows "n = of_nat (HEADER_SIZE + length data)" "sg_size seg' = sg_size seg + n" "sg_max_size seg' = sg_max_size seg"
  using assms by (auto simp: segment_append_entry_def Let_def split: prod.splits sum.splits)

text \<open>A segment that does not need rotation, or is empty, has room for the assertion.\<close>

lemma append_assert_holds:
  assumes "segment_append_entry crc eng lsn data seg fs = (Inr n, seg', fs')" "sg_size seg \<le> sg_max_size seg"
    and "unat (sg_max_size seg) + HEADER_SIZE + length data < 2 ^ 64"
  shows "append_assert n seg'"
proof -
  note f = append_entry_fields [OF assms(1)]
  have n: "unat n = HEADER_SIZE + length data" using assms(3) unfolding f(1) by (simp only: unat_of_nat) simp
  have "unat (sg_max_size seg) + unat n < 2 ^ 64" using assms(3) n by simp
  moreover from this have "sg_size seg + n \<le> sg_max_size seg + n"
    using assms(2) unat_add_lem [of "sg_max_size seg" n] unat_add_lem [of "sg_size seg" n]
    by (simp add: word_le_nat_alt)
  ultimately show ?thesis by (simp add: append_assert_def debug_assert_segment_size_def f(2,3))
qed

text \<open>Rotation keeps the maximum and starts a segment whose size is that of the file it opened.\<close>

lemma rotate_fields:
  assumes "manager_rotate eng sm fs = (Inr u, sm', fs')"
  shows "sm_max_segment_size sm' = sm_max_segment_size sm" "sg_max_size (sm_active sm') = sm_max_segment_size sm"
    "\<exists>fs1. e_open_append eng (segment_path (sm_dir sm) (sm_next_segment_id sm)) (sm_direct_io sm) fs = (Inr (), fs1) \<and>
       e_metadata_len eng (segment_path (sm_dir sm) (sm_next_segment_id sm)) fs1 = Inr (sg_size (sm_active sm'))"
  using assms
  by (auto simp: manager_rotate_def segment_open_def io_try_def Let_def split: prod.splits sum.splits)

context durable_engine
begin

lemma rotate_empty:
  assumes fs: "ok fs" "is_dir fs (sm_dir sm)" and log: "manager_log crc (vis fs) (dur fs) sealed ds k sm"
    and rot: "manager_rotate eng sm fs = (Inr u, sm', fs')"
  shows "sg_size (sm_active sm') = 0"
proof -
  let ?n = "segment_name (sm_next_segment_id sm)"
  have "sm_next_segment_id sm \<notin> insert (sg_id (sm_active sm)) (fst ` set sealed)"
    using log manager_log_fresh [OF log] by (fastforce simp: manager_log_def word_less_nat_alt)
  then have "?n \<notin> segment_name ` insert (sg_id (sm_active sm)) (fst ` set sealed)" by (auto simp: image_iff)
  then have fresh: "vis fs (sm_dir sm @ [?n]) = None" using log unfolding manager_log_def by blast
  obtain fs1 where f1: "e_open_append eng (sm_dir sm @ [?n]) (sm_direct_io sm) fs = (Inr (), fs1)"
    "e_metadata_len eng (sm_dir sm @ [?n]) fs1 = Inr (sg_size (sm_active sm'))"
    using rotate_fields(3) [OF rot] by (auto simp: segment_path_def)
  from open_append [OF fs, of ?n "sm_direct_io sm"] f1(1) fresh
  have "ok fs1" "vis fs1 (sm_dir sm @ [?n]) = Some []" by auto
  with metadata_len [OF this] f1(2) show ?thesis by simp
qed

lemma write_batch_asserts_hold:
  assumes "ok fs" "is_dir fs (sm_dir sm)" "manager_log crc (vis fs) (dur fs) sealed ds k sm"
    and "unat (sm_next_segment_id sm) + length batch < 2 ^ 64"
    and "sg_max_size (sm_active sm) = sm_max_segment_size sm"
    and "\<forall>(lsn, data)\<in>set batch. unat (sm_max_segment_size sm) + HEADER_SIZE + length data < 2 ^ 64"
  shows "write_batch_asserts crc eng batch sm fs"
  using assms
proof (induction batch arbitrary: sm fs sealed ds k)
  case (Cons e batch)
  obtain lsn data where e: "e = (lsn, data)" by (cases e)
  have next_id: "Suc (unat (sm_next_segment_id sm)) < 2 ^ 64" using Cons.prems(4) by simp
  have rot: "rotate_assert sm"
  proof -
    have "unat (sm_next_segment_id sm) = Suc (unat (sg_id (sm_active sm)))"
      using Cons.prems(3) by (simp add: manager_log_def)
    moreover have "sm_next_segment_id sm \<noteq> - 1"
      using next_id by (auto simp: unsigned_minus_1_eq_mask mask_eq_exp_minus_1)
    ultimately show ?thesis
      by (simp add: rotate_assert_def debug_assert_segment_id_monotonic_def word_less_nat_alt)
  qed
  obtain sm1 fs1 sealed1 ds1 k1 where
    r: "(if segment_needs_rotation (sm_active sm) then manager_rotate eng sm fs else (Inr (), sm, fs)) = (Inr (), sm1, fs1)"
      "ok fs1" "is_dir fs1 (sm_dir sm1)" "manager_log crc (vis fs1) (dur fs1) sealed1 ds1 k1 sm1"
      "unat (sm_next_segment_id sm1) \<le> Suc (unat (sm_next_segment_id sm))"
      "sg_size (sm_active sm1) \<le> sg_max_size (sm_active sm1)" "sg_max_size (sm_active sm1) = sm_max_segment_size sm1"
      "sm_max_segment_size sm1 = sm_max_segment_size sm"
  proof (cases "segment_needs_rotation (sm_active sm)")
    case True
    from rotate_log [OF Cons.prems(1-3) next_id] obtain sm' fs' where rl:
      "manager_rotate eng sm fs = (Inr (), sm', fs')" "ok fs'" "is_dir fs' (sm_dir sm')"
      "unat (sm_next_segment_id sm') = Suc (unat (sm_next_segment_id sm))"
      "manager_log crc (vis fs') (dur fs') (sealed @ [(sg_id (sm_active sm), ds)]) [] 0 sm'" by blast
    show ?thesis
      by (rule that [OF _ rl(2,3,5)]) (use True rl rotate_fields [OF rl(1)] rotate_empty [OF Cons.prems(1-3) rl(1)] in simp_all)
  next
    case False
    show ?thesis
      by (rule that [OF _ Cons.prems(1-3)]) (use False Cons.prems in \<open>simp_all add: segment_needs_rotation_def\<close>)
  qed
  from append_entry_log [OF r(2-4), of lsn data] obtain n seg fs2 where
    a: "segment_append_entry crc eng lsn data (sm_active sm1) fs1 = (Inr n, seg, fs2)" "ok fs2"
      "is_dir fs2 (sm_dir (sm1\<lparr>sm_active := seg\<rparr>))"
      "manager_log crc (vis fs2) (dur fs2) sealed1 (ds1 @ [data]) k1 (sm1\<lparr>sm_active := seg\<rparr>)" by auto
  have "append_assert n seg"
    by (rule append_assert_holds [OF a(1) r(6)]) (use Cons.prems(6) r(7,8) e in auto)
  moreover have "write_batch_asserts crc eng batch (sm1\<lparr>sm_active := seg\<rparr>) fs2"
    by (rule Cons.IH [OF a(2,3,4)])
      (use Cons.prems(4,6) r(5,7,8) append_entry_fields(3) [OF a(1)] in auto)
  ultimately show ?case using rot r(1) a(1) by (simp add: e)
qed simp

end

section \<open>Sequence numbers\<close>

text \<open>The flusher has numbered its batch upwards from above what the active segment holds.\<close>

definition lsns_ok :: "'fs flusher \<Rightarrow> bool" where
  "lsns_ok s \<longleftrightarrow>
     sorted_wrt (<) (sg_last_lsn (sm_active (fl_manager s)) # map fst (fl_batch s) @ [fl_next_lsn s])"

text \<open>Every append of a batch, against the last sequence number of the segment it goes to.\<close>

fun lsn_asserts :: "(bytes \<Rightarrow> u32) \<Rightarrow> 'fs io_engine \<Rightarrow> (u64 \<times> bytes) list \<Rightarrow> segment_manager \<Rightarrow> 'fs \<Rightarrow> bool" where
  "lsn_asserts crc eng [] sm fs = True"
| "lsn_asserts crc eng ((lsn, data) # batch) sm fs =
     (case (if segment_needs_rotation (sm_active sm) then manager_rotate eng sm fs else (Inr (), sm, fs)) of
        (Inl e, sm1, fs1) \<Rightarrow> True
      | (Inr _, sm1, fs1) \<Rightarrow>
          debug_assert_lsn_monotonic (sg_last_lsn (sm_active sm1)) lsn \<and>
          (case segment_append_entry crc eng lsn data (sm_active sm1) fs1 of
             (Inl e, seg, fs2) \<Rightarrow> True
           | (Inr n, seg, fs2) \<Rightarrow> lsn_asserts crc eng batch (sm1\<lparr>sm_active := seg\<rparr>) fs2))"

lemma rotate_last_lsn:
  "manager_rotate eng sm fs = (res, sm', fs') \<Longrightarrow> sg_last_lsn (sm_active sm') \<le> sg_last_lsn (sm_active sm)"
  by (auto simp: manager_rotate_def segment_open_def io_try_def Let_def split: prod.splits sum.splits)

lemma append_last_lsn:
  "segment_append_entry crc eng lsn data seg fs = (res, seg', fs') \<Longrightarrow>
     sg_last_lsn seg' = (case res of Inl _ \<Rightarrow> sg_last_lsn seg | Inr _ \<Rightarrow> lsn)"
  by (auto simp: segment_append_entry_def Let_def split: prod.splits sum.splits)

text \<open>Writing a batch with increasing numbers below \<open>b\<close> meets the assertion and stays below \<open>b\<close>.\<close>

lemma write_batch_lsns:
  assumes "sorted_wrt (<) (sg_last_lsn (sm_active sm) # map fst batch @ [b])"
  shows "lsn_asserts crc eng batch sm fs"
    and "manager_write_batch crc eng batch sm fs = (res, sm', fs') \<Longrightarrow> sg_last_lsn (sm_active sm') < b"
proof -
  have "lsn_asserts crc eng batch sm fs \<and> sg_last_lsn (sm_active (fst (snd (manager_write_batch crc eng batch sm fs)))) < b"
    using assms
  proof (induction batch arbitrary: sm fs)
    case (Cons e batch)
    obtain lsn data where e: "e = (lsn, data)" by (cases e)
    obtain res1 sm1 fs1 where r: "(if segment_needs_rotation (sm_active sm) then manager_rotate eng sm fs else (Inr (), sm, fs)) = (res1, sm1, fs1)"
      by (metis prod_cases3)
    have le: "sg_last_lsn (sm_active sm1) \<le> sg_last_lsn (sm_active sm)"
      using r rotate_last_lsn [of eng sm fs res1 sm1 fs1] by (auto split: if_splits)
    obtain res2 seg fs2 where a: "segment_append_entry crc eng lsn data (sm_active sm1) fs1 = (res2, seg, fs2)"
      by (metis prod_cases3)
    note l = append_last_lsn [OF a]
    have srt: "sg_last_lsn (sm_active sm) < lsn" "sg_last_lsn (sm_active sm) < b" "sorted_wrt (<) (lsn # map fst batch @ [b])"
      using Cons.prems by (simp_all add: e)
    have lt: "sg_last_lsn (sm_active sm1) < lsn" "sg_last_lsn (sm_active sm1) < b" using le srt(1,2) by simp_all
    show ?case
    proof (cases res1)
      case (Inl x)
      with r lt show ?thesis by (simp add: e)
    next
      case (Inr u)
      show ?thesis
      proof (cases res2)
        case err: (Inl y)
        with Inr r a l lt show ?thesis by (simp add: e debug_assert_lsn_monotonic_def)
      next
        case (Inr n)
        have "lsn_asserts crc eng batch (sm1\<lparr>sm_active := seg\<rparr>) fs2 \<and>
            sg_last_lsn (sm_active (fst (snd (manager_write_batch crc eng batch (sm1\<lparr>sm_active := seg\<rparr>) fs2)))) < b"
          by (rule Cons.IH) (use srt(3) l Inr in simp)
        with \<open>res1 = Inr u\<close> Inr r a lt show ?thesis by (simp add: e debug_assert_lsn_monotonic_def)
      qed
    qed
  qed simp
  then show "lsn_asserts crc eng batch sm fs"
    and "manager_write_batch crc eng batch sm fs = (res, sm', fs') \<Longrightarrow> sg_last_lsn (sm_active sm') < b" by auto
qed

lemma sorted_last_lt: "sorted_wrt (<) (x # ys @ [b]) \<Longrightarrow> x < b" for x b :: "'a::order"
  by simp

lemma lsns_ok_frame [simp]:
  "lsns_ok (s\<lparr>fl_drained := d\<rparr>) = lsns_ok s" "lsns_ok (s\<lparr>fl_stopped := b\<rparr>) = lsns_ok s"
  by (simp_all add: lsns_ok_def)

text \<open>The flusher keeps its numbering as long as the counter does not wrap.\<close>

lemma collect_lsns:
  assumes "lsns_ok s" "fl_next_lsn s \<noteq> - 1"
  shows "lsns_ok (collect_envelope P envl s)" "fl_next_lsn (collect_envelope P envl s) = fl_next_lsn s + 1"
proof -
  let ?a = "sg_last_lsn (sm_active (fl_manager s))" and ?n = "fl_next_lsn s"
  have "1 + ?n \<noteq> 0" using assms(2) by (metis add.commute eq_neg_iff_add_eq_0)
  then have up: "?n < ?n + 1" using unatSuc [of ?n] by (simp add: word_less_nat_alt add.commute)
  have old: "sorted_wrt (<) (?a # map fst (fl_batch s) @ [?n])" using assms(1) by (simp add: lsns_ok_def)
  have "sorted_wrt (<) ((?a # map fst (fl_batch s) @ [?n]) @ [?n + 1])"
    using old up by (auto simp: sorted_wrt_append)
  moreover have "sorted_wrt (<) (?a # map fst (fl_batch s) @ [?n + 1])"
    using old up by (auto simp: sorted_wrt_append)
  ultimately show "lsns_ok (collect_envelope P envl s)"
    by (auto simp: lsns_ok_def collect_envelope_def collect_data_def Let_def split: envelope.split option.split)
  show "fl_next_lsn (collect_envelope P envl s) = fl_next_lsn s + 1"
    by (auto simp: collect_envelope_def collect_data_def Let_def split: envelope.split option.split)
qed

lemma collect_many_lsns:
  assumes "lsns_ok s" "unat (fl_next_lsn s) + length envls < 2 ^ 64"
  shows "lsns_ok (foldl (\<lambda>s envl. collect_envelope P envl s) s envls) \<and>
    unat (fl_next_lsn (foldl (\<lambda>s envl. collect_envelope P envl s) s envls)) = unat (fl_next_lsn s) + length envls"
  using assms
proof (induction envls arbitrary: s)
  case (Cons envl envls)
  have ne: "fl_next_lsn s \<noteq> - 1"
    using Cons.prems(2) by (auto simp: unsigned_minus_1_eq_mask mask_eq_exp_minus_1)
  note c = collect_lsns [OF Cons.prems(1) ne, of P envl]
  have "unat (fl_next_lsn s + 1) = Suc (unat (fl_next_lsn s))"
    using Cons.prems(2) unat_add_lem [of "fl_next_lsn s" 1] by simp
  then show ?case using Cons.IH [OF c(1)] c(2) Cons.prems(2) by simp
qed simp

text \<open>What a flush leaves: nothing in the batch, and the manager of the write.\<close>

lemma flush_batch_frame:
  assumes "flush_batch P s = Inr s'"
  shows "fl_next_lsn s' = fl_next_lsn s \<and>
    (fl_batch s = [] \<and> fl_batch s' = [] \<and> fl_manager s' = fl_manager s \<or>
     fl_batch s' = [] \<and> fl_manager s' = fst (snd (manager_write_batch (fe_crc P) (fe_engine P) (fl_batch s) (fl_manager s) (fl_fs s))))"
  using assms
  by (auto simp: flush_batch_def dedicated_flush_def pipelined_flush_def hand_over_def flush_and_notify_def notify_if_def
      notify_all_def drop_all_def Let_def split: if_splits prod.splits sum.splits sync_mode.splits)

lemma flush_batch_lsns:
  assumes "lsns_ok s" "flush_batch P s = Inr s'"
  shows "lsns_ok s'" "fl_next_lsn s' = fl_next_lsn s"
proof -
  let ?w = "manager_write_batch (fe_crc P) (fe_engine P) (fl_batch s) (fl_manager s) (fl_fs s)"
  have srt: "sorted_wrt (<) (sg_last_lsn (sm_active (fl_manager s)) # map fst (fl_batch s) @ [fl_next_lsn s])"
    using assms(1) by (simp add: lsns_ok_def)
  have "sg_last_lsn (sm_active (fst (snd ?w))) < fl_next_lsn s"
    using write_batch_lsns(2) [OF srt] by (cases ?w) auto
  then show "lsns_ok s'" "fl_next_lsn s' = fl_next_lsn s"
    using flush_batch_frame [OF assms(2)] sorted_last_lt [OF srt] by (auto simp: lsns_ok_def)
qed

lemma flusher_step_lsns:
  assumes "lsns_ok s" "flusher_step P ev s = Inr s'" "unat (fl_next_lsn s) + length (event_envelopes ev) < 2 ^ 64"
  shows "lsns_ok s' \<and> unat (fl_next_lsn s') = unat (fl_next_lsn s) + length (event_envelopes ev)"
proof -
  have batch: "lsns_ok s' \<and> fl_next_lsn s' = fl_next_lsn t"
    if "end_batch P t = Inr s' \<or> stop_task P t = Inr s'" "lsns_ok t" for t
    using that flush_batch_lsns [of t P] by (auto simp: end_batch_def stop_task_def try_bind_Inr_iff)
  show ?thesis
  proof (cases ev)
    case (Received envl)
    have c: "lsns_ok (collect_envelope P envl s)" "unat (fl_next_lsn (collect_envelope P envl s)) = unat (fl_next_lsn s) + 1"
      using collect_many_lsns [OF assms(1), of "[envl]" P] assms(3) Received by simp_all
    then show ?thesis
      using assms(2) batch [of "collect_envelope P envl s\<lparr>fl_drained := fl_drained (collect_envelope P envl s) + 1\<rparr>"] Received
      by (auto simp: Let_def split: if_splits)
  next
    case (Shutdown_Requested envls)
    then show ?thesis
      using collect_many_lsns [OF assms(1), of envls P] assms(2,3)
        batch [of "foldl (\<lambda>s envl. collect_envelope P envl s) s envls"] by auto
  next
    case (Fsync_Ran i)
    then show ?thesis using assms(1,2) by (cases "fl_jobs s ! i") (simp, force simp: run_job_def lsns_ok_def)
  qed (use assms batch [of s] in auto)
qed

text \<open>No step of the task can panic, so a run over any events ends in a state.\<close>

lemma flush_batch_total: "\<exists>s'. flush_batch P s = Inr s'"
  by (cases "fe_sync_mode P") (auto simp: flush_batch_def flush_and_notify_def Let_def split: prod.split sum.split)

lemma flusher_step_total: "\<exists>s'. flusher_step P ev s = Inr s'"
proof -
  have "\<exists>s'. end_batch P t = Inr s'" "\<exists>s'. stop_task P t = Inr s'" for t
    using flush_batch_total [of P t] by (auto simp: end_batch_def stop_task_def)
  then show ?thesis by (cases ev) (auto simp: Let_def)
qed

lemma flusher_run_lsns:
  assumes "lsns_ok s" "unat (fl_next_lsn s) + length (concat (map event_envelopes evs)) < 2 ^ 64"
  shows "\<exists>envls s'. flusher_run P evs s = Inr (envls, s') \<and> lsns_ok s' \<and>
           unat (fl_next_lsn s') = unat (fl_next_lsn s) + length envls"
  using assms
proof (induction evs arbitrary: s)
  case (Cons ev evs)
  show ?case
  proof (cases "flusher_enabled P ev s")
    case True
    obtain s1 where s1: "flusher_step P ev s = Inr s1" using flusher_step_total by blast
    have l: "lsns_ok s1" "unat (fl_next_lsn s1) = unat (fl_next_lsn s) + length (event_envelopes ev)"
      using flusher_step_lsns [OF Cons.prems(1) s1] Cons.prems(2) by simp_all
    from Cons.IH [OF l(1)] l(2) Cons.prems(2) obtain envls s' where
      "flusher_run P evs s1 = Inr (envls, s')" "lsns_ok s'" "unat (fl_next_lsn s') = unat (fl_next_lsn s1) + length envls"
      by auto
    with True s1 l(2) show ?thesis by simp
  next
    case False
    with Cons.IH [OF Cons.prems(1)] Cons.prems(2) show ?thesis by simp
  qed
qed simp

section \<open>A debug build of the log\<close>

text \<open>The assertions of all writes of a run.\<close>

fun log_run_asserts :: "(bytes \<Rightarrow> u32) \<Rightarrow> 'fs io_engine \<Rightarrow> log_op list \<Rightarrow> 'fs log_state \<Rightarrow> bool" where
  "log_run_asserts crc eng [] s = True"
| "log_run_asserts crc eng (op # ops) s =
     ((case op of Log_Write batch \<Rightarrow> write_batch_asserts crc eng batch (lr_manager s) (lr_fs s) | Log_Fsync \<Rightarrow> True) \<and>
      (case log_step crc eng op s of Inl _ \<Rightarrow> True | Inr s1 \<Rightarrow> log_run_asserts crc eng ops s1))"

lemma write_batch_max:
  "manager_write_batch crc eng batch sm fs = (res, sm', fs') \<Longrightarrow> sg_max_size (sm_active sm) = sm_max_segment_size sm \<Longrightarrow>
     sm_max_segment_size sm' = sm_max_segment_size sm \<and> (\<forall>u. res = Inr u \<longrightarrow> sg_max_size (sm_active sm') = sm_max_segment_size sm')"
proof (induction crc eng batch sm fs rule: manager_write_batch.induct)
  case (2 crc eng lsn data batch sm fs)
  have max_rot: "sm_max_segment_size sm1 = sm_max_segment_size sm" if "manager_rotate eng sm fs = (res1, sm1, fs1)" for res1 sm1 fs1
    using that by (auto simp: manager_rotate_def Let_def split: prod.splits sum.splits)
  obtain res1 sm1 fs1 where r: "(if segment_needs_rotation (sm_active sm) then manager_rotate eng sm fs else (Inr (), sm, fs)) = (res1, sm1, fs1)"
    by (metis prod_cases3)
  then have m: "sm_max_segment_size sm1 = sm_max_segment_size sm" using max_rot by (auto split: if_splits)
  show ?case
  proof (cases res1)
    case (Inl x)
    with r 2(2) m show ?thesis by auto
  next
    case (Inr u)
    have a: "sg_max_size (sm_active sm1) = sm_max_segment_size sm1"
    proof (cases "segment_needs_rotation (sm_active sm)")
      case True
      with r Inr have "manager_rotate eng sm fs = (Inr u, sm1, fs1)" by simp
      from rotate_fields(1,2) [OF this] show ?thesis by simp
    next
      case False
      with r have "sm1 = sm" by simp
      then show ?thesis using 2(3) by simp
    qed
    obtain res2 seg fs2 where app: "segment_append_entry crc eng lsn data (sm_active sm1) fs1 = (res2, seg, fs2)"
      by (metis prod_cases3)
    show ?thesis
    proof (cases res2)
      case err: (Inl y)
      with r Inr 2(2) app m show ?thesis by auto
    next
      case ok: (Inr n)
      have "sg_max_size seg = sg_max_size (sm_active sm1)" using append_entry_fields(3) [of crc eng lsn data "sm_active sm1" fs1 n seg fs2] app ok by simp
      with 2(1) [OF r [symmetric] Inr refl app [symmetric] ok refl] 2(2) r Inr ok app a m show ?thesis by simp
    qed
  qed
qed simp

lemma manager_open_max:
  "manager_open eng dir max_size d fs = (Inr sm, fs') \<Longrightarrow>
     sm_max_segment_size sm = max_size \<and> sg_max_size (sm_active sm) = max_size \<and> sg_last_lsn (sm_active sm) = 0"
  by (auto simp: manager_open_def segment_open_def io_try_def Let_def split: prod.splits sum.splits)

lemma log_run_asserts_hold:
  assumes "run_inv crc dir s" "unat (sm_next_segment_id (lr_manager s)) + length (concat (map op_data lops)) < 2 ^ 64"
    and "sm_max_segment_size (lr_manager s) = max_size" "sg_max_size (sm_active (lr_manager s)) = max_size"
    and "\<forall>data\<in>set (concat (map op_data lops)). unat max_size + HEADER_SIZE + length data < 2 ^ 64"
  shows "log_run_asserts crc (sim_engine ops) lops s"
  using assms
proof (induction lops arbitrary: s)
  case (Cons op lops)
  have room: "unat (sm_next_segment_id (lr_manager s)) + length (op_data op) < 2 ^ 64" using Cons.prems(2) by simp
  from log_step_inv [OF Cons.prems(1) room, of ops] obtain s1 where
    s1: "log_step crc (sim_engine ops) op s = Inr s1" "run_inv crc dir s1"
      "unat (sm_next_segment_id (lr_manager s1)) \<le> unat (sm_next_segment_id (lr_manager s)) + length (op_data op)"
    by blast
  have max: "sm_max_segment_size (lr_manager s1) = max_size \<and> sg_max_size (sm_active (lr_manager s1)) = max_size"
  proof (cases op)
    case (Log_Write batch)
    obtain res sm fs where w: "manager_write_batch crc (sim_engine ops) batch (lr_manager s) (lr_fs s) = (res, sm, fs)"
      by (metis prod_cases3)
    show ?thesis using write_batch_max [OF w] s1(1) Cons.prems(3,4) Log_Write w by (auto split: sum.splits)
  qed (use s1(1) Cons.prems(3,4) in \<open>auto split: sum.splits prod.splits\<close>)
  have "log_run_asserts crc (sim_engine ops) lops s1"
    by (rule Cons.IH [OF s1(2)]) (use max s1(3) Cons.prems(2,5) in auto)
  moreover have "write_batch_asserts crc (sim_engine ops) batch (lr_manager s) (lr_fs s)" if op: "op = Log_Write batch" for batch
  proof -
    obtain sealed ds k where "manager_log crc (sim_visible (lr_fs s)) (\<lambda>p. sim_durable_bytes p (lr_fs s)) sealed ds k (lr_manager s)"
      "sim_ok (lr_fs s)" "sim_is_dir (lr_fs s) (sm_dir (lr_manager s))"
      using Cons.prems(1) by (auto simp: run_inv_def)
    then show ?thesis
      by (intro sim.write_batch_asserts_hold) (use room op Cons.prems(3-5) in force)+
  qed
  ultimately show ?case using s1(1) by (simp split: log_op.split)
qed simp

text \<open>
  C25. Debug builds of the log.  On the simulated engine without faults, no assertion of \<open>append_entry\<close> or
  \<open>rotate\<close>, and no checked addition inside one, stops any run of batch writes and fsyncs on a log opened
  fresh, as long as the configured segment size plus one entry stays below \<open>2 ^ 64\<close> and fewer than
  \<open>2 ^ 64 - 2\<close> entries are written.
\<close>

theorem log_assertions_hold:
  assumes "dir \<noteq> []" "length (concat (map op_data lops)) + 2 < 2 ^ 64"
    and "\<forall>data\<in>set (concat (map op_data lops)). unat max_size + HEADER_SIZE + length data < 2 ^ 64"
  shows "\<exists>s. log_start ops dir max_size g = Inr s \<and> log_run_asserts crc (sim_engine ops) lops s"
proof -
  from log_start_inv [OF assms(1), of ops max_size g crc] obtain s where
    s: "log_start ops dir max_size g = Inr s" "run_inv crc dir s" "unat (sm_next_segment_id (lr_manager s)) = 2" by blast
  have "sm_max_segment_size (lr_manager s) = max_size \<and> sg_max_size (sm_active (lr_manager s)) = max_size"
    using s(1) manager_open_max [of "sim_engine ops" dir max_size False] by (auto simp: log_start_def split: prod.splits sum.splits)
  with s show ?thesis using log_run_asserts_hold [OF s(2), of lops max_size ops] assms(2,3) by simp
qed

theorem log_assertions_hold_witness:
  "\<exists>s. log_start \<lparr>gen_f64 = (\<lambda>g. (0, g)), gen_range = (\<lambda>a b g. (a, g))\<rparr> [''wal''] 20 () = Inr s \<and>
     log_run_asserts (\<lambda>_. 0) (sim_engine \<lparr>gen_f64 = (\<lambda>g. (0, g)), gen_range = (\<lambda>a b g. (a, g))\<rparr>)
       [Log_Write [(1, [7, 9]), (2, [7])], Log_Fsync, Log_Write [(3, [8])]] s"
  by (rule log_assertions_hold) (simp_all add: HEADER_SIZE_def)

text \<open>
  With the largest segment size, which turns rotation off, the bound of the assertion cannot be computed:
  a debug build panics on the first append.
\<close>

lemma append_assert_overflow:
  "segment_append_entry crc eng lsn data seg fs = (Inr n, seg', fs') \<Longrightarrow> sg_max_size seg = - 1 \<Longrightarrow> length data < 2 ^ 32 \<Longrightarrow>
     \<not> append_assert n seg'"
proof -
  assume a: "segment_append_entry crc eng lsn data seg fs = (Inr n, seg', fs')" and m: "sg_max_size seg = - 1" and l: "length data < 2 ^ 32"
  have n: "unat n = HEADER_SIZE + length data"
    using l unfolding append_entry_fields(1) [OF a] by (simp only: unat_of_nat) (simp add: HEADER_SIZE_def)
  then show ?thesis
    by (simp add: append_assert_def append_entry_fields(3) [OF a] m n unsigned_minus_1_eq_mask mask_eq_exp_minus_1 HEADER_SIZE_def)
qed



end
