(* ===== verification/Ring_Stream.thy ===== *)
theory Ring_Stream
  imports Channel_Trace
begin

text \<open>
  The asynchronous stream over a channel (crate \<open>ringmpsc-stream\<close>): a factory that registers senders,
  senders with backpressure and the \<open>Sink\<close> protocol, and a receiver with the \<open>Stream\<close> protocol and its
  shutdown handshake.  The notifiers and the timer belong to the runtime: a call of \<open>notify_one\<close> or
  \<open>notify_waiters\<close> is counted, and whether a polled future was ready, or how many timer ticks have
  elapsed, is an argument of the operation that polls.
\<close>

section \<open>Errors and configuration\<close>

datatype stream_error = Full_Error | Closed_Error | RegistrationFailed channel_error | ShutDown

fun is_recoverable :: "stream_error \<Rightarrow> bool" where
  "is_recoverable Full_Error = True"
| "is_recoverable _ = False"

fun is_terminal :: "stream_error \<Rightarrow> bool" where
  "is_terminal Closed_Error = True"
| "is_terminal ShutDown = True"
| "is_terminal _ = False"

text \<open>The interval is in milliseconds.\<close>

record stream_config =
  poll_interval :: nat
  batch_hint :: usize

definition stream_config_default :: stream_config where
  "stream_config_default = \<lparr>poll_interval = 10, batch_hint = 64\<rparr>"

definition low_latency :: stream_config where
  "low_latency = \<lparr>poll_interval = 1, batch_hint = 16\<rparr>"

definition high_throughput :: stream_config where
  "high_throughput = \<lparr>poll_interval = 50, batch_hint = 256\<rparr>"

definition with_poll_interval :: "nat \<Rightarrow> stream_config \<Rightarrow> stream_config" where
  "with_poll_interval d c = c\<lparr>poll_interval := d\<rparr>"

definition with_batch_hint :: "usize \<Rightarrow> stream_config \<Rightarrow> stream_config" where
  "with_batch_hint n c = c\<lparr>batch_hint := n\<rparr>"

section \<open>State\<close>

text \<open>
  \<open>rs_closed\<close> and \<open>rs_shutdown_initiated\<close> are the shared \<open>ShutdownState\<close>.  \<open>rs_shutdown_tx\<close>: the handle
  still has its oneshot sender; \<open>rs_shutdown_rx\<close>: the receiver still has its end, and whether the signal
  was sent.
\<close>

record 'a stream =
  rs_channel :: "'a channel"
  rs_closed :: bool
  rs_shutdown_initiated :: bool
  rs_data_notify :: nat
  rs_relief :: nat
  rs_wakes :: nat
  rs_config :: stream_config
  rs_shutdown_tx :: bool
  rs_shutdown_rx :: "bool option"
  rs_buffer :: "'a list"
  rs_data_pending :: bool
  rs_drain_complete :: bool

definition channel_with_stream_config :: "config \<Rightarrow> stream_config \<Rightarrow> 'a stream" where
  "channel_with_stream_config c sc =
     \<lparr>rs_channel = channel_new False c, rs_closed = False, rs_shutdown_initiated = False, rs_data_notify = 0,
      rs_relief = 0, rs_wakes = 0, rs_config = sc, rs_shutdown_tx = True, rs_shutdown_rx = Some False,
      rs_buffer = [], rs_data_pending = False, rs_drain_complete = False\<rparr>"

definition stream_channel :: "config \<Rightarrow> 'a stream" where
  "stream_channel c = channel_with_stream_config c stream_config_default"

section \<open>Factory and shutdown\<close>

definition factory_register :: "'a stream \<Rightarrow> fault + (stream_error + usize) \<times> 'a stream" where
  "factory_register st =
     (if rs_closed st then Inr (Inl Closed_Error, st)
      else try_bind (channel_register (rs_channel st)) (\<lambda>(res, ch).
        Inr (case res of Inl e \<Rightarrow> Inl (RegistrationFailed e) | Inr i \<Rightarrow> Inr i, st\<lparr>rs_channel := ch\<rparr>)))"

definition factory_close :: "'a stream \<Rightarrow> fault + 'a stream" where
  "factory_close st =
     (let st1 = st\<lparr>rs_closed := True\<rparr>
      in try_bind (channel_close (rs_channel st1)) (\<lambda>ch. Inr (st1\<lparr>rs_channel := ch\<rparr>)))"

definition factory_producer_count :: "'a stream \<Rightarrow> usize" where
  "factory_producer_count st = channel_producer_count (rs_channel st)"

text \<open>\<open>ShutdownHandle::trigger\<close>, called by \<open>RingReceiver::shutdown\<close>.\<close>

definition receiver_shutdown :: "'a stream \<Rightarrow> 'a stream" where
  "receiver_shutdown st =
     (let st1 = st\<lparr>rs_shutdown_initiated := True, rs_closed := True\<rparr>;
          st2 = (if rs_shutdown_tx st1
                 then st1\<lparr>rs_shutdown_tx := False, rs_shutdown_rx := map_option (\<lambda>_. True) (rs_shutdown_rx st1)\<rparr>
                 else st1)
      in st2\<lparr>rs_relief := rs_relief st2 + 1\<rparr>)"

text \<open>\<open>ShutdownSignal::shutdown\<close>: the flags only; the oneshot signal is not sent.\<close>

definition signal_shutdown :: "'a stream \<Rightarrow> 'a stream" where
  "signal_shutdown st =
     (if rs_shutdown_initiated st then st
      else st\<lparr>rs_shutdown_initiated := True, rs_closed := True, rs_relief := rs_relief st + 1\<rparr>)"

definition receiver_is_shutdown :: "'a stream \<Rightarrow> bool" where
  "receiver_is_shutdown st = rs_shutdown_initiated st"

definition buffered_count :: "'a stream \<Rightarrow> nat" where
  "buffered_count st = length (rs_buffer st)"

section \<open>Senders\<close>

text \<open>The producer id, and the item the \<open>Sink\<close> protocol has accepted but not stored.\<close>

record 'a sender =
  sn_producer :: usize
  sn_pending :: "'a option"

definition sender_new :: "usize \<Rightarrow> 'a sender" where
  "sender_new i = \<lparr>sn_producer = i, sn_pending = None\<rparr>"

definition sender_is_closed :: "usize \<Rightarrow> 'a stream \<Rightarrow> fault + bool" where
  "sender_is_closed i st =
     (if rs_closed st then Inr True
      else try_bind (producer_is_closed i (rs_channel st)) (\<lambda>(b, _). Inr b))"

definition sender_close :: "usize \<Rightarrow> 'a stream \<Rightarrow> fault + 'a stream" where
  "sender_close i st = try_bind (producer_close i (rs_channel st)) (\<lambda>(_, ch). Inr (st\<lparr>rs_channel := ch\<rparr>))"

text \<open>
  The part all sending operations share: reserve one slot; when there is one, write the item,
  commit and notify the receiver.
\<close>

definition put_item :: "usize \<Rightarrow> 'a \<Rightarrow> 'a stream \<Rightarrow> fault + bool \<times> 'a stream" where
  "put_item i item st =
     try_bind
       (on_ring i (\<lambda>r. try_bind (ring_reserve 1 r) (\<lambda>(res, r1).
          case res of
            None \<Rightarrow> Inr (False, r1)
          | Some v \<Rightarrow> try_bind (reservation_write v 0 item r1) (\<lambda>r2. Inr (True, reservation_commit v r2))))
        (rs_channel st))
       (\<lambda>(ok, ch). Inr (ok, if ok then st\<lparr>rs_channel := ch, rs_data_notify := rs_data_notify st + 1\<rparr>
                            else st\<lparr>rs_channel := ch\<rparr>))"

definition try_send :: "usize \<Rightarrow> 'a \<Rightarrow> 'a stream \<Rightarrow> fault + ('a + unit) \<times> 'a stream" where
  "try_send i item st =
     try_bind (sender_is_closed i st) (\<lambda>closed.
       if closed then Inr (Inl item, st)
       else try_bind (put_item i item st) (\<lambda>(ok, st1). Inr (if ok then Inr () else Inl item, st1)))"

text \<open>
  \<open>send\<close> between two suspensions: \<open>None\<close> is the wait for \<open>backpressure_notify\<close>.  \<open>wakes\<close> lists what the
  rest of the system does before each wake-up; when it is used up the call is still suspended.
\<close>

definition send_attempt :: "usize \<Rightarrow> 'a \<Rightarrow> 'a stream \<Rightarrow> fault + (stream_error + unit) option \<times> 'a stream" where
  "send_attempt i item st =
     try_bind (sender_is_closed i st) (\<lambda>closed.
       if closed then Inr (Some (Inl Closed_Error), st)
       else try_bind (put_item i item st) (\<lambda>(ok, st1). Inr (if ok then Some (Inr ()) else None, st1)))"

fun send :: "('a stream \<Rightarrow> 'a stream) list \<Rightarrow> usize \<Rightarrow> 'a \<Rightarrow> 'a stream \<Rightarrow> fault + (stream_error + unit) option \<times> 'a stream" where
  "send wakes i item st =
     try_bind (send_attempt i item st) (\<lambda>(res, st1).
       case res of
         Some r \<Rightarrow> Inr (Some r, st1)
       | None \<Rightarrow>
           (case wakes of
              [] \<Rightarrow> Inr (None, st1)
            | w # ws \<Rightarrow>
                (let st2 = w st1
                 in if rs_closed st2 then Inr (Some (Inl Closed_Error), st2) else send ws i item st2)))"

declare send.simps [simp del]

section \<open>The Sink protocol\<close>

datatype 'a poll = Pending | Ready 'a

text \<open>\<open>notified\<close>: whether the freshly created \<open>notified()\<close> future was ready; both ways the poll is pending.\<close>

definition flush_pending :: "bool \<Rightarrow> 'a sender \<Rightarrow> 'a stream \<Rightarrow> fault + (stream_error + unit) poll \<times> 'a sender \<times> 'a stream" where
  "flush_pending notified s st =
     try_bind (sender_is_closed (sn_producer s) st) (\<lambda>closed.
       if closed then Inr (Ready (Inl Closed_Error), s, st)
       else case sn_pending s of
         None \<Rightarrow> Inr (Ready (Inr ()), s, st)
       | Some item \<Rightarrow>
           try_bind (put_item (sn_producer s) item st) (\<lambda>(ok, st1).
             if ok then Inr (Ready (Inr ()), s\<lparr>sn_pending := None\<rparr>, st1)
             else Inr (Pending, s\<lparr>sn_pending := Some item\<rparr>, if notified then st1\<lparr>rs_wakes := rs_wakes st1 + 1\<rparr> else st1)))"

definition poll_ready :: "bool \<Rightarrow> 'a sender \<Rightarrow> 'a stream \<Rightarrow> fault + (stream_error + unit) poll \<times> 'a sender \<times> 'a stream" where
  "poll_ready notified s st = flush_pending notified s st"

definition start_send :: "'a \<Rightarrow> 'a sender \<Rightarrow> 'a stream \<Rightarrow> fault + (stream_error + unit) \<times> 'a sender \<times> 'a stream" where
  "start_send item s st =
     try_bind (sender_is_closed (sn_producer s) st) (\<lambda>closed.
       if closed then Inr (Inl Closed_Error, s, st)
       else try_bind (put_item (sn_producer s) item st) (\<lambda>(ok, st1).
         if ok then Inr (Inr (), s, st1) else Inr (Inr (), s\<lparr>sn_pending := Some item\<rparr>, st1)))"

definition poll_flush :: "bool \<Rightarrow> 'a sender \<Rightarrow> 'a stream \<Rightarrow> fault + (stream_error + unit) poll \<times> 'a sender \<times> 'a stream" where
  "poll_flush notified s st = flush_pending notified s st"

definition poll_close :: "bool \<Rightarrow> 'a sender \<Rightarrow> 'a stream \<Rightarrow> fault + (stream_error + unit) poll \<times> 'a sender \<times> 'a stream" where
  "poll_close notified s st =
     try_bind (poll_flush notified s st) (\<lambda>(res, s1, st1).
       case res of
         Ready (Inr _) \<Rightarrow>
           try_bind (producer_close (sn_producer s1) (rs_channel st1)) (\<lambda>(_, ch).
             Inr (Ready (Inr ()), s1, st1\<lparr>rs_channel := ch\<rparr>))
       | _ \<Rightarrow> Inr (res, s1, st1))"

section \<open>The receiver\<close>

definition push_back :: "'a list \<Rightarrow> 'a \<Rightarrow> 'a list" where
  "push_back b x = b @ [x]"

text \<open>One budgeted drain into the buffer, with the number of items it moved.\<close>

definition drain_batch :: "'a stream \<Rightarrow> fault + nat \<times> 'a stream" where
  "drain_batch st =
     (let batch_limit = saturating_sub (batch_hint (rs_config st)) (of_nat (length (rs_buffer st)))
      in if 0 < batch_limit
         then try_bind (channel_consume_all_up_to_owned batch_limit push_back (rs_buffer st) (rs_channel st))
                (\<lambda>(_, buf, ch). Inr (length buf - length (rs_buffer st), st\<lparr>rs_channel := ch, rs_buffer := buf\<rparr>))
         else Inr (0, st))"

definition drain_all :: "'a stream \<Rightarrow> fault + nat \<times> 'a stream" where
  "drain_all st =
     try_bind (channel_consume_all_owned push_back (rs_buffer st) (rs_channel st))
       (\<lambda>(_, buf, ch). Inr (length buf - length (rs_buffer st), st\<lparr>rs_channel := ch, rs_buffer := buf\<rparr>))"

definition notify_waiters :: "'a stream \<Rightarrow> 'a stream" where
  "notify_waiters st = st\<lparr>rs_relief := rs_relief st + 1\<rparr>"

definition pop_front :: "'a stream \<Rightarrow> ('a \<times> 'a stream) option" where
  "pop_front st = (case rs_buffer st of [] \<Rightarrow> None | x # xs \<Rightarrow> Some (x, st\<lparr>rs_buffer := xs\<rparr>))"

text \<open>The loop over elapsed timer ticks.\<close>

fun tick_loop :: "nat \<Rightarrow> 'a stream \<Rightarrow> fault + 'a option \<times> 'a stream" where
  "tick_loop 0 st = Inr (None, st)"
| "tick_loop (Suc n) st =
     try_bind (drain_batch st) (\<lambda>(cnt, st1).
       if 0 < cnt
       then (case pop_front (notify_waiters st1) of
               Some (x, st2) \<Rightarrow> Inr (Some x, st2)
             | None \<Rightarrow> tick_loop n (notify_waiters st1))
       else tick_loop n st1)"

text \<open>The check for a closed channel that ends \<open>poll_next\<close>.\<close>

definition poll_closed :: "'a stream \<Rightarrow> fault + 'a option poll \<times> 'a stream" where
  "poll_closed st =
     (if rs_closed st
      then try_bind (drain_all st) (\<lambda>(cnt, st1).
             if 0 < cnt
             then (case pop_front (notify_waiters st1) of
                     Some (x, st2) \<Rightarrow> Inr (Ready (Some x), st2)
                   | None \<Rightarrow> Inr (Ready None, notify_waiters st1))
             else Inr (Ready None, st1))
      else Inr (Pending, st))"

text \<open>The re-drain after registering for notification, the timer, and the check.\<close>

definition poll_recheck :: "nat \<Rightarrow> 'a stream \<Rightarrow> fault + 'a option poll \<times> 'a stream" where
  "poll_recheck ticks st =
     try_bind (drain_batch st) (\<lambda>(cnt, st1).
       let st2 = (if 0 < cnt then notify_waiters st1 else st1)
       in case (if 0 < cnt then pop_front st2 else None) of
            Some (x, st3) \<Rightarrow> Inr (Ready (Some x), st3)
          | None \<Rightarrow>
              try_bind (tick_loop ticks st2) (\<lambda>(res, st4).
                case res of Some x \<Rightarrow> Inr (Ready (Some x), st4) | None \<Rightarrow> poll_closed st4))"

text \<open>\<open>data_ready\<close>: the \<open>notified()\<close> future of \<open>data_notify\<close> was ready; \<open>ticks\<close>: elapsed timer ticks.\<close>

definition poll_next :: "bool \<Rightarrow> nat \<Rightarrow> 'a stream \<Rightarrow> fault + 'a option poll \<times> 'a stream" where
  "poll_next data_ready ticks st =
     (case pop_front st of
        Some (x, st1) \<Rightarrow> Inr (Ready (Some x), st1)
      | None \<Rightarrow>
          if rs_drain_complete st then Inr (Ready None, st)
          else if rs_shutdown_rx st = Some True
          then try_bind (drain_all (st\<lparr>rs_shutdown_rx := None\<rparr>)) (\<lambda>(_, st1).
                 let st2 = (notify_waiters st1)\<lparr>rs_drain_complete := True\<rparr>
                 in case pop_front st2 of
                      Some (x, st3) \<Rightarrow> Inr (Ready (Some x), st3)
                    | None \<Rightarrow> Inr (Ready None, st2))
          else
            try_bind
              (if rs_data_pending st
               then try_bind (drain_batch (st\<lparr>rs_data_pending := False\<rparr>)) (\<lambda>(_, st1).
                      Inr (if rs_buffer st1 \<noteq> [] then notify_waiters st1 else st1))
               else Inr st)
              (\<lambda>st1.
                case pop_front st1 of
                  Some (x, st2) \<Rightarrow> Inr (Ready (Some x), st2)
                | None \<Rightarrow>
                    if data_ready
                    then Inr (Pending, st1\<lparr>rs_data_pending := True, rs_wakes := rs_wakes st1 + 1\<rparr>)
                    else poll_recheck ticks st1))"

end
