(* ===== verification/Wal_Writer.thy ===== *)
theory Wal_Writer
  imports Wal_Flusher Ring_Stream
begin

text \<open>
  The front end of the log: its configuration, \<open>Wal::open\<close> and checkpointing, the writers that send
  envelopes through the stream, and transactions that buffer their operations until they commit.
\<close>

section \<open>Configuration\<close>

record wal_config =
  wc_dir :: path
  wc_ring_bits :: u8
  wc_max_writers :: usize
  wc_max_segment_size :: u64
  wc_flush_interval :: nat
  wc_batch_hint :: usize
  wc_enable_metrics :: bool
  wc_sync_mode :: sync_mode
  wc_direct_io :: bool

definition wal_config_new :: "path \<Rightarrow> wal_config" where
  "wal_config_new dir =
     \<lparr>wc_dir = dir, wc_ring_bits = 14, wc_max_writers = 16, wc_max_segment_size = 64 * 1024 * 1024, wc_flush_interval = 10,
      wc_batch_hint = 256, wc_enable_metrics = False, wc_sync_mode = Full, wc_direct_io = False\<rparr>"

definition wal_with_ring_bits :: "u8 \<Rightarrow> wal_config \<Rightarrow> fault + wal_config" where
  "wal_with_ring_bits bits c = (if 1 \<le> bits \<and> bits \<le> 20 then Inr (c\<lparr>wc_ring_bits := bits\<rparr>) else Inl Panicked)"

definition wal_with_max_writers :: "usize \<Rightarrow> wal_config \<Rightarrow> fault + wal_config" where
  "wal_with_max_writers n c = (if 1 \<le> n then Inr (c\<lparr>wc_max_writers := n\<rparr>) else Inl Panicked)"

definition wal_with_max_segment_size :: "u64 \<Rightarrow> wal_config \<Rightarrow> fault + wal_config" where
  "wal_with_max_segment_size n c = (if 4096 \<le> n then Inr (c\<lparr>wc_max_segment_size := n\<rparr>) else Inl Panicked)"

definition wal_with_flush_interval :: "nat \<Rightarrow> wal_config \<Rightarrow> wal_config" where
  "wal_with_flush_interval d c = c\<lparr>wc_flush_interval := d\<rparr>"

definition wal_with_batch_hint :: "usize \<Rightarrow> wal_config \<Rightarrow> wal_config" where
  "wal_with_batch_hint n c = c\<lparr>wc_batch_hint := n\<rparr>"

definition wal_with_metrics :: "bool \<Rightarrow> wal_config \<Rightarrow> wal_config" where
  "wal_with_metrics b c = c\<lparr>wc_enable_metrics := b\<rparr>"

definition wal_with_sync_mode :: "sync_mode \<Rightarrow> wal_config \<Rightarrow> wal_config" where
  "wal_with_sync_mode m c = c\<lparr>wc_sync_mode := m\<rparr>"

definition wal_with_direct_io :: "bool \<Rightarrow> wal_config \<Rightarrow> wal_config" where
  "wal_with_direct_io b c = c\<lparr>wc_direct_io := b\<rparr>"

definition wal_ring_capacity :: "wal_config \<Rightarrow> usize" where
  "wal_ring_capacity c = push_bit (unat (wc_ring_bits c) mod 64) 1"

section \<open>Opening and checkpointing\<close>

text \<open>What \<open>Wal::open\<close> creates: the stream the writers send into and the task that drains it.\<close>

record ('k, 'v, 'fs) wal =
  wl_stream :: "('k, 'v) envelope stream"
  wl_flusher :: "'fs flusher"

definition wal_open :: "'fs io_engine \<Rightarrow> wal_config \<Rightarrow> 'fs \<Rightarrow> fault + (wal_error + ('k, 'v, 'fs) wal) \<times> 'fs" where
  "wal_open eng c fs =
     try_bind (config_new (wc_ring_bits c) (wc_max_writers c) (wc_enable_metrics c)) (\<lambda>ring_config.
       let stream_config = with_batch_hint (wc_batch_hint c) (with_poll_interval (wc_flush_interval c) stream_config_default)
       in case manager_open eng (wc_dir c) (wc_max_segment_size c) (wc_direct_io c) fs of
            (Inl e, fs1) \<Rightarrow> Inr (Inl e, fs1)
          | (Inr sm, fs1) \<Rightarrow>
              Inr (Inr \<lparr>wl_stream = channel_with_stream_config ring_config stream_config, wl_flusher = flusher_start sm fs1\<rparr>, fs1))"

definition wal_current_lsn :: "('k, 'v, 'fs) wal \<Rightarrow> u64" where
  "wal_current_lsn w = fl_next_lsn (wl_flusher w)"

text \<open>
  \<open>Wal::checkpoint\<close>: the result of the truncation is ignored, a panic in it is not.  \<open>deser_bytes\<close> is the
  decoder at \<open>ByteWalEntry\<close>.
\<close>

definition wal_checkpoint ::
    "(bytes \<Rightarrow> u32) \<Rightarrow> (bytes \<Rightarrow> ('k, 'v) wal_entry option) \<Rightarrow> (bytes \<Rightarrow> (string, bytes) wal_entry option) \<Rightarrow>
     (u64 list \<Rightarrow> u64 list) \<Rightarrow> 'fs io_engine \<Rightarrow> path \<Rightarrow> 'fs \<Rightarrow> (recover_error + u64) \<times> 'fs" where
  "wal_checkpoint crc deser deser_bytes ho eng dir fs =
     (case checkpoint crc deser ho eng dir fs of
        (Inl e, fs1) \<Rightarrow> (Inl e, fs1)
      | (Inr lsn, fs1) \<Rightarrow>
          (case truncate_segments_before crc deser_bytes eng dir lsn fs1 of
             (Inl (Fault f), fs2) \<Rightarrow> (Inl (Fault f), fs2)
           | (_, fs2) \<Rightarrow> (Inr lsn, fs2)))"

text \<open>One tick of the checkpoint scheduler: errors are printed or ignored, a panic ends the task.\<close>

definition scheduler_tick ::
    "(bytes \<Rightarrow> u32) \<Rightarrow> (bytes \<Rightarrow> ('k, 'v) wal_entry option) \<Rightarrow> (bytes \<Rightarrow> (string, bytes) wal_entry option) \<Rightarrow>
     (u64 list \<Rightarrow> u64 list) \<Rightarrow> 'fs io_engine \<Rightarrow> path \<Rightarrow> 'fs \<Rightarrow> (fault + unit) \<times> 'fs" where
  "scheduler_tick crc deser deser_bytes ho eng dir fs =
     (case wal_checkpoint crc deser deser_bytes ho eng dir fs of
        (Inl (Fault f), fs1) \<Rightarrow> (Inl f, fs1)
      | (_, fs1) \<Rightarrow> (Inr (), fs1))"

section \<open>Transaction ids\<close>

text \<open>The global counter: \<open>fetch_add(1)\<close> and \<open>fetch_max\<close>.\<close>

definition next_tx_id :: "u64 \<Rightarrow> u64 \<times> u64" where
  "next_tx_id c = (c, c + 1)"

definition reset_tx_id :: "u64 \<Rightarrow> u64 \<Rightarrow> u64" where
  "reset_tx_id m c = max c m"

definition after_recovery :: "u64 option \<Rightarrow> u64 \<Rightarrow> u64" where
  "after_recovery reset c = (case reset of None \<Rightarrow> c | Some m \<Rightarrow> reset_tx_id m c)"

section \<open>Writers\<close>

definition writer_register :: "'a stream \<Rightarrow> fault + (wal_error + usize) \<times> 'a stream" where
  "writer_register st =
     try_bind (factory_register st) (\<lambda>(res, st1).
       Inr (case res of Inl Full_Error \<Rightarrow> Inl (MaxWriters 0) | Inl _ \<Rightarrow> Inl WalClosed | Inr i \<Rightarrow> Inr i, st1))"

definition writer_count :: "('k, 'v) envelope stream \<Rightarrow> usize" where
  "writer_count st = factory_producer_count st"

definition writer_factory_close :: "('k, 'v) envelope stream \<Rightarrow> fault + ('k, 'v) envelope stream" where
  "writer_factory_close st = factory_close st"

text \<open>
  The writer's operations over the sender's \<open>send\<close>, as it ends: \<open>send_env\<close> returns its result and the
  new state.  \<open>await\<close> is the outcome of waiting for the flusher: notified, or the sender was dropped.
\<close>

type_synonym ('k, 'v, 's) sending = "('k, 'v) envelope \<Rightarrow> 's \<Rightarrow> (stream_error + unit) \<times> 's"

definition writer_append :: "('k, 'v, 's) sending \<Rightarrow> ('k, 'v) wal_entry \<Rightarrow> 's \<Rightarrow> (wal_error + unit) \<times> 's" where
  "writer_append send_env e s = (case send_env (Entry e) s of (Inl _, s1) \<Rightarrow> (Inl WalClosed, s1) | (Inr _, s1) \<Rightarrow> (Inr (), s1))"

definition writer_commit ::
    "('k, 'v, 's) sending \<Rightarrow> (waiter \<Rightarrow> 's \<Rightarrow> bool \<times> 's) \<Rightarrow> u64 \<Rightarrow> waiter \<Rightarrow> u64 \<Rightarrow> 's \<Rightarrow> (wal_error + unit) \<times> 's" where
  "writer_commit send_env await timestamp w i s =
     (case send_env (CommitBarrier (Commit i timestamp) w) s of
        (Inl _, s1) \<Rightarrow> (Inl WalClosed, s1)
      | (Inr _, s1) \<Rightarrow> (case await w s1 of (True, s2) \<Rightarrow> (Inr (), s2) | (False, s2) \<Rightarrow> (Inl WalClosed, s2)))"

definition writer_abort :: "('k, 'v, 's) sending \<Rightarrow> u64 \<Rightarrow> u64 \<Rightarrow> 's \<Rightarrow> (wal_error + unit) \<times> 's" where
  "writer_abort send_env timestamp i s = writer_append send_env (Abort i timestamp) s"

section \<open>Transactions\<close>

datatype tx_state = Tx_Active | Tx_Committed | Tx_Aborted

record ('k, 'v) transaction =
  tx_ident :: u64
  tx_status :: tx_state
  tx_entries :: "('k, 'v) wal_entry list"

definition tx_new :: "u64 \<Rightarrow> ('k, 'v) transaction \<times> u64" where
  "tx_new c = (let (i, c1) = next_tx_id c in (\<lparr>tx_ident = i, tx_status = Tx_Active, tx_entries = []\<rparr>, c1))"

definition tx_insert :: "u64 \<Rightarrow> 'k \<Rightarrow> 'v \<Rightarrow> ('k, 'v) transaction \<Rightarrow> ('k, 'v) transaction" where
  "tx_insert timestamp key v t = t\<lparr>tx_entries := tx_entries t @ [Insert (tx_ident t) timestamp key v]\<rparr>"

definition tx_update :: "u64 \<Rightarrow> 'k \<Rightarrow> 'v \<Rightarrow> 'v \<Rightarrow> ('k, 'v) transaction \<Rightarrow> ('k, 'v) transaction" where
  "tx_update timestamp key old_v new_v t = t\<lparr>tx_entries := tx_entries t @ [Update (tx_ident t) timestamp key old_v new_v]\<rparr>"

definition tx_delete :: "u64 \<Rightarrow> 'k \<Rightarrow> 'v \<Rightarrow> ('k, 'v) transaction \<Rightarrow> ('k, 'v) transaction" where
  "tx_delete timestamp key old_v t = t\<lparr>tx_entries := tx_entries t @ [Delete (tx_ident t) timestamp key old_v]\<rparr>"

fun append_all :: "('k, 'v, 's) sending \<Rightarrow> ('k, 'v) wal_entry list \<Rightarrow> 's \<Rightarrow> (wal_error + unit) \<times> 's" where
  "append_all send_env [] s = (Inr (), s)"
| "append_all send_env (e # es) s =
     (case writer_append send_env e s of (Inl err, s1) \<Rightarrow> (Inl err, s1) | (Inr _, s1) \<Rightarrow> append_all send_env es s1)"

definition tx_commit ::
    "('k, 'v, 's) sending \<Rightarrow> (waiter \<Rightarrow> 's \<Rightarrow> bool \<times> 's) \<Rightarrow> u64 \<Rightarrow> waiter \<Rightarrow> ('k, 'v) transaction \<Rightarrow> 's \<Rightarrow>
     (wal_error + unit) \<times> ('k, 'v) transaction \<times> 's" where
  "tx_commit send_env await timestamp w t s =
     (if tx_status t \<noteq> Tx_Active then (Inl (AlreadyFinalized (tx_ident t)), t, s)
      else case append_all send_env (tx_entries t) s of
             (Inl err, s1) \<Rightarrow> (Inl err, t\<lparr>tx_entries := []\<rparr>, s1)
           | (Inr _, s1) \<Rightarrow>
               (case writer_commit send_env await timestamp w (tx_ident t) s1 of
                  (Inl err, s2) \<Rightarrow> (Inl err, t\<lparr>tx_entries := []\<rparr>, s2)
                | (Inr _, s2) \<Rightarrow> (Inr (), t\<lparr>tx_entries := [], tx_status := Tx_Committed\<rparr>, s2)))"

definition tx_abort ::
    "('k, 'v, 's) sending \<Rightarrow> u64 \<Rightarrow> ('k, 'v) transaction \<Rightarrow> 's \<Rightarrow> (wal_error + unit) \<times> ('k, 'v) transaction \<times> 's" where
  "tx_abort send_env timestamp t s =
     (if tx_status t \<noteq> Tx_Active then (Inl (AlreadyFinalized (tx_ident t)), t, s)
      else case writer_abort send_env timestamp (tx_ident t) s of
             (Inl err, s1) \<Rightarrow> (Inl err, t\<lparr>tx_entries := []\<rparr>, s1)
           | (Inr _, s1) \<Rightarrow> (Inr (), t\<lparr>tx_entries := [], tx_status := Tx_Aborted\<rparr>, s1))"

definition tx_pending_count :: "('k, 'v) transaction \<Rightarrow> nat" where
  "tx_pending_count t = length (tx_entries t)"

section \<open>What a transaction sends\<close>

text \<open>
  The contract of \<open>send\<close> as a writer sees it: an accepted envelope is appended to the writer's queue, a
  refused one changes nothing there.
\<close>

locale envelope_sender =
  fixes send_env :: "('k, 'v, 's) sending" and ok :: "'s \<Rightarrow> bool" and sent :: "'s \<Rightarrow> ('k, 'v) envelope list"
  assumes accepted: "ok s \<Longrightarrow> send_env envl s = (Inr u, s') \<Longrightarrow> ok s' \<and> sent s' = sent s @ [envl]"
    and refused: "ok s \<Longrightarrow> send_env envl s = (Inl e, s') \<Longrightarrow> ok s' \<and> sent s' = sent s"
begin

lemma append_sent:
  assumes "ok s" "writer_append send_env e s = (res, s')"
  shows "ok s' \<and> sent s' = sent s @ (case res of Inl _ \<Rightarrow> [] | Inr _ \<Rightarrow> [Entry e])"
proof -
  obtain r s1 where r: "send_env (Entry e) s = (r, s1)" by (cases "send_env (Entry e) s")
  then show ?thesis
    using assms accepted [OF assms(1), of "Entry e"] refused [OF assms(1), of "Entry e"]
    by (cases r) (auto simp: writer_append_def)
qed

lemma append_all_sent:
  assumes "ok s" "append_all send_env es s = (res, s')"
  shows "ok s' \<and> (\<exists>k. k \<le> length es \<and> sent s' = sent s @ map Entry (take k es) \<and> (res = Inr () \<longrightarrow> k = length es) \<and>
           ((\<exists>err. res = Inl err) \<longrightarrow> k < length es))"
  using assms
proof (induction es arbitrary: s)
  case (Cons e es)
  obtain r s1 where a: "writer_append send_env e s = (r, s1)" by (cases "writer_append send_env e s")
  note s1 = append_sent [OF Cons.prems(1) a]
  show ?case
  proof (cases r)
    case (Inl err)
    then show ?thesis using Cons.prems(2) a s1 by auto
  next
    case (Inr u)
    with Cons.prems(2) a have rest: "append_all send_env es s1 = (res, s')" by simp
    have "ok s1" using s1 by blast
    from Cons.IH [OF this rest] obtain k where k: "ok s'" "k \<le> length es" "sent s' = sent s1 @ map Entry (take k es)"
      "res = Inr () \<longrightarrow> k = length es" "(\<exists>err. res = Inl err) \<longrightarrow> k < length es" by blast
    then show ?thesis using s1 Inr by (intro conjI exI [of _ "Suc k"]) auto
  qed
qed auto

text \<open>The commit marker follows the entries, and only when all of them were accepted.\<close>

lemma commit_sent:
  assumes aw: "\<forall>w s. sent (snd (await w s)) = sent s"
    and "ok s" "tx_status t = Tx_Active" "tx_commit send_env await timestamp w t s = (res, t', s')"
  shows "\<exists>k. k \<le> length (tx_entries t) \<and>
           (sent s' = sent s @ map Entry (take k (tx_entries t)) \<and> res \<noteq> Inr () \<or>
            k = length (tx_entries t) \<and>
            sent s' = sent s @ map Entry (tx_entries t) @ [CommitBarrier (Commit (tx_ident t) timestamp) w])"
proof -
  obtain r s1 where a: "append_all send_env (tx_entries t) s = (r, s1)" by (cases "append_all send_env (tx_entries t) s")
  from append_all_sent [OF assms(2) a] obtain k where k: "ok s1" "k \<le> length (tx_entries t)"
    "sent s1 = sent s @ map Entry (take k (tx_entries t))" "r = Inr () \<longrightarrow> k = length (tx_entries t)" by blast
  show ?thesis
  proof (cases r)
    case (Inl err)
    then show ?thesis using assms(3,4) a k by (auto simp: tx_commit_def)
  next
    case (Inr u)
    let ?b = "CommitBarrier (Commit (tx_ident t) timestamp) w"
    obtain r2 s2 where b: "send_env ?b s1 = (r2, s2)" by (cases "send_env ?b s1")
    show ?thesis
    proof (cases r2)
      case (Inl e)
      then have "sent s2 = sent s1" using refused [OF k(1)] b by blast
      then show ?thesis using assms(3,4) a b k Inr Inl by (auto simp: tx_commit_def writer_commit_def)
    next
      case r2: (Inr u2)
      then have s2: "ok s2" "sent s2 = sent s1 @ [?b]" using accepted [OF k(1)] b by blast+
      have "sent s' = sent s2"
        using assms(3,4) a b Inr r2 aw [THEN spec, THEN spec, of w s2]
        by (auto simp: tx_commit_def writer_commit_def split: prod.splits bool.splits)
      then show ?thesis using s2 k Inr by (intro exI [of _ "length (tx_entries t)"]) simp
    qed
  qed
qed

end

end
