(* ===== verification/Stream_Refine.thy ===== *)
theory Stream_Refine
  imports Ring_Stream
begin

text \<open>
  The receiver of a stream as a queue: \<open>undelivered\<close> is the buffer followed by what the rings hold, and
  \<open>poll_next\<close> only ever takes its first element.  \<open>balance\<close> carries the books of the channel through:
  what was yielded, with the buffer, is what the channel has delivered.
\<close>

definition undelivered :: "'a stream \<Rightarrow> 'a list" where
  "undelivered st = rs_buffer st @ concat (queued (rs_channel st))"

definition balance :: "(usize \<times> 'v) list \<Rightarrow> (usize \<times> 'v) list \<Rightarrow> (usize \<times> 'v) stream \<Rightarrow> bool" where
  "balance y a st \<longleftrightarrow> trace_inv \<lparr>tr_channel = rs_channel st, tr_delivered = y @ rs_buffer st, tr_accepted = a\<rparr>"

text \<open>Fields outside channel and buffer do not matter to either.\<close>

lemma balance_frame [simp]:
  "balance y a (st\<lparr>rs_closed := b\<rparr>) = balance y a st"
  "balance y a (st\<lparr>rs_shutdown_initiated := b\<rparr>) = balance y a st"
  "balance y a (st\<lparr>rs_data_notify := n\<rparr>) = balance y a st"
  "balance y a (st\<lparr>rs_relief := n\<rparr>) = balance y a st"
  "balance y a (st\<lparr>rs_wakes := n\<rparr>) = balance y a st"
  "balance y a (st\<lparr>rs_shutdown_tx := b\<rparr>) = balance y a st"
  "balance y a (st\<lparr>rs_shutdown_rx := o'\<rparr>) = balance y a st"
  "balance y a (st\<lparr>rs_data_pending := b\<rparr>) = balance y a st"
  "balance y a (st\<lparr>rs_drain_complete := b\<rparr>) = balance y a st"
  "balance y a (notify_waiters st) = balance y a st"
  by (simp_all add: balance_def notify_waiters_def)

lemma undelivered_frame [simp]:
  "undelivered (st\<lparr>rs_closed := b\<rparr>) = undelivered st"
  "undelivered (st\<lparr>rs_shutdown_initiated := b\<rparr>) = undelivered st"
  "undelivered (st\<lparr>rs_data_notify := n\<rparr>) = undelivered st"
  "undelivered (st\<lparr>rs_relief := n\<rparr>) = undelivered st"
  "undelivered (st\<lparr>rs_wakes := n\<rparr>) = undelivered st"
  "undelivered (st\<lparr>rs_shutdown_tx := b\<rparr>) = undelivered st"
  "undelivered (st\<lparr>rs_shutdown_rx := o'\<rparr>) = undelivered st"
  "undelivered (st\<lparr>rs_data_pending := b\<rparr>) = undelivered st"
  "undelivered (st\<lparr>rs_drain_complete := b\<rparr>) = undelivered st"
  "undelivered (notify_waiters st) = undelivered st"
  by (simp_all add: undelivered_def notify_waiters_def)

lemma balance_channel: "balance y a st \<Longrightarrow> channel_inv (rs_channel st) \<and> \<not> ch_debug (rs_channel st)"
  by (simp add: balance_def trace_inv_def)

lemma push_back_eq: "push_back = (\<lambda>b x. b @ [x])"
  by (simp add: fun_eq_iff push_back_def)

section \<open>Drains\<close>

text \<open>What a drain leaves unchanged.\<close>

definition same_control :: "'a stream \<Rightarrow> 'a stream \<Rightarrow> bool" where
  "same_control st st' \<longleftrightarrow>
     rs_closed st' = rs_closed st \<and> rs_shutdown_initiated st' = rs_shutdown_initiated st \<and>
     rs_config st' = rs_config st \<and> rs_shutdown_tx st' = rs_shutdown_tx st \<and> rs_shutdown_rx st' = rs_shutdown_rx st \<and>
     rs_drain_complete st' = rs_drain_complete st \<and>
     ch_producer_count (rs_channel st') = ch_producer_count (rs_channel st)"

lemma same_control_refl [simp]: "same_control st st"
  "same_control st (notify_waiters st') = same_control st st'"
  "same_control st (st'\<lparr>rs_data_pending := b\<rparr>) = same_control st st'"
  "same_control st (st'\<lparr>rs_wakes := n\<rparr>) = same_control st st'"
  "same_control st (st'\<lparr>rs_buffer := xs\<rparr>) = same_control st st'"
  "same_control (st\<lparr>rs_data_pending := b\<rparr>) st' = same_control st st'"
  by (simp_all add: same_control_def notify_waiters_def)

lemma same_control_trans: "same_control st st1 \<Longrightarrow> same_control st1 st2 \<Longrightarrow> same_control st st2"
  by (simp add: same_control_def)

lemma drain_all_spec:
  assumes bal: "balance y a st"
  shows "\<exists>st'. drain_all st = Inr (length (concat (queued (rs_channel st))), st') \<and> balance y a st' \<and> same_control st st' \<and>
           rs_buffer st' = undelivered st \<and> undelivered st' = undelivered st"
proof -
  let ?ch = "rs_channel st" and ?q = "concat (queued (rs_channel st))"
  let ?t = "\<lparr>tr_channel = ?ch, tr_delivered = y @ rs_buffer st, tr_accepted = a\<rparr>"
  note inv = balance_channel [OF bal, THEN conjunct1] and rel = balance_channel [OF bal, THEN conjunct2]
  obtain ch where ch: "channel_consume_all_owned push_back (rs_buffer st) ?ch =
      Inr (of_nat (length ?q), rs_buffer st @ ?q, ch)"
    "channel_inv ch" "\<forall>r\<in>set (registered ch). ring_contents r = []" "same_channel ?ch ch"
    using channel_consume_all_owned_spec [OF inv, of push_back "rs_buffer st"] rel by (auto simp: push_back_eq)
  have empty: "concat (queued ch) = []" using ch(3) by (auto simp: queued_def)
  have "length (registered ch) = length (registered ?ch)" using ch inv by (simp add: length_registered same_channel_def)
  then have "list_all2 (\<lambda>r r'. suffix (ring_contents r') (ring_contents r)) (registered ?ch) (registered ch)"
    using ch(3) by (auto simp: list_all2_conv_all_nth)
  then have "trace_inv (?t\<lparr>tr_channel := ch, tr_delivered := tr_delivered ?t @ ?q\<rparr>)"
    using trace_inv_deliver [of ?t ch ?q] bal ch(2,4) empty by (simp add: balance_def)
  then show ?thesis
    using ch(1,4) empty
    by (auto simp: drain_all_def balance_def undelivered_def same_control_def same_channel_def)
qed

text \<open>The receiver drains in batches only while its buffer is empty.\<close>

lemma drain_batch_spec:
  assumes bal: "balance y a st" and empty: "rs_buffer st = []"
  shows "\<exists>st'. drain_batch st = Inr (min (length (undelivered st)) (unat (batch_hint (rs_config st))), st') \<and>
           balance y a st' \<and> same_control st st' \<and> rs_buffer st' = take (unat (batch_hint (rs_config st))) (undelivered st) \<and>
           undelivered st' = undelivered st \<and> rs_wakes st' = rs_wakes st"
proof (cases "batch_hint (rs_config st) = 0")
  case True
  then show ?thesis using bal empty by (simp add: drain_batch_def saturating_sub_def undelivered_def)
next
  case False
  let ?ch = "rs_channel st" and ?q = "concat (queued (rs_channel st))" and ?m = "batch_hint (rs_config st)"
  let ?t = "\<lparr>tr_channel = ?ch, tr_delivered = y @ rs_buffer st, tr_accepted = a\<rparr>"
  note inv = balance_channel [OF bal, THEN conjunct1] and rel = balance_channel [OF bal, THEN conjunct2]
  obtain ch where ch: "channel_consume_all_up_to_owned ?m push_back [] ?ch =
      Inr (of_nat (min (length ?q) (unat ?m)), take (unat ?m) ?q, ch)"
    "channel_inv ch" "concat (queued ch) = drop (unat ?m) ?q"
    "list_all2 (\<lambda>r r'. ring_inv r' \<and> suffix (ring_contents r') (ring_contents r)) (registered ?ch) (registered ch)"
    "same_channel ?ch ch"
    using channel_consume_all_up_to_owned_spec [OF inv rel, of ?m push_back "[]"] by (auto simp: push_back_eq)
  have "trace_inv (?t\<lparr>tr_channel := ch, tr_delivered := tr_delivered ?t @ take (unat ?m) ?q\<rparr>)"
    using trace_inv_deliver [of ?t ch "take (unat ?m) ?q"] list_all2_mono [OF ch(4)] bal ch(2,3,5)
    by (simp add: balance_def)
  then have bal': "balance y a (st\<lparr>rs_channel := ch, rs_buffer := take (unat ?m) ?q\<rparr>)" using empty by (simp add: balance_def)
  have "drain_batch st = Inr (min (length ?q) (unat ?m), st\<lparr>rs_channel := ch, rs_buffer := take (unat ?m) ?q\<rparr>)"
    using False ch(1) empty by (simp add: drain_batch_def saturating_sub_def word_neq_0_conv Let_def)
  with bal' ch(3,5) empty show ?thesis by (simp add: undelivered_def same_control_def same_channel_def)
qed

section \<open>Polls\<close>

text \<open>What a poll may do: yield the first undelivered item, or nothing.\<close>

definition poll_ok :: "(usize \<times> 'v) list \<Rightarrow> (usize \<times> 'v) list \<Rightarrow> (usize \<times> 'v) stream \<Rightarrow> (usize \<times> 'v) option poll \<Rightarrow> (usize \<times> 'v) stream \<Rightarrow> bool" where
  "poll_ok y a st res st' \<longleftrightarrow>
     (case res of
        Ready (Some x) \<Rightarrow> undelivered st = x # undelivered st' \<and> balance (y @ [x]) a st'
      | _ \<Rightarrow> undelivered st' = undelivered st \<and> balance y a st' \<and> rs_buffer st' = [])"

lemma poll_ok_cong: "undelivered st1 = undelivered st \<Longrightarrow> poll_ok y a st1 res st' = poll_ok y a st res st'"
  by (simp add: poll_ok_def split: poll.split option.split)

lemma pop_front_spec:
  assumes "balance y a st1" "undelivered st1 = undelivered st" "pop_front st1 = Some (x, st2)"
  shows "poll_ok y a st (Ready (Some x)) st2 \<and> same_control st1 st2"
  using assms by (auto simp: poll_ok_def pop_front_def balance_def undelivered_def same_control_def split: list.splits)

lemma pop_front_empty [simp]: "rs_buffer st = [] \<Longrightarrow> pop_front st = None"
  by (simp add: pop_front_def)

lemma pop_front_Some: "rs_buffer st \<noteq> [] \<Longrightarrow> \<exists>x st'. pop_front st = Some (x, st')"
  by (simp add: pop_front_def split: list.splits)

text \<open>A batch drain of an empty buffer followed by \<open>pop_front\<close>.\<close>

lemma drain_then_pop:
  assumes bal: "balance y a st" and empty: "rs_buffer st = []"
  shows "(\<exists>st1. drain_batch st = Inr (0, st1) \<and> balance y a st1 \<and> rs_buffer st1 = [] \<and> undelivered st1 = undelivered st \<and>
            same_control st st1 \<and> rs_wakes st1 = rs_wakes st \<and> (batch_hint (rs_config st) = 0 \<or> undelivered st = [])) \<or>
         (\<exists>n st1 x st2. drain_batch st = Inr (n, st1) \<and> 0 < n \<and> rs_buffer st1 \<noteq> [] \<and> pop_front (notify_waiters st1) = Some (x, st2) \<and>
            poll_ok y a st (Ready (Some x)) st2 \<and> same_control st st2)"
proof -
  let ?m = "batch_hint (rs_config st)"
  obtain st1 where st1: "drain_batch st = Inr (min (length (undelivered st)) (unat ?m), st1)" "balance y a st1"
    "same_control st st1" "rs_buffer st1 = take (unat ?m) (undelivered st)" "undelivered st1 = undelivered st" "rs_wakes st1 = rs_wakes st"
    using drain_batch_spec [OF assms] by blast
  show ?thesis
  proof (cases "?m = 0 \<or> undelivered st = []")
    case True
    then show ?thesis using st1 by auto
  next
    case False
    then have pos: "0 < min (length (undelivered st)) (unat ?m)" by (simp add: unat_gt_0)
    then have ne: "rs_buffer st1 \<noteq> []" using st1(4) by auto
    then obtain x st2 where p: "pop_front (notify_waiters st1) = Some (x, st2)"
      using pop_front_Some [of "notify_waiters st1"] by (auto simp: notify_waiters_def)
    have "poll_ok y a st (Ready (Some x)) st2 \<and> same_control (notify_waiters st1) st2"
      using pop_front_spec [OF _ _ p, of y a st] st1(2,5) by simp
    moreover have "same_control st (notify_waiters st1)" using st1(3) by simp
    ultimately show ?thesis using st1(1) pos ne p same_control_trans by blast
  qed
qed

lemma tick_loop_spec:
  assumes "balance y a st" "rs_buffer st = []"
  shows "(\<exists>st'. tick_loop n st = Inr (None, st') \<and> balance y a st' \<and> rs_buffer st' = [] \<and> undelivered st' = undelivered st \<and>
            same_control st st') \<or>
         (\<exists>x st'. tick_loop n st = Inr (Some x, st') \<and> poll_ok y a st (Ready (Some x)) st' \<and> same_control st st')"
  using assms
proof (induction n arbitrary: st)
  case (Suc n)
  from drain_then_pop [OF Suc.prems] consider
    st1 where "drain_batch st = Inr (0, st1)" "balance y a st1" "rs_buffer st1 = []" "undelivered st1 = undelivered st" "same_control st st1"
  | k st1 x st2 where "drain_batch st = Inr (k, st1)" "0 < k" "pop_front (notify_waiters st1) = Some (x, st2)"
      "poll_ok y a st (Ready (Some x)) st2" "same_control st st2" by blast
  then show ?case
  proof cases
    case 1
    from Suc.IH [OF 1(2,3)] 1(1,4,5) show ?thesis
      by (auto simp: poll_ok_def intro: same_control_trans)
  next
    case 2
    then show ?thesis by simp
  qed
qed simp

lemma poll_closed_spec:
  assumes bal: "balance y a st" and empty: "rs_buffer st = []"
  shows "\<exists>res st'. poll_closed st = Inr (res, st') \<and> poll_ok y a st res st' \<and> same_control st st' \<and>
           (rs_closed st \<longrightarrow> res \<noteq> Pending) \<and> (res = Ready None \<longrightarrow> rs_closed st \<and> undelivered st = [])"
proof (cases "rs_closed st")
  case False
  then show ?thesis using assms by (simp add: poll_closed_def poll_ok_def)
next
  case True
  obtain st1 where st1: "drain_all st = Inr (length (concat (queued (rs_channel st))), st1)" "balance y a st1"
    "same_control st st1" "rs_buffer st1 = undelivered st" "undelivered st1 = undelivered st"
    using drain_all_spec [OF bal] by blast
  have q: "undelivered st = concat (queued (rs_channel st))" using empty by (simp add: undelivered_def)
  show ?thesis
  proof (cases "undelivered st = []")
    case nil: True
    then show ?thesis using True st1 q by (simp add: poll_closed_def poll_ok_def)
  next
    case ne: False
    then obtain x st2 where p: "pop_front (notify_waiters st1) = Some (x, st2)"
      using pop_front_Some [of "notify_waiters st1"] st1(4) by (auto simp: notify_waiters_def)
    have "poll_ok y a st (Ready (Some x)) st2 \<and> same_control (notify_waiters st1) st2"
      using pop_front_spec [OF _ _ p, of y a st] st1(2,5) by simp
    moreover have "same_control st (notify_waiters st1)" using st1(3) by simp
    moreover have "poll_closed st = Inr (Ready (Some x), st2)"
      using True st1(1) p ne q by (simp add: poll_closed_def)
    ultimately show ?thesis using same_control_trans by blast
  qed
qed

text \<open>The second half of a poll: it delivers when there is something and the batch hint allows it.\<close>

lemma poll_recheck_spec:
  assumes bal: "balance y a st" and empty: "rs_buffer st = []"
  shows "\<exists>res st'. poll_recheck ticks st = Inr (res, st') \<and> poll_ok y a st res st' \<and> same_control st st' \<and>
           (res = Ready None \<longrightarrow> rs_closed st \<and> undelivered st = []) \<and>
           (res = Pending \<longrightarrow> \<not> rs_closed st \<and> (batch_hint (rs_config st) = 0 \<or> undelivered st = []))"
proof -
  from drain_then_pop [OF assms] consider
    st1 where "drain_batch st = Inr (0, st1)" "balance y a st1" "rs_buffer st1 = []" "undelivered st1 = undelivered st" "same_control st st1"
      "batch_hint (rs_config st) = 0 \<or> undelivered st = []"
  | k st1 x st2 where "drain_batch st = Inr (k, st1)" "0 < k" "pop_front (notify_waiters st1) = Some (x, st2)"
      "poll_ok y a st (Ready (Some x)) st2" "same_control st st2" by blast
  then show ?thesis
  proof cases
    case 2
    then show ?thesis by (simp add: poll_recheck_def Let_def)
  next
    case 1
    from tick_loop_spec [OF 1(2,3), of ticks] consider
      st2 where "tick_loop ticks st1 = Inr (None, st2)" "balance y a st2" "rs_buffer st2 = []" "undelivered st2 = undelivered st1"
        "same_control st1 st2"
    | x st2 where "tick_loop ticks st1 = Inr (Some x, st2)" "poll_ok y a st1 (Ready (Some x)) st2" "same_control st1 st2" by blast
    then show ?thesis
    proof cases
      case t: 1
      obtain res st' where c: "poll_closed st2 = Inr (res, st')" "poll_ok y a st2 res st'" "same_control st2 st'"
        "rs_closed st2 \<longrightarrow> res \<noteq> Pending" "res = Ready None \<longrightarrow> rs_closed st2 \<and> undelivered st2 = []"
        using poll_closed_spec [OF t(2,3)] by blast
      have "rs_closed st2 = rs_closed st" "same_control st st'"
        using 1(5) t(5) c(3) by (simp_all add: same_control_def)
      moreover have "poll_ok y a st res st'" using c(2) t(4) 1(4) poll_ok_cong [of st2 st] by simp
      moreover have "poll_recheck ticks st = Inr (res, st')"
        using 1(1) t(1) c(1) by (simp add: poll_recheck_def Let_def)
      ultimately show ?thesis using c(4,5) t(4) 1(4,6) by auto
    next
      case t: 2
      have "poll_ok y a st (Ready (Some x)) st2" using t(2) 1(4) by (simp add: poll_ok_def)
      then show ?thesis
        using 1(1,5) t(1,3) same_control_trans [of st st1 st2] by (auto simp: poll_recheck_def Let_def)
    qed
  qed
qed

section \<open>Control states\<close>

text \<open>
  The shutdown handshake: the signal can only be on its way or consumed once the handle has sent it.  As
  long as no send races with the final drain, nothing is left in the rings after it.
\<close>

definition flags_ok :: "'a stream \<Rightarrow> bool" where
  "flags_ok st \<longleftrightarrow>
     (rs_shutdown_tx st \<longrightarrow> rs_shutdown_rx st = Some False \<and> \<not> rs_drain_complete st) \<and>
     (\<not> rs_shutdown_tx st \<longrightarrow> rs_closed st \<and>
        (rs_shutdown_rx st = Some True \<and> \<not> rs_drain_complete st \<or> rs_shutdown_rx st = None \<and> rs_drain_complete st))"

definition control_ok :: "'a stream \<Rightarrow> bool" where
  "control_ok st \<longleftrightarrow>
     (rs_shutdown_tx st \<longrightarrow> rs_shutdown_rx st = Some False \<and> \<not> rs_drain_complete st) \<and>
     (\<not> rs_shutdown_tx st \<longrightarrow> rs_closed st \<and>
        (rs_shutdown_rx st = Some True \<and> \<not> rs_drain_complete st \<or> rs_shutdown_rx st = None \<and> rs_drain_complete st)) \<and>
     (rs_drain_complete st \<longrightarrow> concat (queued (rs_channel st)) = [])"

lemma control_ok_flags: "control_ok st \<longleftrightarrow> flags_ok st \<and> (rs_drain_complete st \<longrightarrow> concat (queued (rs_channel st)) = [])"
  by (auto simp: control_ok_def flags_ok_def)

lemma control_ok_same:
  assumes "control_ok st" "same_control st st'" "\<not> rs_drain_complete st"
  shows "control_ok st'"
  using assms by (simp add: control_ok_def same_control_def)

lemma poll_next_spec:
  assumes bal: "balance y a st" and ctl: "control_ok st"
  shows "\<exists>res st'. poll_next data_ready ticks st = Inr (res, st') \<and> poll_ok y a st res st' \<and> control_ok st' \<and>
           rs_closed st' = rs_closed st \<and> rs_config st' = rs_config st \<and> rs_shutdown_tx st' = rs_shutdown_tx st \<and>
           (res = Ready None \<longrightarrow> rs_closed st \<and> undelivered st = []) \<and>
           (\<not> rs_shutdown_tx st \<longrightarrow> res \<noteq> Pending) \<and>
           (res = Pending \<longrightarrow> data_ready \<and> rs_data_pending st' \<and> rs_wakes st' = rs_wakes st + 1 \<or> batch_hint (rs_config st) = 0 \<or> undelivered st = []) \<and>
           (rs_data_pending st \<longrightarrow> res = Pending \<longrightarrow> batch_hint (rs_config st) = 0 \<or> undelivered st = [])"
proof (cases "rs_buffer st")
  case (Cons x xs)
  then have p: "pop_front st = Some (x, st\<lparr>rs_buffer := xs\<rparr>)" by (simp add: pop_front_def)
  then have "poll_ok y a st (Ready (Some x)) (st\<lparr>rs_buffer := xs\<rparr>)" using pop_front_spec [OF bal refl p] by blast
  moreover have "control_ok (st\<lparr>rs_buffer := xs\<rparr>)" using ctl by (simp add: control_ok_def)
  ultimately show ?thesis using p by (simp add: poll_next_def)
next
  case Nil
  then have none: "pop_front st = None" by simp
  show ?thesis
  proof (cases "rs_shutdown_tx st")
    case False
    show ?thesis
    proof (cases "rs_drain_complete st")
      case True
      then show ?thesis using none bal ctl Nil False
        by (simp add: poll_next_def poll_ok_def control_ok_def undelivered_def)
    next
      case nd: False
      with ctl False have rx: "rs_shutdown_rx st = Some True" "rs_closed st" by (auto simp: control_ok_def)
      let ?st0 = "st\<lparr>rs_shutdown_rx := None\<rparr>"
      have "balance y a ?st0" using bal by simp
      from drain_all_spec [OF this] obtain n st1 where st1: "drain_all ?st0 = Inr (n, st1)" "balance y a st1"
        "same_control ?st0 st1" "rs_buffer st1 = undelivered st" "undelivered st1 = undelivered st" by auto
      let ?st2 = "(notify_waiters st1)\<lparr>rs_drain_complete := True\<rparr>"
      have "concat (queued (rs_channel st1)) = []" using st1(4,5) by (simp add: undelivered_def)
      then have ctl2: "control_ok ?st2" "rs_closed ?st2" "rs_config ?st2 = rs_config st" "\<not> rs_shutdown_tx ?st2"
        using st1(3) rx False by (simp_all add: control_ok_def same_control_def notify_waiters_def)
      have bal2: "balance y a ?st2" "undelivered ?st2 = undelivered st" using st1(2,5) by simp_all
      have eq: "poll_next data_ready ticks st = (case pop_front ?st2 of Some (x, st3) \<Rightarrow> Inr (Ready (Some x), st3)
          | None \<Rightarrow> Inr (Ready None, ?st2))"
        using none nd rx(1) st1(1) by (simp add: poll_next_def Let_def)
      show ?thesis
      proof (cases "pop_front ?st2")
        case None
        then have "undelivered st = []" using st1(4) pop_front_Some [of ?st2] by (auto simp: notify_waiters_def)
        then show ?thesis using eq None bal2 ctl2 False rx st1(4) by (simp add: poll_ok_def notify_waiters_def)
      next
        case (Some p)
        then obtain x st3 where p: "pop_front ?st2 = Some (x, st3)" by (cases p) auto
        note ok = pop_front_spec [OF bal2 p]
        have "control_ok st3" "rs_closed st3" "rs_config st3 = rs_config st" "\<not> rs_shutdown_tx st3"
          using p ctl2 by (auto simp: pop_front_def control_ok_def split: list.splits)
        then show ?thesis using eq p ok rx False by auto
      qed
    qed
  next
    case tx: True
    then have rx: "rs_shutdown_rx st = Some False" "\<not> rs_drain_complete st" using ctl by (auto simp: control_ok_def)
    define pend where "pend = rs_data_pending st"
    define d1 where "d1 = (if rs_data_pending st
               then try_bind (drain_batch (st\<lparr>rs_data_pending := False\<rparr>)) (\<lambda>(_, st1).
                      Inr (if rs_buffer st1 \<noteq> [] then notify_waiters st1 else st1))
               else Inr st)"
    have eq: "poll_next data_ready ticks st = try_bind d1 (\<lambda>st1. case pop_front st1 of
                  Some (x, st2) \<Rightarrow> Inr (Ready (Some x), st2)
                | None \<Rightarrow>
                    if data_ready
                    then Inr (Pending, st1\<lparr>rs_data_pending := True, rs_wakes := rs_wakes st1 + 1\<rparr>)
                    else poll_recheck ticks st1)"
      using none rx by (simp add: poll_next_def d1_def)
    have "(\<exists>st1 x st2. d1 = Inr st1 \<and> pop_front st1 = Some (x, st2) \<and> poll_ok y a st (Ready (Some x)) st2 \<and> same_control st st2) \<or>
          (\<exists>st1. d1 = Inr st1 \<and> balance y a st1 \<and> rs_buffer st1 = [] \<and> undelivered st1 = undelivered st \<and> same_control st st1 \<and>
             rs_wakes st1 = rs_wakes st \<and> (pend \<longrightarrow> batch_hint (rs_config st) = 0 \<or> undelivered st = []))"
    proof (cases pend)
      case True
      have "balance y a (st\<lparr>rs_data_pending := False\<rparr>)" "rs_buffer (st\<lparr>rs_data_pending := False\<rparr>) = []" using bal Nil by simp_all
      from drain_then_pop [OF this] show ?thesis using True poll_ok_cong [of "st\<lparr>rs_data_pending := False\<rparr>" st y a]
        by (auto simp: d1_def pend_def)
    next
      case False
      then show ?thesis using bal Nil by (simp add: d1_def pend_def)
    qed
    then consider
      st1 x st2 where "d1 = Inr st1" "pop_front st1 = Some (x, st2)" "poll_ok y a st (Ready (Some x)) st2" "same_control st st2"
    | st1 where "d1 = Inr st1" "balance y a st1" "rs_buffer st1 = []" "undelivered st1 = undelivered st" "same_control st st1"
        "pend \<longrightarrow> batch_hint (rs_config st) = 0 \<or> undelivered st = []" "rs_wakes st1 = rs_wakes st" by blast
    then show ?thesis
    proof cases
      case 1
      then show ?thesis
        using eq tx control_ok_same [OF ctl 1(4) rx(2)] by (simp add: same_control_def)
    next
      case 2
      then have n1: "pop_front st1 = None" by simp
      show ?thesis
      proof (cases data_ready)
        case True
        let ?st2 = "st1\<lparr>rs_data_pending := True, rs_wakes := rs_wakes st1 + 1\<rparr>"
        have "same_control st ?st2" using 2(5) by simp
        moreover have "poll_ok y a st Pending ?st2" using 2(2-4) by (simp add: poll_ok_def)
        ultimately show ?thesis
          using eq 2(1,6,7) n1 True tx control_ok_same [OF ctl _ rx(2), of ?st2]
          by (simp add: same_control_def pend_def)
      next
        case False
        obtain res st' where r: "poll_recheck ticks st1 = Inr (res, st')" "poll_ok y a st1 res st'" "same_control st1 st'"
          "res = Ready None \<longrightarrow> rs_closed st1 \<and> undelivered st1 = []"
          "res = Pending \<longrightarrow> \<not> rs_closed st1 \<and> (batch_hint (rs_config st1) = 0 \<or> undelivered st1 = [])"
          using poll_recheck_spec [OF 2(2,3), of ticks] by blast
        have sc: "same_control st st'" using 2(5) r(3) same_control_trans by blast
        have ok: "poll_ok y a st res st'" using r(2) 2(4) poll_ok_cong by blast
        show ?thesis
          using eq 2(1,4,5) n1 False r(1,4,5) tx ok sc control_ok_same [OF ctl sc rx(2)]
          by (simp add: same_control_def)
      qed
    qed
  qed
qed

text \<open>A poll when a send may have left items in the rings after the final drain.\<close>

lemma poll_next_flags:
  assumes bal: "balance y a st" and flags: "flags_ok st"
  shows "\<exists>res st'. poll_next data_ready ticks st = Inr (res, st') \<and> poll_ok y a st res st' \<and> flags_ok st' \<and>
           rs_closed st' = rs_closed st \<and> (res = Ready None \<longrightarrow> rs_closed st) \<and>
           (if rs_drain_complete st then rs_channel st' = rs_channel st
            else rs_drain_complete st' \<or> res = Ready None \<longrightarrow> concat (queued (rs_channel st')) = [])"
proof (cases "rs_drain_complete st")
  case False
  then have "control_ok st" using flags by (simp add: control_ok_flags)
  from poll_next_spec [OF bal this, of data_ready ticks] obtain res st' where
    p: "poll_next data_ready ticks st = Inr (res, st')" "poll_ok y a st res st'" "control_ok st'"
      "rs_closed st' = rs_closed st" "res = Ready None \<longrightarrow> rs_closed st \<and> undelivered st = []" by blast
  then have "res = Ready None \<longrightarrow> undelivered st' = []" by (auto simp: poll_ok_def)
  then have "res = Ready None \<longrightarrow> concat (queued (rs_channel st')) = []" by (simp add: undelivered_def)
  with p False show ?thesis unfolding control_ok_flags if_not_P [OF False] by blast
next
  case True
  then have closed: "rs_closed st" using flags by (auto simp: flags_ok_def)
  show ?thesis
  proof (cases "rs_buffer st")
    case Nil
    then show ?thesis using True closed bal flags by (simp add: poll_next_def poll_ok_def)
  next
    case (Cons x xs)
    then have p: "pop_front st = Some (x, st\<lparr>rs_buffer := xs\<rparr>)" by (simp add: pop_front_def)
    moreover have "flags_ok (st\<lparr>rs_buffer := xs\<rparr>)" using flags by (simp add: flags_ok_def)
    ultimately show ?thesis using pop_front_spec [OF bal refl p] True by (simp add: poll_next_def)
  qed
qed

end
