(* ===== verification/Stream_Props.thy ===== *)
theory Stream_Props
  imports Stream_Refine
begin

text \<open>
  Whole runs of a stream (registrations, sends, polls, closing and shutdown in any order), and the
  properties of its receiver: per-producer order without loss, the end of the stream only when all
  has been delivered, and progress.
\<close>

section \<open>Runs\<close>

datatype 'v stream_op =
    St_Register
  | St_Try_Send usize 'v
  | St_Poll bool nat
  | St_Close_Factory
  | St_Close_Sender usize
  | St_Shutdown
  | St_Signal

record 'v stream_state =
  sr_stream :: "(usize \<times> 'v) stream"
  sr_yielded :: "(usize \<times> 'v) list"
  sr_accepted :: "(usize \<times> 'v) list"
  sr_ended :: bool

text \<open>A sender exists only for an id that was handed out; other operations are skipped.\<close>

fun stream_step :: "'v stream_op \<Rightarrow> 'v stream_state \<Rightarrow> fault + 'v stream_state" where
  "stream_step St_Register s = try_bind (factory_register (sr_stream s)) (\<lambda>(_, st). Inr (s\<lparr>sr_stream := st\<rparr>))"
| "stream_step (St_Try_Send i v) s =
     (if unat i < unat (ch_producer_count (rs_channel (sr_stream s)))
      then try_bind (try_send i (i, v) (sr_stream s)) (\<lambda>(res, st).
        Inr (s\<lparr>sr_stream := st, sr_accepted := sr_accepted s @ (case res of Inl _ \<Rightarrow> [] | Inr _ \<Rightarrow> [(i, v)])\<rparr>))
      else Inr s)"
| "stream_step (St_Poll data_ready ticks) s =
     try_bind (poll_next data_ready ticks (sr_stream s)) (\<lambda>(res, st).
       Inr (s\<lparr>sr_stream := st, sr_yielded := sr_yielded s @ (case res of Ready (Some x) \<Rightarrow> [x] | _ \<Rightarrow> []),
              sr_ended := sr_ended s \<or> res = Ready None\<rparr>))"
| "stream_step St_Close_Factory s = try_bind (factory_close (sr_stream s)) (\<lambda>st. Inr (s\<lparr>sr_stream := st\<rparr>))"
| "stream_step (St_Close_Sender i) s =
     (if unat i < unat (ch_producer_count (rs_channel (sr_stream s)))
      then try_bind (sender_close i (sr_stream s)) (\<lambda>st. Inr (s\<lparr>sr_stream := st\<rparr>))
      else Inr s)"
| "stream_step St_Shutdown s = Inr (s\<lparr>sr_stream := receiver_shutdown (sr_stream s)\<rparr>)"
| "stream_step St_Signal s = Inr (s\<lparr>sr_stream := signal_shutdown (sr_stream s)\<rparr>)"

fun stream_run :: "'v stream_op list \<Rightarrow> 'v stream_state \<Rightarrow> fault + 'v stream_state" where
  "stream_run [] s = Inr s"
| "stream_run (op # ops) s = try_bind (stream_step op s) (stream_run ops)"

definition stream_start :: "config \<Rightarrow> stream_config \<Rightarrow> 'v stream_state" where
  "stream_start c sc = \<lparr>sr_stream = channel_with_stream_config c sc, sr_yielded = [], sr_accepted = [], sr_ended = False\<rparr>"

section \<open>Invariant\<close>

definition run_ok :: "'v stream_state \<Rightarrow> bool" where
  "run_ok s \<longleftrightarrow> balance (sr_yielded s) (sr_accepted s) (sr_stream s) \<and> control_ok (sr_stream s) \<and>
     (sr_ended s \<longrightarrow> rs_closed (sr_stream s) \<and> undelivered (sr_stream s) = [])"

text \<open>Rings that no producer was given hold nothing, so registering adds nothing.\<close>

lemma queued_items:
  assumes "channel_inv ch"
  shows "queued ch = map (ring_items ch) [0..<unat (ch_producer_count ch)]"
  using assms by (intro nth_equalityI) (simp_all add: length_queued queued_nth)

lemma concat_queued_same:
  assumes t: "trace_inv t" and ch: "channel_inv ch" "ring_items ch = ring_items (tr_channel t)"
    "unat (ch_producer_count (tr_channel t)) \<le> unat (ch_producer_count ch)"
  shows "concat (queued ch) = concat (queued (tr_channel t))"
proof -
  let ?n = "unat (ch_producer_count (tr_channel t))" and ?m = "unat (ch_producer_count ch)"
  have "ring_items (tr_channel t) j = []" if "?n \<le> j" for j
    using t that unfolding trace_inv_def by (metis all_not_in_conv not_le set_empty)
  then have "concat (map (ring_items (tr_channel t)) [?n..<?m]) = []" by auto
  moreover have "[0..<?m] = [0..<?n] @ [?n..<?m]" using ch(3) upt_add_eq_append [of 0 ?n "?m - ?n"] by simp
  moreover have "channel_inv (tr_channel t)" using t by (simp add: trace_inv_def)
  ultimately show ?thesis using ch(1,2) by (simp add: queued_items)
qed

text \<open>An operation that changes neither what the rings hold nor the buffer.\<close>

definition quiet_change :: "'a stream \<Rightarrow> 'a stream \<Rightarrow> bool" where
  "quiet_change st st' \<longleftrightarrow>
     channel_inv (rs_channel st') \<and> \<not> ch_debug (rs_channel st') \<and> ring_items (rs_channel st') = ring_items (rs_channel st) \<and>
     unat (ch_producer_count (rs_channel st)) \<le> unat (ch_producer_count (rs_channel st')) \<and>
     rs_buffer st' = rs_buffer st \<and> rs_drain_complete st' = rs_drain_complete st \<and>
     (rs_closed st \<longrightarrow> rs_closed st') \<and> (flags_ok st \<longrightarrow> flags_ok st')"

lemma quiet_changeI:
  assumes "channel_inv (rs_channel st')" "\<not> ch_debug (rs_channel st')"
      "ring_items (rs_channel st') = ring_items (rs_channel st)"
      "unat (ch_producer_count (rs_channel st)) \<le> unat (ch_producer_count (rs_channel st'))"
      "rs_buffer st' = rs_buffer st" "rs_shutdown_tx st' = rs_shutdown_tx st"
      "rs_shutdown_rx st' = rs_shutdown_rx st" "rs_drain_complete st' = rs_drain_complete st"
      "rs_closed st \<longrightarrow> rs_closed st'"
  shows "quiet_change st st'"
  using assms by (auto simp: quiet_change_def flags_ok_def)

lemma quiet_balance:
  assumes bal: "balance y a st" and q: "quiet_change st st'"
  shows "balance y a st'" "undelivered st' = undelivered st"
proof -
  have "trace_inv \<lparr>tr_channel = rs_channel st, tr_delivered = y @ rs_buffer st, tr_accepted = a\<rparr>"
    using bal by (simp add: balance_def)
  from concat_queued_same [OF this, of "rs_channel st'"] q show "undelivered st' = undelivered st"
    by (simp add: quiet_change_def undelivered_def)
  show "balance y a st'"
    using bal q unfolding balance_def trace_inv_def quiet_change_def by (auto intro: less_le_trans)
qed

lemma run_ok_quiet:
  assumes ok: "run_ok s" and q: "quiet_change (sr_stream s) st"
  shows "run_ok (s\<lparr>sr_stream := st\<rparr>)"
proof -
  have "balance (sr_yielded s) (sr_accepted s) (sr_stream s)" using ok by (simp add: run_ok_def)
  note b = quiet_balance [OF this q]
  then have "concat (queued (rs_channel st)) = concat (queued (rs_channel (sr_stream s)))"
    using q by (simp add: quiet_change_def undelivered_def)
  then show ?thesis using ok q b by (auto simp: run_ok_def control_ok_flags quiet_change_def)
qed

lemma put_item_push:
  "put_item i x st = try_bind (producer_push i x (rs_channel st))
     (\<lambda>(ok, ch). Inr (ok, if ok then st\<lparr>rs_channel := ch, rs_data_notify := rs_data_notify st + 1\<rparr> else st\<lparr>rs_channel := ch\<rparr>))"
  by (simp add: put_item_def producer_push_def ring_push_def [abs_def])

lemma sender_is_closed_spec:
  assumes "channel_inv (rs_channel st)" "unat i < unat (ch_producer_count (rs_channel st))"
  shows "\<exists>b. sender_is_closed i st = Inr b \<and> (rs_closed st \<longrightarrow> b)"
  using assms by (auto simp: sender_is_closed_def producer_is_closed_def on_ring_def channel_inv_def)

lemma try_send_ok:
  assumes ok: "run_ok s" and i: "unat i < unat (ch_producer_count (rs_channel (sr_stream s)))"
  shows "\<exists>s'. stream_step (St_Try_Send i v) s = Inr s' \<and> run_ok s'"
proof -
  let ?st = "sr_stream s"
  let ?t = "\<lparr>tr_channel = rs_channel ?st, tr_delivered = sr_yielded s @ rs_buffer ?st, tr_accepted = sr_accepted s\<rparr>"
  have t: "trace_inv ?t" using ok by (simp add: run_ok_def balance_def)
  then have inv: "channel_inv (rs_channel ?st)" by (simp add: trace_inv_def)
  obtain b where b: "sender_is_closed i ?st = Inr b" "rs_closed ?st \<longrightarrow> b" using sender_is_closed_spec [OF inv i] by blast
  show ?thesis
  proof (cases b)
    case True
    then show ?thesis using b ok i by (simp add: try_send_def)
  next
    case False
    obtain acc ch where p: "producer_push i (i, v) (rs_channel ?st) = Inr (acc, ch)"
      using producer_push_spec [OF inv i, of "(i, v)"] by blast
    obtain t' where t': "channel_step (Op_Push i v) ?t = Inr t'" "trace_inv t'" using channel_step_inv [OF t] by blast
    have "t' = \<lparr>tr_channel = ch, tr_delivered = sr_yielded s @ rs_buffer ?st,
        tr_accepted = sr_accepted s @ (if acc then [(i, v)] else [])\<rparr>"
      using t'(1) p i by simp
    with t'(2) have bal: "balance (sr_yielded s) (sr_accepted s @ (if acc then [(i, v)] else [])) (?st\<lparr>rs_channel := ch\<rparr>)"
      by (simp add: balance_def)
    have "\<not> rs_closed ?st" using b False by simp
    then have c: "rs_shutdown_tx ?st" "\<not> rs_drain_complete ?st" "\<not> sr_ended s" "rs_shutdown_rx ?st = Some False"
      using ok by (auto simp: run_ok_def control_ok_def)
    have "stream_step (St_Try_Send i v) s = Inr (s\<lparr>sr_stream := (if acc then ?st\<lparr>rs_channel := ch, rs_data_notify := rs_data_notify ?st + 1\<rparr>
        else ?st\<lparr>rs_channel := ch\<rparr>), sr_accepted := sr_accepted s @ (if acc then [(i, v)] else [])\<rparr>)"
      using i b(1) False p by (simp add: try_send_def put_item_push)
    then show ?thesis using bal c by (cases acc) (simp_all add: run_ok_def control_ok_def)
  qed
qed

lemma poll_ok_step:
  assumes ok: "run_ok s"
  shows "\<exists>s'. stream_step (St_Poll data_ready ticks) s = Inr s' \<and> run_ok s'"
proof -
  obtain res st' where p: "poll_next data_ready ticks (sr_stream s) = Inr (res, st')"
    "poll_ok (sr_yielded s) (sr_accepted s) (sr_stream s) res st'" "control_ok st'" "rs_closed st' = rs_closed (sr_stream s)"
    "res = Ready None \<longrightarrow> rs_closed (sr_stream s) \<and> undelivered (sr_stream s) = []"
    using ok poll_next_spec [of "sr_yielded s" "sr_accepted s" "sr_stream s" data_ready ticks] unfolding run_ok_def by blast
  then show ?thesis using ok by (auto simp: run_ok_def poll_ok_def split: poll.splits option.splits)
qed

text \<open>All operations but sending and polling are quiet.\<close>

lemma stream_step_quiet:
  assumes bal: "balance (sr_yielded s) (sr_accepted s) (sr_stream s)" and op: "\<not> (\<exists>i v. op = St_Try_Send i v)" "\<not> (\<exists>d t. op = St_Poll d t)"
  shows "\<exists>st. stream_step op s = Inr (s\<lparr>sr_stream := st\<rparr>) \<and> quiet_change (sr_stream s) st"
proof -
  let ?st = "sr_stream s"
  have inv: "channel_inv (rs_channel ?st)" "\<not> ch_debug (rs_channel ?st)" using balance_channel [OF bal] by simp_all
  then have same: "quiet_change ?st ?st" by (simp add: quiet_change_def)
  show ?thesis
  proof (cases op)
    case St_Register
    show ?thesis
    proof (cases "rs_closed ?st")
      case True
      then show ?thesis using St_Register same by (intro exI [of _ ?st]) (simp add: factory_register_def)
    next
      case False
      obtain e ch where ch: "channel_register (rs_channel ?st) = Inr (e, ch)" "channel_inv ch" "\<not> ch_debug ch"
        "map ring_contents (ch_rings ch) = map ring_contents (ch_rings (rs_channel ?st))"
        "unat (ch_producer_count (rs_channel ?st)) \<le> unat (ch_producer_count ch)"
        using channel_register_spec [OF inv(1)] inv(2)
        by (auto simp: channel_register_def register_claim_def register_finish_def split: if_splits)
      have "quiet_change ?st (?st\<lparr>rs_channel := ch\<rparr>)"
        by (rule quiet_changeI) (use ch ring_items_same [OF ch(4)] in simp_all)
      then show ?thesis using St_Register False ch(1) by (auto simp: factory_register_def)
    qed
  next
    case St_Close_Factory
    obtain ch where ch: "channel_close (rs_channel ?st) = Inr ch" "channel_inv ch" "ch_debug ch = ch_debug (rs_channel ?st)"
      "ch_producer_count ch = ch_producer_count (rs_channel ?st)" "ring_items ch = ring_items (rs_channel ?st)"
      using channel_close_spec [OF inv(1)] ring_items_same by blast
    have "quiet_change ?st (?st\<lparr>rs_closed := True, rs_channel := ch\<rparr>)"
      by (rule quiet_changeI) (use ch inv(2) in simp_all)
    then show ?thesis using St_Close_Factory ch(1) by (auto simp: factory_close_def)
  next
    case (St_Close_Sender i)
    show ?thesis
    proof (cases "unat i < unat (ch_producer_count (rs_channel ?st))")
      case True
      let ?r = "ch_rings (rs_channel ?st) ! unat i"
      let ?ch = "rs_channel ?st\<lparr>ch_rings := (ch_rings (rs_channel ?st))[unat i := ring_close ?r]\<rparr>"
      have lt: "unat i < length (ch_rings (rs_channel ?st))" using True inv(1) by (simp add: channel_inv_def)
      have ch: "channel_inv ?ch"
        using inv(1) lt nth_mem [OF lt]
        by (auto simp: channel_inv_def ring_close_def dest!: set_update_subset_insert [THEN subsetD])
      have "map ring_contents (ch_rings ?ch) = map ring_contents (ch_rings (rs_channel ?st))"
        using lt by (simp add: map_update ring_close_def) (metis list_update_id map_update nth_map length_map)
      note items = ring_items_same [OF this]
      have "quiet_change ?st (?st\<lparr>rs_channel := ?ch\<rparr>)"
        by (rule quiet_changeI) (use ch inv(2) items in simp_all)
      then show ?thesis using St_Close_Sender True lt by (auto simp: sender_close_def producer_close_def on_ring_def)
    qed (use St_Close_Sender same in \<open>auto intro: exI [of _ ?st]\<close>)
  next
    case St_Shutdown
    have "quiet_change ?st (receiver_shutdown ?st)"
      using same by (auto simp: quiet_change_def receiver_shutdown_def Let_def flags_ok_def)
    then show ?thesis using St_Shutdown by auto
  next
    case St_Signal
    have "quiet_change ?st (signal_shutdown ?st)"
      using same by (auto simp: quiet_change_def signal_shutdown_def flags_ok_def)
    then show ?thesis using St_Signal by auto
  qed (use op in auto)
qed

lemma stream_step_ok:
  assumes ok: "run_ok s"
  shows "\<exists>s'. stream_step op s = Inr s' \<and> run_ok s'"
proof -
  consider i v where "op = St_Try_Send i v" | d t where "op = St_Poll d t"
    | "\<not> (\<exists>i v. op = St_Try_Send i v)" "\<not> (\<exists>d t. op = St_Poll d t)" by blast
  then show ?thesis
  proof cases
    case (1 i v)
    then show ?thesis using try_send_ok [OF ok] ok
      by (cases "unat i < unat (ch_producer_count (rs_channel (sr_stream s)))") simp_all
  next
    case (2 d t)
    then show ?thesis using poll_ok_step [OF ok] by simp
  next
    case 3
    have "balance (sr_yielded s) (sr_accepted s) (sr_stream s)" using ok by (simp add: run_ok_def)
    from stream_step_quiet [OF this 3] run_ok_quiet [OF ok] show ?thesis by blast
  qed
qed

lemma stream_run_ok: "run_ok s \<Longrightarrow> \<exists>s'. stream_run ops s = Inr s' \<and> run_ok s'"
proof (induction ops arbitrary: s)
  case (Cons op ops)
  then show ?case using stream_step_ok [OF Cons.prems, of op] by fastforce
qed simp

lemma stream_start_ok: "valid_config c \<Longrightarrow> run_ok (stream_start c sc)"
  using trace_start_inv [of c]
  by (auto simp: run_ok_def stream_start_def balance_def trace_start_def channel_with_stream_config_def control_ok_def)

lemma stream_reachable_ok: "valid_config c \<Longrightarrow> stream_run ops (stream_start c sc) = Inr s \<Longrightarrow> run_ok s"
  using stream_run_ok [OF stream_start_ok, of c ops sc] by auto

lemma trace_inv_tag:
  "trace_inv t \<Longrightarrow> x \<in> set (ring_items (tr_channel t) i) \<Longrightarrow> unat (fst x) = i \<and> i < unat (ch_producer_count (tr_channel t))"
  unfolding trace_inv_def by blast

lemma run_ok_trace:
  "run_ok s \<Longrightarrow> trace_inv \<lparr>tr_channel = rs_channel (sr_stream s), tr_delivered = sr_yielded s @ rs_buffer (sr_stream s), tr_accepted = sr_accepted s\<rparr>"
  by (simp add: run_ok_def balance_def)

lemma run_ok_balance:
  "run_ok s \<Longrightarrow> of_producer i (sr_yielded s) @ of_producer i (rs_buffer (sr_stream s)) @ ring_items (rs_channel (sr_stream s)) i =
     of_producer i (sr_accepted s)"
  using run_ok_trace [of s] by (simp add: trace_inv_def)

text \<open>At the end of the stream everything that was accepted has been yielded.\<close>

lemma run_ok_ended:
  assumes "run_ok s" "sr_ended s"
  shows "of_producer i (sr_yielded s) = of_producer i (sr_accepted s)"
proof -
  note t = run_ok_trace [OF assms(1)]
  have e: "rs_buffer (sr_stream s) = []" "concat (queued (rs_channel (sr_stream s))) = []"
    using assms by (auto simp: run_ok_def undelivered_def)
  have "ring_items (rs_channel (sr_stream s)) i = of_producer i (concat (queued (rs_channel (sr_stream s))))"
    using trace_inv_tag [OF t] t by (intro of_producer_queued [symmetric]) (simp_all add: trace_inv_def)
  then show ?thesis using run_ok_balance [OF assms(1), of i] e by simp
qed

section \<open>Sends whose check is overtaken\<close>

text \<open>
  \<open>send\<close> first looks whether the stream is closed and then stores the item; between the two the receiver may
  shut down and drain.  What holds of the stream nevertheless: the books of the channel and the handshake.
\<close>

definition stream_ok :: "'v stream_state \<Rightarrow> bool" where
  "stream_ok s \<longleftrightarrow> balance (sr_yielded s) (sr_accepted s) (sr_stream s) \<and> flags_ok (sr_stream s)"

lemma run_ok_stream_ok: "run_ok s \<Longrightarrow> stream_ok s"
  by (simp add: run_ok_def stream_ok_def control_ok_flags)

lemma stream_ok_balance:
  "stream_ok s \<Longrightarrow> of_producer i (sr_yielded s) @ of_producer i (rs_buffer (sr_stream s)) @ ring_items (rs_channel (sr_stream s)) i =
     of_producer i (sr_accepted s)"
  by (simp add: stream_ok_def balance_def trace_inv_def)

lemma stream_ok_channel: "stream_ok s \<Longrightarrow> channel_inv (rs_channel (sr_stream s))"
  using balance_channel by (auto simp: stream_ok_def)

lemma stream_ok_quiet:
  assumes "stream_ok s" "\<not> (\<exists>i v. op = St_Try_Send i v)" "\<not> (\<exists>d t. op = St_Poll d t)"
  shows "\<exists>st. stream_step op s = Inr (s\<lparr>sr_stream := st\<rparr>) \<and> quiet_change (sr_stream s) st \<and> stream_ok (s\<lparr>sr_stream := st\<rparr>)"
proof -
  have bal: "balance (sr_yielded s) (sr_accepted s) (sr_stream s)" using assms(1) by (simp add: stream_ok_def)
  from stream_step_quiet [OF bal assms(2,3)] obtain st where
    "stream_step op s = Inr (s\<lparr>sr_stream := st\<rparr>)" "quiet_change (sr_stream s) st" by blast
  moreover from this(2) have "stream_ok (s\<lparr>sr_stream := st\<rparr>)"
    using quiet_balance(1) [OF bal] assms(1) by (simp add: stream_ok_def quiet_change_def)
  ultimately show ?thesis by blast
qed

text \<open>
  What an overtaken send leaves behind: once the final drain is done, or the stream has ended (\<open>e\<close>), the rings
  only hold items with \<open>Q\<close>.
\<close>

definition late_ok :: "(usize \<times> 'v \<Rightarrow> bool) \<Rightarrow> bool \<Rightarrow> (usize \<times> 'v) stream \<Rightarrow> bool" where
  "late_ok Q e st \<longleftrightarrow>
     (e \<longrightarrow> rs_closed st) \<and>
     (rs_drain_complete st \<or> e \<longrightarrow> (\<forall>i. \<forall>x\<in>set (ring_items (rs_channel st) i). Q x))"

lemma late_ok_quiet: "late_ok Q e st \<Longrightarrow> quiet_change st st' \<Longrightarrow> late_ok Q e st'"
  by (auto simp: late_ok_def quiet_change_def)

lemma late_ok_mono: "late_ok Q e st \<Longrightarrow> (e' \<longrightarrow> e) \<Longrightarrow> (\<And>x. Q x \<Longrightarrow> R x) \<Longrightarrow> late_ok R e' st"
  by (auto simp: late_ok_def)

lemma empty_queued_items:
  assumes "balance y a st" "concat (queued (rs_channel st)) = []"
  shows "ring_items (rs_channel st) i = []"
proof -
  have t: "trace_inv \<lparr>tr_channel = rs_channel st, tr_delivered = y @ rs_buffer st, tr_accepted = a\<rparr>"
    using assms(1) by (simp add: balance_def)
  have "ring_items (rs_channel st) i = of_producer i (concat (queued (rs_channel st)))"
    using trace_inv_tag [OF t] t by (intro of_producer_queued [symmetric]) (simp_all add: trace_inv_def)
  with assms(2) show ?thesis by (simp only: of_producer_def list.map filter.simps)
qed

lemma poll_stream_ok:
  assumes "stream_ok s" "late_ok Q False (sr_stream s)"
  shows "\<exists>res st. poll_next data_ready ticks (sr_stream s) = Inr (res, st) \<and>
           stream_ok (s\<lparr>sr_stream := st, sr_yielded := sr_yielded s @ (case res of Ready (Some x) \<Rightarrow> [x] | _ \<Rightarrow> []),
             sr_ended := sr_ended s \<or> res = Ready None\<rparr>) \<and>
           rs_closed st = rs_closed (sr_stream s) \<and> (res = Ready None \<longrightarrow> rs_buffer st = []) \<and> late_ok Q (res = Ready None) st"
proof -
  let ?st = "sr_stream s"
  obtain res st where p: "poll_next data_ready ticks ?st = Inr (res, st)"
    "poll_ok (sr_yielded s) (sr_accepted s) ?st res st" "flags_ok st"
    and c: "rs_closed st = rs_closed ?st" "res = Ready None \<longrightarrow> rs_closed ?st"
    and q: "if rs_drain_complete ?st then rs_channel st = rs_channel ?st
            else rs_drain_complete st \<or> res = Ready None \<longrightarrow> concat (queued (rs_channel st)) = []"
    using poll_next_flags [of "sr_yielded s" "sr_accepted s" ?st data_ready ticks] assms unfolding stream_ok_def by blast
  have ok: "stream_ok (s\<lparr>sr_stream := st, sr_yielded := sr_yielded s @ (case res of Ready (Some x) \<Rightarrow> [x] | _ \<Rightarrow> []),
             sr_ended := sr_ended s \<or> res = Ready None\<rparr>)" (is "stream_ok ?s")
    using p(2,3) by (auto simp: stream_ok_def poll_ok_def split: poll.splits option.splits)
  then have "balance (sr_yielded ?s) (sr_accepted ?s) st" by (simp add: stream_ok_def)
  from empty_queued_items [OF this] q assms(2) have
    "rs_drain_complete st \<or> res = Ready None \<longrightarrow> (\<forall>i. \<forall>x\<in>set (ring_items (rs_channel st) i). Q x)"
    by (auto simp: late_ok_def split: if_splits)
  moreover have "res = Ready None \<longrightarrow> rs_buffer st = []" using p(2) by (auto simp: poll_ok_def)
  ultimately show ?thesis using p(1) c ok by (auto simp: late_ok_def)
qed

lemma put_stream_ok:
  assumes ok: "stream_ok s" and i: "unat i < unat (ch_producer_count (rs_channel (sr_stream s)))"
  shows "\<exists>b st. put_item i (i, v) (sr_stream s) = Inr (b, st) \<and> rs_buffer st = rs_buffer (sr_stream s) \<and>
           rs_closed st = rs_closed (sr_stream s) \<and> rs_drain_complete st = rs_drain_complete (sr_stream s) \<and>
           stream_ok (s\<lparr>sr_stream := st, sr_accepted := sr_accepted s @ (if b then [(i, v)] else [])\<rparr>)"
proof -
  let ?st = "sr_stream s"
  let ?t = "\<lparr>tr_channel = rs_channel ?st, tr_delivered = sr_yielded s @ rs_buffer ?st, tr_accepted = sr_accepted s\<rparr>"
  have t: "trace_inv ?t" using ok by (simp add: stream_ok_def balance_def)
  obtain b ch where p: "producer_push i (i, v) (rs_channel ?st) = Inr (b, ch)"
    using producer_push_spec [OF stream_ok_channel [OF ok] i, of "(i, v)"] by blast
  obtain t' where t': "channel_step (Op_Push i v) ?t = Inr t'" "trace_inv t'" using channel_step_inv [OF t] by blast
  have "t' = \<lparr>tr_channel = ch, tr_delivered = sr_yielded s @ rs_buffer ?st,
      tr_accepted = sr_accepted s @ (if b then [(i, v)] else [])\<rparr>"
    using t'(1) p i by simp
  with t'(2) have "balance (sr_yielded s) (sr_accepted s @ (if b then [(i, v)] else [])) (?st\<lparr>rs_channel := ch\<rparr>)"
    by (simp add: balance_def)
  with ok p show ?thesis by (auto simp: put_item_push stream_ok_def flags_ok_def)
qed

text \<open>The books say what a send adds to the rings.\<close>

lemma put_ring_items:
  assumes "stream_ok s" "stream_ok (s\<lparr>sr_stream := st, sr_accepted := sr_accepted s @ xs\<rparr>)" "rs_buffer st = rs_buffer (sr_stream s)"
  shows "ring_items (rs_channel st) i = ring_items (rs_channel (sr_stream s)) i @ of_producer i xs"
  using stream_ok_balance [OF assms(1), of i] stream_ok_balance [OF assms(2), of i] assms(3)
  by (simp flip: append_assoc) (metis append_assoc same_append_eq)

lemma late_ok_put:
  assumes "stream_ok s" "stream_ok (s\<lparr>sr_stream := st, sr_accepted := sr_accepted s @ xs\<rparr>)" "rs_buffer st = rs_buffer (sr_stream s)"
    and "late_ok Q e (sr_stream s)" "rs_closed st = rs_closed (sr_stream s)" "rs_drain_complete st = rs_drain_complete (sr_stream s)"
    and "rs_closed (sr_stream s) \<Longrightarrow> \<forall>x\<in>set xs. Q x"
  shows "late_ok Q e st"
proof -
  have "rs_drain_complete (sr_stream s) \<longrightarrow> rs_closed (sr_stream s)" using assms(1) by (auto simp: stream_ok_def flags_ok_def)
  moreover have "set (of_producer i xs) \<subseteq> set xs" for i by (auto simp: of_producer_def)
  ultimately show ?thesis using assms(4-) put_ring_items [OF assms(1-3)] by (auto simp: late_ok_def)
qed

section \<open>Properties\<close>

text \<open>
  C10. The stream keeps the order of each producer and loses nothing.  Every sequence of registrations,
  sends, polls (with any readiness of the notifier and any number of timer ticks), closings and
  shutdowns runs without fault, and at its end, for every producer, what the receiver has yielded,
  followed by what waits in its buffer and then in the producer's ring, is exactly the sequence of
  items its sends accepted.  Once a poll has answered the end of the stream, every accepted item of
  every producer has been yielded.
\<close>

theorem stream_run_fifo:
  assumes "valid_config c"
  shows "\<exists>s. stream_run ops (stream_start c sc) = Inr s \<and>
           (\<forall>i. of_producer i (sr_yielded s) @ of_producer i (rs_buffer (sr_stream s)) @ ring_items (rs_channel (sr_stream s)) i =
                of_producer i (sr_accepted s)) \<and>
           (sr_ended s \<longrightarrow> (\<forall>i. of_producer i (sr_yielded s) = of_producer i (sr_accepted s)))"
proof -
  obtain s where s: "stream_run ops (stream_start c sc) = Inr s" "run_ok s"
    using stream_run_ok [OF stream_start_ok [OF assms]] by blast
  with run_ok_balance run_ok_ended show ?thesis by blast
qed

definition tiny_config :: config where
  "tiny_config = \<lparr>ring_bits = 1, max_producers = 2, enable_metrics = False\<rparr>"

lemma tiny_config_valid: "valid_config tiny_config"
  by (simp add: tiny_config_def valid_config_def)

definition sent_one :: "nat stream_op list" where
  "sent_one = [St_Register, St_Try_Send 0 7]"

lemma sent_one_reaches:
  "case stream_run sent_one (stream_start tiny_config stream_config_default) of
     Inr s \<Rightarrow> undelivered (sr_stream s) = [(0, 7)] \<and> batch_hint (rs_config (sr_stream s)) = 64
   | Inl _ \<Rightarrow> False"
  by code_simp

theorem stream_run_fifo_witness:
  "\<exists>s. stream_run (sent_one @ [St_Shutdown, St_Poll False 0, St_Poll False 0]) (stream_start tiny_config stream_config_default) = Inr s \<and>
       (\<forall>i. of_producer i (sr_yielded s) @ of_producer i (rs_buffer (sr_stream s)) @ ring_items (rs_channel (sr_stream s)) i =
            of_producer i (sr_accepted s)) \<and>
       (sr_ended s \<longrightarrow> (\<forall>i. of_producer i (sr_yielded s) = of_producer i (sr_accepted s)))"
  by (rule stream_run_fifo [OF tiny_config_valid])

text \<open>Polling repeatedly, with a list of readiness and ticks.\<close>

fun poll_results :: "(bool \<times> nat) list \<Rightarrow> 'a stream \<Rightarrow> fault + 'a option poll list" where
  "poll_results [] st = Inr []"
| "poll_results ((d, t) # envs) st =
     try_bind (poll_next d t st) (\<lambda>(res, st'). try_bind (poll_results envs st') (\<lambda>rs. Inr (res # rs)))"

lemma poll_results_drain:
  assumes "balance y a st" "control_ok st" "\<not> rs_shutdown_tx st" "length envs = Suc (length (undelivered st))"
  shows "poll_results envs st = Inr (map (\<lambda>x. Ready (Some x)) (undelivered st) @ [Ready None])"
  using assms
proof (induction envs arbitrary: y st)
  case (Cons e envs)
  obtain d t where e: "e = (d, t)" by (cases e)
  obtain res st' where p: "poll_next d t st = Inr (res, st')" "poll_ok y a st res st'" "control_ok st'"
    "\<not> rs_shutdown_tx st'" "res = Ready None \<longrightarrow> undelivered st = []" "res \<noteq> Pending"
    using poll_next_spec [OF Cons.prems(1,2), of d t] Cons.prems(3) by auto
  show ?case
  proof (cases "undelivered st")
    case Nil
    then have "envs = []" using Cons.prems(4) by simp
    moreover have "res = Ready None" using p(2,6) Nil by (auto simp: poll_ok_def split: poll.splits option.splits)
    ultimately show ?thesis using e p(1) Nil by simp
  next
    case (Cons x xs)
    with p(2,5,6) have r: "res = Ready (Some x)" "undelivered st' = xs" "balance (y @ [x]) a st'"
      by (auto simp: poll_ok_def split: poll.splits option.splits)
    have "poll_results envs st' = Inr (map (\<lambda>x. Ready (Some x)) (undelivered st') @ [Ready None])"
      using Cons.IH [OF r(3) p(3,4)] Cons.prems(4) \<open>undelivered st = x # xs\<close> r(2) by simp
    then show ?thesis using e p(1) r \<open>undelivered st = x # xs\<close> by simp
  qed
qed simp

text \<open>
  C16. Shutdown drains and ends.  From any state a stream can reach, after \<open>RingReceiver::shutdown\<close>, polling
  once more than there are undelivered items, with any readiness and ticks, is never pending: it yields
  all of them in order and then the end of the stream.
\<close>

theorem stream_shutdown_drains:
  assumes "valid_config c" "stream_run ops (stream_start c sc) = Inr s"
    and "length envs = Suc (length (undelivered (sr_stream s)))"
  shows "poll_results envs (receiver_shutdown (sr_stream s)) =
           Inr (map (\<lambda>x. Ready (Some x)) (undelivered (sr_stream s)) @ [Ready None])"
proof -
  have "run_ok s" using assms(1,2) by (rule stream_reachable_ok)
  then have "run_ok (s\<lparr>sr_stream := receiver_shutdown (sr_stream s)\<rparr>)" using stream_step_ok [of s St_Shutdown] by simp
  then have ok: "balance (sr_yielded s) (sr_accepted s) (receiver_shutdown (sr_stream s))" "control_ok (receiver_shutdown (sr_stream s))"
    by (simp_all add: run_ok_def)
  have "\<not> rs_shutdown_tx (receiver_shutdown (sr_stream s))" "undelivered (receiver_shutdown (sr_stream s)) = undelivered (sr_stream s)"
    by (simp_all add: receiver_shutdown_def Let_def)
  with poll_results_drain [OF ok] assms(3) show ?thesis by simp
qed

theorem stream_shutdown_drains_witness:
  "\<exists>s. stream_run sent_one (stream_start tiny_config stream_config_default) = Inr s \<and>
     poll_results [(True, 0), (False, 3)] (receiver_shutdown (sr_stream s)) = Inr [Ready (Some (0, 7)), Ready None]"
proof -
  obtain s where s: "stream_run sent_one (stream_start tiny_config stream_config_default) = Inr s"
    "undelivered (sr_stream s) = [(0, 7)]"
    using sent_one_reaches by (auto split: sum.splits)
  from stream_shutdown_drains [OF tiny_config_valid s(1), of "[(True, 0), (False, 3)]"] s show ?thesis by simp
qed



end
