(* ===== verification/Wal_Tx.thy ===== *)
theory Wal_Tx
  imports Wal_Writer Wal_Commit Stream_Props
begin

text \<open>
  Transactions over the stream: the writer's \<open>send\<close> on the model's stream meets the sender contract, so
  what a commit leaves in the writer's ring is known on every path; and transaction ids after
  recovery are fresh.
\<close>

section \<open>The stream as an envelope sender\<close>

text \<open>
  \<open>send\<close> by writer \<open>i\<close>, with what the rest of the system does before each wake-up.  A call that is still
  suspended when that list is used up counts as not sent.
\<close>

definition stream_sending ::
    "(('k, 'v) envelope stream \<Rightarrow> ('k, 'v) envelope stream) list \<Rightarrow> usize \<Rightarrow> ('k, 'v, ('k, 'v) envelope stream) sending" where
  "stream_sending wakes i envl st =
     (case send wakes i envl st of
        Inl _ \<Rightarrow> (Inl Closed_Error, st)
      | Inr (Some r, st1) \<Rightarrow> (r, st1)
      | Inr (None, st1) \<Rightarrow> (Inl Full_Error, st1))"

definition writer_ok :: "usize \<Rightarrow> 'a stream \<Rightarrow> bool" where
  "writer_ok i st \<longleftrightarrow> channel_inv (rs_channel st) \<and> unat i < unat (ch_producer_count (rs_channel st))"

lemma put_item_spec:
  assumes "writer_ok i st"
  shows "\<exists>b st'. put_item i x st = Inr (b, st') \<and> writer_ok i st' \<and> rs_closed st' = rs_closed st \<and>
           ring_items (rs_channel st') (unat i) = ring_items (rs_channel st) (unat i) @ (if b then [x] else [])"
proof -
  have i: "channel_inv (rs_channel st)" "unat i < unat (ch_producer_count (rs_channel st))" using assms by (simp_all add: writer_ok_def)
  from producer_push_spec [OF i, of x] obtain b r' where
    p: "producer_push i x (rs_channel st) = Inr (b, rs_channel st\<lparr>ch_rings := (ch_rings (rs_channel st))[unat i := r']\<rparr>)"
      "channel_inv (rs_channel st\<lparr>ch_rings := (ch_rings (rs_channel st))[unat i := r']\<rparr>)"
      "ring_contents r' = ring_contents (ch_rings (rs_channel st) ! unat i) @ (if b then [x] else [])"
    by (auto split: if_splits)
  have "unat i < length (ch_rings (rs_channel st))" using i by (simp add: channel_inv_def)
  with p i show ?thesis by (auto simp: put_item_push writer_ok_def ring_items_def)
qed

text \<open>One attempt of \<open>send\<close>: refused, stored, or the ring is full.\<close>

lemma send_attempt_spec:
  assumes "writer_ok i st"
  shows "\<exists>res st'. send_attempt i x st = Inr (res, st') \<and> writer_ok i st' \<and>
           ring_items (rs_channel st') (unat i) = ring_items (rs_channel st) (unat i) @ (if res = Some (Inr ()) then [x] else [])"
proof -
  obtain b where b: "sender_is_closed i st = Inr b" using sender_is_closed_spec [of st i] assms by (auto simp: writer_ok_def)
  obtain c st' where "put_item i x st = Inr (c, st')" "writer_ok i st'"
    "ring_items (rs_channel st') (unat i) = ring_items (rs_channel st) (unat i) @ (if c then [x] else [])"
    using put_item_spec [OF assms] by blast
  with b assms show ?thesis by (cases b; cases c) (auto simp: send_attempt_def)
qed

lemma stream_sending_spec:
  assumes "writer_ok i st" "stream_sending [] i envl st = (res, st')"
  shows "writer_ok i st' \<and>
         ring_items (rs_channel st') (unat i) = ring_items (rs_channel st) (unat i) @ (case res of Inl _ \<Rightarrow> [] | Inr _ \<Rightarrow> [envl])"
proof -
  obtain r st1 where a: "send_attempt i envl st = Inr (r, st1)" "writer_ok i st1"
    "ring_items (rs_channel st1) (unat i) = ring_items (rs_channel st) (unat i) @ (if r = Some (Inr ()) then [envl] else [])"
    using send_attempt_spec [OF assms(1)] by blast
  have "stream_sending [] i envl st = (case r of None \<Rightarrow> (Inl Full_Error, st1) | Some v \<Rightarrow> (v, st1))"
    using a(1) by (cases r) (simp_all add: stream_sending_def send.simps)
  with assms(2) a(2,3) show ?thesis by (cases r; cases res) auto
qed

interpretation stream_writer: envelope_sender "stream_sending [] i" "writer_ok i" "\<lambda>st. ring_items (rs_channel st) (unat i)" for i
  by unfold_locales (use stream_sending_spec in fastforce)+

section \<open>Properties\<close>

text \<open>The transaction after a list of buffered operations.\<close>

datatype ('k, 'v) tx_op = Do_Insert u64 'k 'v | Do_Update u64 'k 'v 'v | Do_Delete u64 'k 'v

fun tx_apply :: "('k, 'v) tx_op \<Rightarrow> ('k, 'v) transaction \<Rightarrow> ('k, 'v) transaction" where
  "tx_apply (Do_Insert ts key v) t = tx_insert ts key v t"
| "tx_apply (Do_Update ts key old_v new_v) t = tx_update ts key old_v new_v t"
| "tx_apply (Do_Delete ts key old_v) t = tx_delete ts key old_v t"

definition tx_build :: "u64 \<Rightarrow> ('k, 'v) tx_op list \<Rightarrow> ('k, 'v) transaction" where
  "tx_build c ops = foldl (\<lambda>t op. tx_apply op t) (fst (tx_new c)) ops"

text \<open>The log entry of an operation.\<close>

fun op_entry :: "u64 \<Rightarrow> ('k, 'v) tx_op \<Rightarrow> ('k, 'v) wal_entry" where
  "op_entry c (Do_Insert ts key v) = Insert c ts key v"
| "op_entry c (Do_Update ts key old_v new_v) = Update c ts key old_v new_v"
| "op_entry c (Do_Delete ts key old_v) = Delete c ts key old_v"

lemma tx_build_spec:
  "tx_ident (tx_build c ops) = c \<and> tx_status (tx_build c ops) = Tx_Active \<and> tx_entries (tx_build c ops) = map (op_entry c) ops"
proof (induction ops rule: rev_induct)
  case Nil
  then show ?case by (simp add: tx_build_def tx_new_def next_tx_id_def)
next
  case (snoc op ops)
  then show ?case by (cases op) (auto simp: tx_build_def tx_insert_def tx_update_def tx_delete_def)
qed

text \<open>
  C20. What a transaction sends.  Build a transaction with any inserts, updates and deletes and commit it
  through a registered writer, whatever state the stream is in and however the wait for the flusher
  ends.  Either the commit fails and the writer's ring got a prefix of the entries of these operations,
  in order and without a marker; or the ring got all of them in order, followed by the commit marker.
  A commit that returns success is of the second kind.
\<close>

theorem transaction_sends_in_order:
  assumes "writer_ok i st" "\<forall>w s. ring_items (rs_channel (snd (await w s))) = ring_items (rs_channel s)"
    and "tx_commit (stream_sending [] i) await ts w (tx_build c ops) st = (res, t', st')"
  shows "(\<exists>k. res \<noteq> Inr () \<and>
             ring_items (rs_channel st') (unat i) = ring_items (rs_channel st) (unat i) @ map (\<lambda>op. Entry (op_entry c op)) (take k ops)) \<or>
         ring_items (rs_channel st') (unat i) =
           ring_items (rs_channel st) (unat i) @ map (\<lambda>op. Entry (op_entry c op)) ops @ [CommitBarrier (Commit c ts) w]"
proof -
  let ?t = "tx_build c ops"
  note b = tx_build_spec [of c ops]
  have aw: "\<forall>w s. ring_items (rs_channel (snd (await w s))) (unat i) = ring_items (rs_channel s) (unat i)"
    using assms(2) by simp
  from b have act: "tx_status ?t = Tx_Active" and eq: "tx_ident ?t = c" and es: "tx_entries ?t = map (op_entry c) ops" by blast+
  from stream_writer.commit_sent [where await = await, OF aw assms(1) act assms(3), unfolded eq es] show ?thesis
    by (auto simp: take_map o_def)
qed

definition one_writer :: "(u8, bytes) envelope stream" where
  "one_writer = (stream_channel tiny_config)\<lparr>rs_channel :=
     (case channel_register (channel_new False tiny_config) of Inr (_, ch) \<Rightarrow> ch | Inl _ \<Rightarrow> channel_new False tiny_config)\<rparr>"

lemma one_writer_ok: "writer_ok 0 one_writer"
proof -
  let ?ch = "channel_new False tiny_config :: (u8, bytes) envelope channel"
  have "channel_inv ?ch" by (rule channel_new_inv [OF tiny_config_valid])
  from channel_register_spec [OF this] obtain ch where
    "channel_register ?ch = Inr (Inr 0, ch)" "channel_inv ch" "unat (ch_producer_count ch) = 1"
    by (auto simp: channel_new_def channel_new_in_def tiny_config_def)
  then show ?thesis by (simp add: one_writer_def writer_ok_def)
qed

theorem transaction_sends_in_order_witness:
  "\<exists>res t' st'.
     tx_commit (stream_sending [] 0) (\<lambda>w s. (True, s)) 5 3 (tx_build 7 [Do_Insert 1 9 [4], Do_Delete 2 9 [4]]) one_writer = (res, t', st') \<and>
     ((\<exists>k. res \<noteq> Inr () \<and> ring_items (rs_channel st') 0 = ring_items (rs_channel one_writer) 0 @
         map (\<lambda>op. Entry (op_entry 7 op)) (take k [Do_Insert 1 9 [4], Do_Delete 2 9 [4]])) \<or>
      ring_items (rs_channel st') 0 = ring_items (rs_channel one_writer) 0 @
        [Entry (Insert 7 1 9 [4]), Entry (Delete 7 2 9 [4]), CommitBarrier (Commit 7 5) 3])"
proof -
  obtain res t' st' where r: "tx_commit (stream_sending [] 0) (\<lambda>w s. (True, s)) 5 3
      (tx_build 7 [Do_Insert 1 9 [4], Do_Delete 2 9 [4]]) one_writer = (res, t', st')"
    by (metis prod_cases3)
  from transaction_sends_in_order [OF one_writer_ok _ r] r show ?thesis by auto
qed

text \<open>
  C21. Fresh ids after recovery.  Unless the log already holds the largest 64-bit id, the first transaction
  created after a recovery has an id above that of every recovered transaction, and above every id
  handed out before.
\<close>

theorem recovered_ids_not_reused:
  assumes "hash_set_order ho" "recover crc deser ho eng dir fs = (Inr (rs, st, reset), fs1)"
    and "\<forall>r\<in>set rs. rt_tx_id r \<noteq> - 1" "c \<noteq> 0"
  shows "(\<forall>r\<in>set rs. rt_tx_id r < fst (next_tx_id (after_recovery reset c))) \<and>
         c \<le> fst (next_tx_id (after_recovery reset c))"
proof -
  obtain found where found: "discover_segment_ids eng dir fs = Inr found"
    using assms(2) by (auto simp: recover_def split: sum.splits)
  obtain es st0 where es: "read_segments crc deser eng dir (sort found) [] stats_default fs = (Inr (es, st0), fs1)"
    using assms(2) found by (auto simp: recover_def Let_def split: sum.splits prod.splits)
  from recover_spec [OF found es assms(1)] assms(2) have
    ids: "set (map rt_tx_id rs) = set (map tx_id es)" and
    reset: "reset = (if 0 < tt_max (classify es) then Some (tt_max (classify es) + 1) else None)" by auto
  let ?m = "tt_max (classify es)"
  note mx = classify_max [of es]
  have le: "rt_tx_id r \<le> ?m" if "r \<in> set rs" for r
  proof -
    have "rt_tx_id r \<in> set (map tx_id es)" unfolding ids [symmetric] using that by simp
    then show ?thesis using mx by auto
  qed
  have id: "fst (next_tx_id (after_recovery reset c)) = after_recovery reset c" by (simp add: next_tx_id_def)
  show ?thesis
  proof (cases "0 < ?m")
    case True
    then have "?m \<in> set (map rt_tx_id rs)" unfolding ids using mx by auto
    then have "?m \<noteq> - 1" using assms(3) by auto
    then have "?m < - 1" using word_order.not_eq_extremum by blast
    then have "?m < ?m + 1" using unat_Suc_bounded [of ?m "- 1"] by (simp add: word_less_nat_alt)
    with True le show ?thesis unfolding id by (auto simp: reset after_recovery_def reset_tx_id_def less_max_iff_disj intro: le_less_trans)
  next
    case False
    then have "?m = 0" unfolding word_gt_0 by simp
    with le have "rt_tx_id r = 0" if "r \<in> set rs" for r using that by fastforce
    with False assms(4) show ?thesis unfolding id by (simp add: reset after_recovery_def word_neq_0_conv)
  qed
qed

theorem recovered_ids_not_reused_witness:
  "\<exists>st reset fs1. recover sum_crc small_deser (\<lambda>xs. xs) (sim_engine unit_rng) [''wal''] one_segment = (Inr (one_recovered, st, reset), fs1) \<and>
     7 < fst (next_tx_id (after_recovery reset 1))"
proof -
  obtain st reset fs1 where
    r: "recover sum_crc small_deser (\<lambda>xs. xs) (sim_engine unit_rng) [''wal''] one_segment = (Inr (one_recovered, st, reset), fs1)"
    using one_segment_recovers by blast
  from recovered_ids_not_reused [OF hash_set_order_id r, of 1] r show ?thesis by (simp add: one_recovered_def)
qed

end
