(* ===== verification/Wal_System.thy ===== *)
theory Wal_System
  imports Wal_Tx
begin

text \<open>
  The whole write path of the log: transactions commit or abort through registered writers, their
  envelopes travel through the rings and the receiver's buffer to the flusher task, which writes, syncs
  and acknowledges.  All of these are interleaved at every attempt to send and every poll; at the end the
  process crashes and the log is recovered.  What is left out is \<open>checkpoint\<close>, which removes segments, and
  the use of a writer without a transaction.
\<close>

section \<open>The system\<close>

text \<open>
  A call of \<open>Transaction::commit\<close> or \<open>Transaction::abort\<close> in progress: the writer it was given, the id, the
  buffered entries and the last envelope it will send, what is still to be sent, whether the current
  \<open>send\<close> has passed its check for a closed stream, and whether a send was refused.  A commit waits on the
  waiter numbered as the task itself.
\<close>

record ('k, 'v) commit_task =
  tk_writer :: usize
  tk_tx :: u64
  tk_data :: "('k, 'v) wal_entry list"
  tk_end :: "('k, 'v) envelope"
  tk_left :: "('k, 'v) envelope list"
  tk_checked :: bool
  tk_refused :: bool

definition tk_script :: "('k, 'v) commit_task \<Rightarrow> ('k, 'v) envelope list" where
  "tk_script t = map Entry (tk_data t) @ [tk_end t]"

text \<open>
  \<open>sy_permit\<close>: \<open>Wal::shutdown\<close> has notified the flusher.  \<open>sy_draining\<close>: the flusher has seen it and is in
  the loop that empties the receiver.  \<open>sy_overtaken\<close> is history: the calls with a send past its check when
  the stream was closed.
\<close>

record ('k, 'v, 'fs) wal_system =
  sy_stream :: "('k, 'v) envelope stream_state"
  sy_flusher :: "'fs flusher"
  sy_tasks :: "('k, 'v) commit_task list"
  sy_next_tx :: u64
  sy_permit :: bool
  sy_draining :: bool
  sy_overtaken :: "nat list"

datatype ('k, 'v) sys_act =
    Sys_Register
  | Sys_Commit usize "('k, 'v) tx_op list" u64
  | Sys_Abort usize "('k, 'v) tx_op list" u64
  | Sys_Send nat
  | Sys_Poll bool nat
  | Sys_Timeout
  | Sys_Shutdown
  | Sys_Shutdown_Seen
  | Sys_Close

text \<open>
  Creating a transaction, its operations and the call of \<open>commit\<close> or \<open>abort\<close> up to its first send touch
  nothing shared but the id counter, and are one step.
\<close>

definition start_task ::
    "usize \<Rightarrow> (('k, 'v) transaction \<Rightarrow> ('k, 'v) wal_entry list \<times> ('k, 'v) envelope) \<Rightarrow> ('k, 'v) tx_op list \<Rightarrow>
     ('k, 'v, 'fs) wal_system \<Rightarrow> ('k, 'v, 'fs) wal_system" where
  "start_task i sends ops s =
     (let c = sy_next_tx s; t = tx_build c ops; (data, last_envl) = sends t
      in s\<lparr>sy_next_tx := snd (next_tx_id c),
           sy_tasks := sy_tasks s @ [\<lparr>tk_writer = i, tk_tx = tx_ident t, tk_data = data, tk_end = last_envl,
             tk_left = map Entry data @ [last_envl], tk_checked = False, tk_refused = False\<rparr>]\<rparr>)"

text \<open>
  One step of the \<open>send\<close> a task is in.  The check for a closed stream and the attempt to store the item are
  separate steps, so the receiver may shut down between them.  A refused send fails the call; when the
  ring is full the task waits for room and starts again with the check.
\<close>

definition task_send :: "nat \<Rightarrow> ('k, 'v, 'fs) wal_system \<Rightarrow> fault + ('k, 'v, 'fs) wal_system" where
  "task_send j s =
     (let t = sy_tasks s ! j; i = tk_writer t; str = sy_stream s
      in case tk_left t of
           [] \<Rightarrow> Inr s
         | envl # rest \<Rightarrow>
             if \<not> tk_checked t
             then try_bind (sender_is_closed i (sr_stream str)) (\<lambda>closed.
                    Inr (s\<lparr>sy_tasks := (sy_tasks s)[j := if closed then t\<lparr>tk_left := [], tk_refused := True\<rparr>
                                                      else t\<lparr>tk_checked := True\<rparr>]\<rparr>))
             else try_bind (put_item i (i, envl) (sr_stream str)) (\<lambda>(ok, st).
                    Inr (s\<lparr>sy_stream := str\<lparr>sr_stream := st, sr_accepted := sr_accepted str @ (if ok then [(i, envl)] else [])\<rparr>,
                           sy_tasks := (sy_tasks s)[j := t\<lparr>tk_left := if ok then rest else tk_left t, tk_checked := False\<rparr>]\<rparr>)))"

definition passed_check :: "('k, 'v, 'fs) wal_system \<Rightarrow> nat list" where
  "passed_check s = filter (\<lambda>j. tk_checked (sy_tasks s ! j)) [0..<length (sy_tasks s)]"

text \<open>What the flusher does with the answer of \<open>receiver.next()\<close>.\<close>

definition flusher_takes ::
    "('k, 'v, 'fs) flusher_env \<Rightarrow> bool \<Rightarrow> (usize \<times> ('k, 'v) envelope) option poll \<Rightarrow> 'fs flusher \<Rightarrow> fault + 'fs flusher" where
  "flusher_takes P draining res fl =
     (case res of
        Pending \<Rightarrow> Inr fl
      | Ready None \<Rightarrow> flusher_step P Stream_Ended fl
      | Ready (Some (_, envl)) \<Rightarrow> if draining then Inr (collect_envelope P envl fl) else flusher_step P (Received envl) fl)"

definition flusher_polls :: "('k, 'v, 'fs) flusher_env \<Rightarrow> bool \<Rightarrow> nat \<Rightarrow> ('k, 'v, 'fs) wal_system \<Rightarrow> fault + ('k, 'v, 'fs) wal_system" where
  "flusher_polls P data_ready ticks s =
     (let str = sy_stream s
      in try_bind (poll_next data_ready ticks (sr_stream str)) (\<lambda>(res, st).
           try_bind (flusher_takes P (sy_draining s) res (sy_flusher s)) (\<lambda>fl.
             Inr (s\<lparr>sy_stream := str\<lparr>sr_stream := st,
                      sr_yielded := sr_yielded str @ (case res of Ready (Some x) \<Rightarrow> [x] | _ \<Rightarrow> []),
                      sr_ended := sr_ended str \<or> res = Ready None\<rparr>,
                    sy_flusher := fl\<rparr>))))"

text \<open>A step that cannot happen is skipped; a writer exists only for an id that was handed out.\<close>

fun sys_step :: "('k, 'v, 'fs) flusher_env \<Rightarrow> ('k, 'v) sys_act \<Rightarrow> ('k, 'v, 'fs) wal_system \<Rightarrow> fault + ('k, 'v, 'fs) wal_system" where
  "sys_step P Sys_Register s = try_bind (stream_step St_Register (sy_stream s)) (\<lambda>str. Inr (s\<lparr>sy_stream := str\<rparr>))"
| "sys_step P (Sys_Commit i ops ts) s =
     Inr (start_task i (\<lambda>t. (tx_entries t, CommitBarrier (Commit (tx_ident t) ts) (length (sy_tasks s)))) ops s)"
| "sys_step P (Sys_Abort i ops ts) s = Inr (start_task i (\<lambda>t. ([], Entry (Abort (tx_ident t) ts))) ops s)"
| "sys_step P (Sys_Send j) s =
     (if j < length (sy_tasks s) \<and>
         unat (tk_writer (sy_tasks s ! j)) < unat (ch_producer_count (rs_channel (sr_stream (sy_stream s))))
      then task_send j s else Inr s)"
| "sys_step P (Sys_Poll data_ready ticks) s =
     (if \<not> fl_stopped (sy_flusher s) \<and> fl_drained (sy_flusher s) < fe_batch_hint P then flusher_polls P data_ready ticks s
      else Inr s)"
| "sys_step P Sys_Timeout s =
     (if \<not> sy_draining s \<and> flusher_enabled P Timed_Out (sy_flusher s)
      then try_bind (flusher_step P Timed_Out (sy_flusher s)) (\<lambda>fl. Inr (s\<lparr>sy_flusher := fl\<rparr>))
      else Inr s)"
| "sys_step P Sys_Shutdown s = Inr (s\<lparr>sy_permit := True\<rparr>)"
| "sys_step P Sys_Shutdown_Seen s =
     (if sy_permit s \<and> \<not> sy_draining s \<and> flusher_enabled P (Shutdown_Requested []) (sy_flusher s)
      then try_bind (stream_step St_Shutdown (sy_stream s)) (\<lambda>str.
             Inr (s\<lparr>sy_stream := str, sy_permit := False, sy_draining := True,
                    sy_overtaken := sy_overtaken s @ passed_check s\<rparr>))
      else Inr s)"
| "sys_step P Sys_Close s =
     try_bind (stream_step St_Close_Factory (sy_stream s)) (\<lambda>str.
       Inr (s\<lparr>sy_stream := str, sy_overtaken := sy_overtaken s @ passed_check s\<rparr>))"

fun sys_run :: "('k, 'v, 'fs) flusher_env \<Rightarrow> ('k, 'v) sys_act list \<Rightarrow> ('k, 'v, 'fs) wal_system \<Rightarrow> fault + ('k, 'v, 'fs) wal_system" where
  "sys_run P [] s = Inr s"
| "sys_run P (a # acts) s = try_bind (sys_step P a s) (sys_run P acts)"

text \<open>
  \<open>Wal::open\<close>, with the history of the stream; \<open>n\<close> is the value of the global id counter.  \<open>wal_env\<close> is
  what the flusher task is given.
\<close>

definition wal_env ::
    "(bytes \<Rightarrow> u32) \<Rightarrow> (('k, 'v) wal_entry \<Rightarrow> bytes option) \<Rightarrow> 'fs io_engine \<Rightarrow>
     (bool \<Rightarrow> path \<Rightarrow> 'fs \<Rightarrow> (io_error + unit) \<times> 'fs) \<Rightarrow> wal_config \<Rightarrow> ('k, 'v, 'fs) flusher_env" where
  "wal_env crc ser eng fd_sync c =
     \<lparr>fe_crc = crc, fe_serialize = ser, fe_engine = eng, fe_fd_sync = fd_sync,
      fe_batch_hint = unat (wc_batch_hint c), fe_sync_mode = wc_sync_mode c\<rparr>"

definition sys_open :: "'fs io_engine \<Rightarrow> wal_config \<Rightarrow> u64 \<Rightarrow> 'fs \<Rightarrow> fault + (wal_error + ('k, 'v, 'fs) wal_system) \<times> 'fs" where
  "sys_open eng c n fs =
     try_bind (config_new (wc_ring_bits c) (wc_max_writers c) (wc_enable_metrics c)) (\<lambda>ring_config.
       let stream_config = with_batch_hint (wc_batch_hint c) (with_poll_interval (wc_flush_interval c) stream_config_default)
       in case manager_open eng (wc_dir c) (wc_max_segment_size c) (wc_direct_io c) fs of
            (Inl e, fs1) \<Rightarrow> Inr (Inl e, fs1)
          | (Inr sm, fs1) \<Rightarrow>
              Inr (Inr \<lparr>sy_stream = stream_start ring_config stream_config, sy_flusher = flusher_start sm fs1, sy_tasks = [],
                     sy_next_tx = n, sy_permit = False, sy_draining = False, sy_overtaken = []\<rparr>, fs1))"

section \<open>Invariant\<close>

text \<open>The envelopes of transaction \<open>c\<close>.\<close>

definition of_tx :: "u64 \<Rightarrow> ('k, 'v) envelope list \<Rightarrow> ('k, 'v) envelope list" where
  "of_tx c envls = filter (\<lambda>envl. tx_id (envelope_entry envl) = c) envls"

lemma of_tx_append [simp]: "of_tx c (xs @ ys) = of_tx c xs @ of_tx c ys" "of_tx c [] = []"
  by (simp_all add: of_tx_def)

text \<open>A task sends entries of its own transaction and ends with the marker.\<close>

definition task_wf :: "nat \<Rightarrow> ('k, 'v) commit_task \<Rightarrow> bool" where
  "task_wf j t \<longleftrightarrow>
     (\<forall>d\<in>set (tk_data t). tx_id d = tk_tx t \<and> \<not> is_marker d) \<and>
     (\<exists>ts. tk_end t = CommitBarrier (Commit (tk_tx t) ts) j \<or> tk_end t = Entry (Abort (tk_tx t) ts) \<and> tk_data t = [])"

text \<open>
  What was accepted of a task is a prefix of its script, a proper one when a send was refused; otherwise
  it has the rest to send.
\<close>

definition task_sent :: "('k, 'v) envelope list \<Rightarrow> ('k, 'v) commit_task \<Rightarrow> bool" where
  "task_sent envls t \<longleftrightarrow>
     (\<exists>k. of_tx (tk_tx t) envls = take k (tk_script t) \<and> tk_left t = (if tk_refused t then [] else drop k (tk_script t)) \<and>
        (tk_refused t \<longrightarrow> k < length (tk_script t)))"

definition tasks_ok :: "u64 \<Rightarrow> (usize \<times> ('k, 'v) envelope) list \<Rightarrow> ('k, 'v) commit_task list \<Rightarrow> bool" where
  "tasks_ok n acc tks \<longleftrightarrow>
     (\<forall>j<length tks. tk_tx (tks ! j) = n + of_nat j \<and> task_wf j (tks ! j) \<and> task_sent (map snd acc) (tks ! j)) \<and>
     (\<forall>x\<in>set acc. \<exists>j<length tks. fst x = tk_writer (tks ! j) \<and> snd x \<in> set (tk_script (tks ! j)))"

lemma script_tx:
  assumes "task_wf j t" "envl \<in> set (tk_script t)"
  shows "tx_id (envelope_entry envl) = tk_tx t"
  using assms by (auto simp: task_wf_def tk_script_def)

lemma tasks_distinct:
  assumes "tasks_ok n acc tks" "length tks \<le> 2 ^ 64" "i < length tks" "j < length tks" "tk_tx (tks ! i) = tk_tx (tks ! j)"
  shows "i = j"
proof -
  have "(of_nat i :: u64) = of_nat j" using assms(1,3-5) by (simp add: tasks_ok_def)
  then have "unat (of_nat i :: u64) = unat (of_nat j :: u64)" by (rule arg_cong)
  moreover have "i < 2 ^ 64" "j < 2 ^ 64" using assms(2-4) by linarith+
  ultimately show ?thesis by (simp add: unat_of_nat)
qed

text \<open>An accepted envelope belongs to the task of its transaction.\<close>

lemma accepted_of_task:
  assumes ok: "tasks_ok n acc tks" "length tks \<le> 2 ^ 64" and x: "x \<in> set acc" and j: "j < length tks"
    and tx: "tx_id (envelope_entry (snd x)) = tk_tx (tks ! j)"
  shows "fst x = tk_writer (tks ! j) \<and> snd x \<in> set (tk_script (tks ! j))"
proof -
  obtain i where i: "i < length tks" "fst x = tk_writer (tks ! i)" "snd x \<in> set (tk_script (tks ! i))"
    using ok(1) x by (auto simp: tasks_ok_def)
  have "task_wf i (tks ! i)" using ok(1) i(1) by (simp add: tasks_ok_def)
  then have "tk_tx (tks ! i) = tk_tx (tks ! j)" using script_tx i(3) tx by metis
  then have "i = j" using tasks_distinct [OF ok i(1) j] by simp
  with i show ?thesis by simp
qed

lemma tasks_ok_new:
  assumes ok: "tasks_ok n acc tks" and len: "length tks < 2 ^ 64"
    and t: "tk_tx t = n + of_nat (length tks)" "task_wf (length tks) t" "tk_left t = tk_script t" "\<not> tk_refused t"
  shows "tasks_ok n acc (tks @ [t])"
proof -
  have "of_tx (tk_tx t) (map snd acc) = []"
  proof (rule ccontr)
    assume "of_tx (tk_tx t) (map snd acc) \<noteq> []"
    then obtain x where x: "x \<in> set acc" "tx_id (envelope_entry (snd x)) = tk_tx t"
      by (auto simp: of_tx_def filter_empty_conv)
    obtain i where i: "i < length tks" "snd x \<in> set (tk_script (tks ! i))" using ok x(1) by (auto simp: tasks_ok_def)
    have "task_wf i (tks ! i)" "tk_tx (tks ! i) = n + of_nat i" using ok i(1) by (simp_all add: tasks_ok_def)
    with script_tx [OF _ i(2)] x(2) t(1) have "(of_nat i :: u64) = of_nat (length tks)" by simp
    then have "unat (of_nat i :: u64) = unat (of_nat (length tks) :: u64)" by (rule arg_cong)
    with i(1) len show False by (simp add: unat_of_nat)
  qed
  then have "task_sent (map snd acc) t" unfolding task_sent_def using t(3,4) by (intro exI [of _ 0]) simp
  then show ?thesis using ok t(1,2) by (auto simp: tasks_ok_def nth_append less_Suc_eq)
qed

lemma tk_script_update [simp]:
  "tk_script (t\<lparr>tk_left := l\<rparr>) = tk_script t" "tk_script (t\<lparr>tk_refused := b\<rparr>) = tk_script t"
  "tk_script (t\<lparr>tk_checked := b\<rparr>) = tk_script t" "task_wf j (t\<lparr>tk_checked := b\<rparr>) = task_wf j t"
  "task_wf j (t\<lparr>tk_left := l\<rparr>) = task_wf j t" "task_wf j (t\<lparr>tk_refused := b\<rparr>) = task_wf j t"
  by (simp_all add: tk_script_def task_wf_def)

lemma task_sent_checked [simp]: "task_sent envls (t\<lparr>tk_checked := b\<rparr>) = task_sent envls t"
  by (simp add: task_sent_def)

text \<open>How far one task is only matters to itself.\<close>

lemma tasks_ok_update:
  assumes ok: "tasks_ok n acc tks"
    and t: "tk_script t = tk_script (tks ! j)" "tk_writer t = tk_writer (tks ! j)" "tk_tx t = tk_tx (tks ! j)"
      "task_wf j t = task_wf j (tks ! j)"
    and sent: "j < length tks \<Longrightarrow> task_sent (map snd acc') t"
      "\<And>i. i < length tks \<Longrightarrow> i \<noteq> j \<Longrightarrow> task_sent (map snd acc') (tks ! i)"
    and acc: "\<And>x. x \<in> set acc' \<Longrightarrow> \<exists>i<length tks. fst x = tk_writer (tks ! i) \<and> snd x \<in> set (tk_script (tks ! i))"
  shows "tasks_ok n acc' (tks[j := t])"
proof -
  let ?tks = "tks[j := t]"
  have same: "tk_writer (?tks ! i) = tk_writer (tks ! i)" "tk_script (?tks ! i) = tk_script (tks ! i)" if "i < length tks" for i
    using that t by (cases "i = j"; simp)+
  have "\<exists>i<length ?tks. fst x = tk_writer (?tks ! i) \<and> snd x \<in> set (tk_script (?tks ! i))" if "x \<in> set acc'" for x
    using acc [OF that] same by auto
  moreover have "tk_tx (?tks ! i) = n + of_nat i \<and> task_wf i (?tks ! i) \<and> task_sent (map snd acc') (?tks ! i)"
    if "i < length ?tks" for i
    using ok sent t that by (cases "i = j") (simp_all add: tasks_ok_def)
  ultimately show ?thesis unfolding tasks_ok_def by blast
qed

lemma task_sent_refused:
  assumes "task_sent envls t" "tk_left t \<noteq> []"
  shows "task_sent envls (t\<lparr>tk_left := [], tk_refused := True\<rparr>)"
proof -
  obtain k where k: "of_tx (tk_tx t) envls = take k (tk_script t)" "tk_left t = drop k (tk_script t)"
    using assms by (auto simp: task_sent_def split: if_splits)
  then have "k < length (tk_script t)" using assms(2) by (metis drop_eq_Nil2 leI)
  then show ?thesis unfolding task_sent_def using k by (intro exI [of _ k]) simp
qed

lemma tasks_ok_refused:
  assumes "tasks_ok n acc tks" "tk_left (tks ! j) \<noteq> []"
  shows "tasks_ok n acc (tks[j := (tks ! j)\<lparr>tk_left := [], tk_refused := True\<rparr>])"
  by (rule tasks_ok_update [OF assms(1)]) (use assms task_sent_refused in \<open>auto simp: tasks_ok_def\<close>)

lemma tasks_ok_checked: "tasks_ok n acc tks \<Longrightarrow> tasks_ok n acc (tks[j := (tks ! j)\<lparr>tk_checked := b\<rparr>])"
  by (rule tasks_ok_update) (auto simp: tasks_ok_def)

lemma tasks_ok_accept:
  assumes ok: "tasks_ok n acc tks" "length tks \<le> 2 ^ 64" and j: "j < length tks" and left: "tk_left (tks ! j) = envl # rest"
  shows "tasks_ok n (acc @ [(tk_writer (tks ! j), envl)]) (tks[j := (tks ! j)\<lparr>tk_left := rest, tk_checked := False\<rparr>])"
proof -
  let ?t = "tks ! j" and ?acc = "acc @ [(tk_writer (tks ! j), envl)]"
  have wf: "task_wf j ?t" using ok(1) j by (simp add: tasks_ok_def)
  obtain k where k: "of_tx (tk_tx ?t) (map snd acc) = take k (tk_script ?t)" "drop k (tk_script ?t) = envl # rest" "\<not> tk_refused ?t"
    using ok(1) j left by (fastforce simp: tasks_ok_def task_sent_def split: if_splits)
  then have lt: "k < length (tk_script ?t)" by (metis drop_eq_Nil2 leI list.distinct(1))
  have e: "envl = tk_script ?t ! k" "rest = drop (Suc k) (tk_script ?t)"
    using k(2) Cons_nth_drop_Suc [OF lt] by auto
  have mem: "envl \<in> set (tk_script ?t)" unfolding e(1) using lt by simp
  have etx: "tx_id (envelope_entry envl) = tk_tx ?t" by (rule script_tx [OF wf mem])
  have "task_sent (map snd ?acc) (?t\<lparr>tk_left := rest, tk_checked := False\<rparr>)"
    unfolding task_sent_checked unfolding task_sent_def using k(1,3) etx e lt
    by (intro exI [of _ "Suc k"]) (simp add: of_tx_def take_Suc_conv_app_nth)
  moreover have "task_sent (map snd ?acc) (tks ! i)" if "i < length tks" "i \<noteq> j" for i
  proof -
    have "tk_tx (tks ! i) \<noteq> tx_id (envelope_entry envl)" using tasks_distinct [OF ok that(1) j] that(2) etx by auto
    then have "of_tx (tk_tx (tks ! i)) (map snd ?acc) = of_tx (tk_tx (tks ! i)) (map snd acc)" by (simp add: of_tx_def)
    moreover have "task_sent (map snd acc) (tks ! i)" using ok(1) that(1) by (simp add: tasks_ok_def)
    ultimately show ?thesis by (simp only: task_sent_def)
  qed
  moreover have "\<exists>i<length tks. fst x = tk_writer (tks ! i) \<and> snd x \<in> set (tk_script (tks ! i))" if "x \<in> set ?acc" for x
    using that ok(1) j mem by (auto simp: tasks_ok_def)
  ultimately show ?thesis by (intro tasks_ok_update [OF ok(1)]) (simp, simp, simp, simp, blast+)
qed

text \<open>
  What is left of a shutdown: once the stream is closed only the overtaken calls are past their check, and
  once the final drain is done the rings hold no commit marker but theirs.
\<close>

definition of_calls :: "nat list \<Rightarrow> usize \<times> ('k, 'v) envelope \<Rightarrow> bool" where
  "of_calls js x \<longleftrightarrow> (\<forall>e j. snd x = CommitBarrier e j \<longrightarrow> j \<in> set js)"

definition shutdown_ok :: "('k, 'v, 'fs) wal_system \<Rightarrow> bool" where
  "shutdown_ok s \<longleftrightarrow>
     (rs_closed (sr_stream (sy_stream s)) \<longrightarrow> set (passed_check s) \<subseteq> set (sy_overtaken s)) \<and>
     late_ok (of_calls (sy_overtaken s)) (fl_stopped (sy_flusher s)) (sr_stream (sy_stream s)) \<and>
     (fl_stopped (sy_flusher s) \<longrightarrow> rs_buffer (sr_stream (sy_stream s)) = [])"

text \<open>The components keep their invariants, and the flusher has collected what the receiver has yielded.\<close>

definition sys_log_inv ::
    "((bytes \<Rightarrow> u32) \<Rightarrow> path \<Rightarrow> 'fs log_state \<Rightarrow> bool) \<Rightarrow> ('k, 'v, 'fs) flusher_env \<Rightarrow> path \<Rightarrow> u64 \<Rightarrow>
     ('k, 'v, 'fs) wal_system \<Rightarrow> bool" where
  "sys_log_inv L P dir n s \<longleftrightarrow>
     stream_ok (sy_stream s) \<and> flusher_log_inv L P dir (map snd (sr_yielded (sy_stream s))) (sy_flusher s) \<and>
     tasks_ok n (sr_accepted (sy_stream s)) (sy_tasks s) \<and> sy_next_tx s = n + of_nat (length (sy_tasks s)) \<and>
     shutdown_ok s"

abbreviation sys_inv :: "('k, 'v, 'g sim_fs) flusher_env \<Rightarrow> path \<Rightarrow> u64 \<Rightarrow> ('k, 'v, 'g sim_fs) wal_system \<Rightarrow> bool" where
  "sys_inv \<equiv> sys_log_inv run_inv"

lemmas sys_inv_def = sys_log_inv_def

section \<open>Steps\<close>

lemma set_passed_check: "set (passed_check s) = {j. j < length (sy_tasks s) \<and> tk_checked (sy_tasks s ! j)}"
  by (auto simp: passed_check_def)

text \<open>Sizes: a step adds at most one task and takes at most one envelope.\<close>

definition sys_room :: "nat \<Rightarrow> ('k, 'v, 'fs) wal_system \<Rightarrow> bool" where
  "sys_room m s \<longleftrightarrow> length (sy_tasks s) + m < 2 ^ 64 \<and> 2 + length (sr_yielded (sy_stream s)) + m < 2 ^ 64"

lemma start_task_inv:
  assumes inv: "sys_log_inv L P dir n s" and room: "sys_room (Suc m) s"
    and wf: "\<And>c l. task_wf (length (sy_tasks s)) \<lparr>tk_writer = i, tk_tx = c, tk_data = fst (sends (tx_build c ops)),
      tk_end = snd (sends (tx_build c ops)), tk_left = l, tk_checked = False, tk_refused = False\<rparr>"
  shows "sys_log_inv L P dir n (start_task i sends ops s) \<and> sys_room m (start_task i sends ops s)"
proof -
  let ?c = "sy_next_tx s"
  let ?t = "tx_build ?c ops"
  let ?k = "\<lparr>tk_writer = i, tk_tx = ?c, tk_data = fst (sends ?t), tk_end = snd (sends ?t),
    tk_left = map Entry (fst (sends ?t)) @ [snd (sends ?t)], tk_checked = False, tk_refused = False\<rparr>"
  have c: "?c = n + of_nat (length (sy_tasks s))" "tasks_ok n (sr_accepted (sy_stream s)) (sy_tasks s)"
    using inv by (simp_all add: sys_log_inv_def)
  have eq: "start_task i sends ops s = s\<lparr>sy_next_tx := ?c + 1, sy_tasks := sy_tasks s @ [?k]\<rparr>"
    using tx_build_spec [of ?c ops] by (simp add: start_task_def Let_def next_tx_id_def split: prod.split)
  have "tasks_ok n (sr_accepted (sy_stream s)) (sy_tasks s @ [?k])"
    by (rule tasks_ok_new [OF c(2)]) (use room c(1) wf in \<open>simp_all add: sys_room_def tk_script_def\<close>)
  moreover have "shutdown_ok (start_task i sends ops s)"
    using inv unfolding eq by (auto simp: sys_log_inv_def shutdown_ok_def set_passed_check nth_append split: if_splits)
  ultimately show ?thesis using inv room c(1) unfolding eq by (simp add: sys_log_inv_def sys_room_def)
qed

text \<open>A step of one task leaves the shutdown as it was, unless it passes the check of a closed stream.\<close>

lemma shutdown_ok_task:
  assumes ok: "shutdown_ok s"
    and "rs_closed (sr_stream (sy_stream s)) \<Longrightarrow> tk_checked t \<Longrightarrow> tk_checked (sy_tasks s ! j)"
    and "late_ok (of_calls (sy_overtaken s)) (fl_stopped (sy_flusher s)) (sr_stream str)"
      "rs_closed (sr_stream str) = rs_closed (sr_stream (sy_stream s))" "rs_buffer (sr_stream str) = rs_buffer (sr_stream (sy_stream s))"
  shows "shutdown_ok (s\<lparr>sy_stream := str, sy_tasks := (sy_tasks s)[j := t]\<rparr>)"
proof -
  have "set (passed_check (s\<lparr>sy_stream := str, sy_tasks := (sy_tasks s)[j := t]\<rparr>)) \<subseteq> set (passed_check s)"
    if "rs_closed (sr_stream (sy_stream s))"
  proof -
    have "tk_checked (sy_tasks s ! i)" if "i < length (sy_tasks s)" "tk_checked ((sy_tasks s)[j := t] ! i)" for i
      using that assms(2) \<open>rs_closed _\<close> by (cases "i = j") auto
    then show ?thesis by (auto simp: set_passed_check)
  qed
  with assms show ?thesis by (auto simp: shutdown_ok_def)
qed

lemma task_send_inv:
  assumes inv: "sys_log_inv L P dir n s" and room: "sys_room m s" and j: "j < length (sy_tasks s)"
    "unat (tk_writer (sy_tasks s ! j)) < unat (ch_producer_count (rs_channel (sr_stream (sy_stream s))))"
  shows "\<exists>s'. task_send j s = Inr s' \<and> sys_log_inv L P dir n s' \<and> sys_room m s'"
proof (cases "tk_left (sy_tasks s ! j)")
  case Nil
  then show ?thesis using inv room by (simp add: task_send_def Let_def)
next
  case (Cons envl rest)
  let ?str = "sy_stream s" and ?t = "sy_tasks s ! j"
  let ?i = "tk_writer ?t"
  have tasks: "tasks_ok n (sr_accepted ?str) (sy_tasks s)" "length (sy_tasks s) \<le> 2 ^ 64"
    and str: "stream_ok ?str" and sd: "shutdown_ok s"
    using inv room by (simp_all add: sys_log_inv_def sys_room_def)
  note late = sd [unfolded shutdown_ok_def, THEN conjunct2, THEN conjunct1]
  show ?thesis
  proof (cases "tk_checked ?t")
    case False
    obtain b where b: "sender_is_closed ?i (sr_stream ?str) = Inr b" "rs_closed (sr_stream ?str) \<longrightarrow> b"
      using sender_is_closed_spec [OF stream_ok_channel [OF str] j(2)] by blast
    let ?t' = "if b then ?t\<lparr>tk_left := [], tk_refused := True\<rparr> else ?t\<lparr>tk_checked := True\<rparr>"
    have "shutdown_ok (s\<lparr>sy_stream := ?str, sy_tasks := (sy_tasks s)[j := ?t']\<rparr>)"
      by (rule shutdown_ok_task [OF sd _ late]) (use b False in auto)
    then have sd': "shutdown_ok (s\<lparr>sy_tasks := (sy_tasks s)[j := ?t']\<rparr>)" by simp
    have t: "tasks_ok n (sr_accepted ?str) ((sy_tasks s)[j := ?t'])"
      using tasks_ok_refused [OF tasks(1), of j] tasks_ok_checked [OF tasks(1), of j True] Cons by simp
    show ?thesis
      using sd' t b(1) False inv room Cons by (simp add: task_send_def Let_def sys_log_inv_def sys_room_def)
  next
    case True
    obtain b st where p: "put_item ?i (?i, envl) (sr_stream ?str) = Inr (b, st)" "rs_buffer st = rs_buffer (sr_stream ?str)"
      "rs_closed st = rs_closed (sr_stream ?str)" "rs_drain_complete st = rs_drain_complete (sr_stream ?str)"
      "stream_ok (?str\<lparr>sr_stream := st, sr_accepted := sr_accepted ?str @ (if b then [(?i, envl)] else [])\<rparr>)"
      using put_stream_ok [OF str j(2)] by blast
    let ?str' = "?str\<lparr>sr_stream := st, sr_accepted := sr_accepted ?str @ (if b then [(?i, envl)] else [])\<rparr>"
      and ?t' = "?t\<lparr>tk_left := if b then rest else tk_left ?t, tk_checked := False\<rparr>"
    have mine: "w = j" if "envl = CommitBarrier e w" for e w
    proof -
      have t: "task_sent (map snd (sr_accepted ?str)) ?t" "task_wf j ?t" using tasks(1) j(1) by (simp_all add: tasks_ok_def)
      then obtain k where "drop k (tk_script ?t) = envl # rest" using Cons by (auto simp: task_sent_def split: if_splits)
      then have "envl \<in> set (tk_script ?t)" "task_wf j ?t" using t(2) in_set_dropD [of envl k "tk_script ?t"] by auto
      with that show ?thesis by (auto simp: task_wf_def tk_script_def)
    qed
    have "\<forall>x\<in>set (if b then [(?i, envl)] else []). of_calls (sy_overtaken s) x" if "rs_closed (sr_stream ?str)"
      using that sd True j(1) mine by (auto simp: shutdown_ok_def set_passed_check of_calls_def)
    from late_ok_put [OF str p(5,2) late p(3,4) this] have "late_ok (of_calls (sy_overtaken s)) (fl_stopped (sy_flusher s)) st" .
    then have sd': "shutdown_ok (s\<lparr>sy_stream := ?str', sy_tasks := (sy_tasks s)[j := ?t']\<rparr>)"
      by (intro shutdown_ok_task [OF sd]) (use p in auto)
    have t: "tasks_ok n (sr_accepted ?str') ((sy_tasks s)[j := ?t'])"
      using tasks_ok_accept [OF tasks j(1) Cons] tasks_ok_checked [OF tasks(1), of j False] by simp
    show ?thesis
      using sd' t p(1,5) True inv room Cons by (simp add: task_send_def Let_def sys_log_inv_def sys_room_def)
  qed
qed

lemma flush_batch_stopped: "flush_batch P fl = Inr fl' \<Longrightarrow> fl_stopped fl' = fl_stopped fl"
  by (auto simp: flush_batch_def dedicated_flush_def pipelined_flush_def hand_over_def flush_and_notify_def notify_if_def
      notify_all_def drop_all_def Let_def split: if_splits prod.splits sum.splits sync_mode.splits)

text \<open>Registering, closing and shutting down the stream; the calls past their check are noted when it closes.\<close>

lemma register_keeps_closed: "stream_step St_Register str = Inr str' \<Longrightarrow> rs_closed (sr_stream str') = rs_closed (sr_stream str)"
  by (auto simp: factory_register_def try_bind_Inr_iff split: if_splits)

lemma stream_part_inv:
  assumes inv: "sys_log_inv L P dir n s" "sys_room m s" and op: "op \<in> {St_Register, St_Close_Factory, St_Shutdown}"
    and js: "set (sy_overtaken s) \<subseteq> set js" "op \<noteq> St_Register \<Longrightarrow> set (passed_check s) \<subseteq> set js"
  shows "\<exists>str. stream_step op (sy_stream s) = Inr str \<and>
           sys_log_inv L P dir n (s\<lparr>sy_stream := str, sy_permit := b, sy_draining := d, sy_overtaken := js\<rparr>) \<and>
           sys_room m (s\<lparr>sy_stream := str, sy_permit := b, sy_draining := d, sy_overtaken := js\<rparr>)"
proof -
  let ?st = "sr_stream (sy_stream s)"
  have str: "stream_ok (sy_stream s)" and sd: "shutdown_ok s" using inv(1) by (simp_all add: sys_log_inv_def)
  obtain st where st: "stream_step op (sy_stream s) = Inr ((sy_stream s)\<lparr>sr_stream := st\<rparr>)" "quiet_change ?st st"
    "stream_ok ((sy_stream s)\<lparr>sr_stream := st\<rparr>)"
    using stream_ok_quiet [OF str, of op] op by auto
  have "rs_closed st = rs_closed ?st" if "op = St_Register"
  proof -
    note register_keeps_closed [OF st(1) [unfolded \<open>op = St_Register\<close>]]
    then show ?thesis by simp
  qed
  then have "rs_closed st \<longrightarrow> set (passed_check s) \<subseteq> set js" using js sd by (auto simp: shutdown_ok_def)
  moreover have "late_ok (of_calls js) (fl_stopped (sy_flusher s)) st"
  proof (rule late_ok_mono [OF late_ok_quiet [OF _ st(2)]])
    show "late_ok (of_calls (sy_overtaken s)) (fl_stopped (sy_flusher s)) ?st" using sd by (simp add: shutdown_ok_def)
    show "of_calls js x" if "of_calls (sy_overtaken s) x" for x using that js(1) by (auto simp: of_calls_def)
  qed simp
  moreover have "rs_buffer st = rs_buffer ?st" using st(2) by (simp add: quiet_change_def)
  ultimately have "shutdown_ok (s\<lparr>sy_stream := (sy_stream s)\<lparr>sr_stream := st\<rparr>, sy_permit := b, sy_draining := d, sy_overtaken := js\<rparr>)"
    using sd by (simp add: shutdown_ok_def passed_check_def)
  then show ?thesis using inv st(1,3) by (simp add: sys_log_inv_def sys_room_def)
qed

lemma sys_inv_frame:
  assumes "sys_log_inv L P dir n s" "sys_room m s"
  shows "sys_log_inv L P dir n (s\<lparr>sy_permit := b\<rparr>) \<and> sys_room m (s\<lparr>sy_permit := b\<rparr>)"
  using assms by (simp add: sys_log_inv_def sys_room_def shutdown_ok_def passed_check_def)

lemma sys_room_Suc: "sys_room (Suc m) s \<Longrightarrow> sys_room m s"
  by (simp add: sys_room_def)

context synced_log
begin

lemma flusher_takes_ok:
  assumes P: "syncs_on eng P" "\<forall>e. fe_serialize P e \<noteq> None"
    and fl: "flusher_log_inv L P dir envls fl" "\<not> fl_stopped fl" "fl_drained fl < fe_batch_hint P" and room: "3 + length envls < 2 ^ 64"
  shows "\<exists>fl'. flusher_takes P draining res fl = Inr fl' \<and> (fl_stopped fl' \<longrightarrow> res = Ready None) \<and>
           flusher_log_inv L P dir (envls @ map snd (case res of Ready (Some x) \<Rightarrow> [x] | _ \<Rightarrow> [])) fl'"
proof -
  have ser: "serializable P xs" for xs using P(2) by (auto simp: serializable_def)
  have step: "\<exists>fl'. flusher_step P ev fl = Inr fl' \<and> flusher_log_inv L P dir (envls @ event_envelopes ev) fl'"
    if "flusher_enabled P ev fl" "length (event_envelopes ev) \<le> 1" for ev
    using flusher_step_ok [OF P(1) fl(1) that(1) ser] room that(2) by simp
  consider "res = Pending" | "res = Ready None" | i envl where "res = Ready (Some (i, envl))"
    by (metis old.prod.exhaust option.exhaust poll.exhaust)
  then show ?thesis
  proof cases
    case 1
    then show ?thesis using fl(1,2) by (simp add: flusher_takes_def)
  next
    case 2
    then show ?thesis using step [of Stream_Ended] fl(2,3) by (auto simp: flusher_takes_def)
  next
    case (3 i envl)
    have "\<not> fl_stopped fl'" if "flusher_step P (Received envl) fl = Inr fl'" for fl'
      using that fl(2) flush_batch_stopped by (fastforce simp: Let_def end_batch_def try_bind_Inr_iff split: if_splits)
    then show ?thesis
      using 3 step [of "Received envl"] fl(2,3) collect_envelope_inv [OF fl(1) ser fl(2)]
      by (cases draining) (auto simp: flusher_takes_def)
  qed
qed

lemma flusher_polls_ok:
  assumes P: "syncs_on eng P" "\<forall>e. fe_serialize P e \<noteq> None" and inv: "sys_log_inv L P dir n s" and room: "sys_room (Suc m) s"
    and run: "\<not> fl_stopped (sy_flusher s)" "fl_drained (sy_flusher s) < fe_batch_hint P"
  shows "\<exists>s'. flusher_polls P data_ready ticks s = Inr s' \<and> sys_log_inv L P dir n s' \<and> sys_room m s'"
proof -
  let ?str = "sy_stream s" and ?Q = "of_calls (sy_overtaken s)"
  have sd: "shutdown_ok s" using inv by (simp add: sys_log_inv_def)
  then have "late_ok ?Q False (sr_stream ?str)" using run(1) by (simp add: shutdown_ok_def)
  from poll_stream_ok [OF _ this, of data_ready ticks] obtain res st where
    p: "poll_next data_ready ticks (sr_stream ?str) = Inr (res, st)"
      "stream_ok (?str\<lparr>sr_stream := st, sr_yielded := sr_yielded ?str @ (case res of Ready (Some x) \<Rightarrow> [x] | _ \<Rightarrow> []),
         sr_ended := sr_ended ?str \<or> res = Ready None\<rparr>)"
      "rs_closed st = rs_closed (sr_stream ?str)" "res = Ready None \<longrightarrow> rs_buffer st = []" "late_ok ?Q (res = Ready None) st"
    using inv unfolding sys_log_inv_def by blast
  have "flusher_log_inv L P dir (map snd (sr_yielded ?str)) (sy_flusher s)" "3 + length (map snd (sr_yielded ?str)) < 2 ^ 64"
    using inv room by (simp_all add: sys_log_inv_def sys_room_def)
  from flusher_takes_ok [OF P this(1) run this(2), of "sy_draining s" res] obtain fl' where
    fl: "flusher_takes P (sy_draining s) res (sy_flusher s) = Inr fl'" "fl_stopped fl' \<longrightarrow> res = Ready None"
    "flusher_log_inv L P dir (map snd (sr_yielded ?str) @ map snd (case res of Ready (Some x) \<Rightarrow> [x] | _ \<Rightarrow> [])) fl'" by blast
  have late: "late_ok ?Q (fl_stopped fl') st" using late_ok_mono [OF p(5), of "fl_stopped fl'" ?Q] fl(2) by blast
  have "length (case res of Ready (Some x) \<Rightarrow> [x] | _ \<Rightarrow> []) \<le> 1" by (simp split: poll.split option.split)
  with late p fl inv room sd show ?thesis
    by (simp add: flusher_polls_def Let_def sys_log_inv_def sys_room_def shutdown_ok_def passed_check_def)
qed

lemma sys_step_ok:
  assumes P: "syncs_on eng P" "\<forall>e. fe_serialize P e \<noteq> None" and inv: "sys_log_inv L P dir n s" and room: "sys_room (Suc m) s"
  shows "\<exists>s'. sys_step P a s = Inr s' \<and> sys_log_inv L P dir n s' \<and> sys_room m s'"
proof -
  note room1 = sys_room_Suc [OF room]
  show ?thesis
  proof (cases a)
    case Sys_Register
    then show ?thesis
      using stream_part_inv [OF inv room1, where op = St_Register and js = "sy_overtaken s" and b = "sy_permit s" and d = "sy_draining s"] by auto
  next
    case (Sys_Commit i body ts)
    have "task_wf (length (sy_tasks s)) \<lparr>tk_writer = i, tk_tx = c, tk_data = tx_entries (tx_build c body),
        tk_end = CommitBarrier (Commit (tx_ident (tx_build c body)) ts) (length (sy_tasks s)), tk_left = l, tk_checked = False, tk_refused = False\<rparr>" for c l
    proof -
      have "tx_id (op_entry c op) = c \<and> \<not> is_marker (op_entry c op)" for op :: "('a, 'b) tx_op"
        by (cases op) (simp_all add: is_marker_def)
      then show ?thesis using tx_build_spec [of c body] by (auto simp: task_wf_def)
    qed
    then show ?thesis
      using Sys_Commit start_task_inv [OF inv room, where i = i and ops = body
          and sends = "\<lambda>t. (tx_entries t, CommitBarrier (Commit (tx_ident t) ts) (length (sy_tasks s)))"] by simp
  next
    case (Sys_Abort i body ts)
    have "task_wf (length (sy_tasks s)) \<lparr>tk_writer = i, tk_tx = c, tk_data = [],
        tk_end = Entry (Abort (tx_ident (tx_build c body)) ts) :: ('a, 'b) envelope, tk_left = l, tk_checked = False, tk_refused = False\<rparr>" for c l
      using tx_build_spec [of c body] by (auto simp: task_wf_def)
    then show ?thesis
      using Sys_Abort start_task_inv [OF inv room, where i = i and ops = body and sends = "\<lambda>t. ([], Entry (Abort (tx_ident t) ts))"]
      by simp
  next
    case (Sys_Send j)
    then show ?thesis using task_send_inv [OF inv room1] inv room1 by simp
  next
    case (Sys_Poll d t)
    then show ?thesis using flusher_polls_ok [OF P inv room] inv room1 by simp
  next
    case Sys_Timeout
    let ?fl = "sy_flusher s"
    show ?thesis
    proof (cases "\<not> sy_draining s \<and> flusher_enabled P Timed_Out ?fl")
      case True
      have i: "flusher_log_inv L P dir (map snd (sr_yielded (sy_stream s))) ?fl" using inv by (simp add: sys_log_inv_def)
      have "serializable P (event_envelopes (Timed_Out :: ('a, 'b) flusher_event))" by simp
      moreover have "2 + length (map snd (sr_yielded (sy_stream s)) @ event_envelopes (Timed_Out :: ('a, 'b) flusher_event)) < 2 ^ 64"
        using room by (simp add: sys_room_def)
      ultimately obtain fl where fl: "flusher_step P Timed_Out ?fl = Inr fl" "flusher_log_inv L P dir (map snd (sr_yielded (sy_stream s))) fl"
        using flusher_step_ok [OF P(1) i conjunct2 [OF True]] by auto
      have stop: "\<not> fl_stopped fl" "\<not> fl_stopped ?fl" using fl(1) True by (auto simp: end_batch_def try_bind_Inr_iff dest: flush_batch_stopped)
      then have "shutdown_ok (s\<lparr>sy_flusher := fl\<rparr>)" using inv by (simp add: sys_log_inv_def shutdown_ok_def passed_check_def)
      then show ?thesis using True fl inv room1 Sys_Timeout by (simp add: sys_log_inv_def sys_room_def)
    qed (use inv room1 Sys_Timeout in auto)
  next
    case Sys_Shutdown
    then show ?thesis using sys_inv_frame [OF inv room1] by simp
  next
    case Sys_Shutdown_Seen
    then show ?thesis
      using stream_part_inv [OF inv room1, where op = St_Shutdown and js = "sy_overtaken s @ passed_check s"
          and b = False and d = True] inv room1 by auto
  next
    case Sys_Close
    then show ?thesis
      using stream_part_inv [OF inv room1, where op = St_Close_Factory and js = "sy_overtaken s @ passed_check s"
          and b = "sy_permit s" and d = "sy_draining s"]
      by auto
  qed
qed

end

text \<open>The calls of a run, in the order of their tasks.\<close>

fun is_tx_call :: "('k, 'v) sys_act \<Rightarrow> bool" where
  "is_tx_call (Sys_Commit i ops ts) = True"
| "is_tx_call (Sys_Abort i ops ts) = True"
| "is_tx_call a = False"

definition tx_calls :: "('k, 'v) sys_act list \<Rightarrow> ('k, 'v) sys_act list" where
  "tx_calls acts = filter is_tx_call acts"

text \<open>Task \<open>j\<close> is that of call \<open>a\<close>.\<close>

fun task_of :: "('k, 'v) sys_act \<Rightarrow> nat \<Rightarrow> ('k, 'v) commit_task \<Rightarrow> bool" where
  "task_of (Sys_Commit i ops ts) j t =
     (tk_data t = map (op_entry (tk_tx t)) ops \<and> tk_end t = CommitBarrier (Commit (tk_tx t) ts) j)"
| "task_of (Sys_Abort i ops ts) j t = (tk_data t = [] \<and> tk_end t = Entry (Abort (tk_tx t) ts))"
| "task_of a j t = False"

definition tasks_of :: "('k, 'v) sys_act list \<Rightarrow> ('k, 'v) commit_task list \<Rightarrow> bool" where
  "tasks_of calls tks \<longleftrightarrow> length tks = length calls \<and> (\<forall>j<length tks. task_of (calls ! j) j (tks ! j))"

lemma task_of_update [simp]: "task_of a j (t\<lparr>tk_left := l\<rparr>) = task_of a j t" "task_of a j (t\<lparr>tk_refused := b\<rparr>) = task_of a j t"
  "task_of a j (t\<lparr>tk_checked := b\<rparr>) = task_of a j t"
  by (cases a; simp)+

lemma tasks_of_snoc: "tasks_of calls tks \<Longrightarrow> task_of a (length tks) t \<Longrightarrow> tasks_of (calls @ [a]) (tks @ [t])"
  by (auto simp: tasks_of_def nth_append less_Suc_eq)

lemma tasks_of_update:
  "tasks_of calls tks \<Longrightarrow> (\<And>a. task_of a j t = task_of a j (tks ! j)) \<Longrightarrow> tasks_of calls (tks[j := t])"
  by (cases "j < length tks") (auto simp: tasks_of_def nth_list_update)

lemma tx_calls_Cons: "tx_calls (a # acts) = tx_calls [a] @ tx_calls acts" "tx_calls [] = []"
  by (simp_all add: tx_calls_def)

lemma task_send_tasks:
  assumes "task_send j s = Inr s'" "tasks_of calls (sy_tasks s)"
  shows "tasks_of calls (sy_tasks s')"
proof (cases "tk_left (sy_tasks s ! j)")
  case Nil
  then show ?thesis using assms by (simp add: task_send_def Let_def)
next
  case (Cons envl rest)
  with assms tasks_of_update [OF assms(2), of j] show ?thesis
    by (auto simp: task_send_def Let_def try_bind_Inr_iff split: if_splits)
qed

lemma sys_step_tasks:
  assumes "sys_step P a s = Inr s'" "tasks_of calls (sy_tasks s)"
  shows "tasks_of (calls @ tx_calls [a]) (sy_tasks s')"
proof (cases a)
  case (Sys_Commit i body ts)
  with assms tx_build_spec [of "sy_next_tx s" body] show ?thesis
    by (auto simp: tx_calls_def start_task_def Let_def intro!: tasks_of_snoc)
next
  case (Sys_Abort i body ts)
  with assms tx_build_spec [of "sy_next_tx s" body] show ?thesis
    by (auto simp: tx_calls_def start_task_def Let_def intro!: tasks_of_snoc)
next
  case (Sys_Send j)
  with assms task_send_tasks [of j s s' calls] show ?thesis by (auto simp: tx_calls_def split: if_splits)
qed (use assms in \<open>auto simp: tx_calls_def flusher_polls_def Let_def try_bind_Inr_iff split: if_splits\<close>)

context synced_log
begin

lemma sys_run_ok:
  assumes P: "syncs_on eng P" "\<forall>e. fe_serialize P e \<noteq> None"
    and "sys_log_inv L P dir n s" "sys_room (length acts) s" "tasks_of calls (sy_tasks s)"
  shows "\<exists>s'. sys_run P acts s = Inr s' \<and> sys_log_inv L P dir n s' \<and> sys_room 0 s' \<and> tasks_of (calls @ tx_calls acts) (sy_tasks s')"
  using assms(3-)
proof (induction acts arbitrary: s calls)
  case Nil
  then show ?case by (simp add: tx_calls_Cons)
next
  case (Cons a acts)
  obtain s1 where s1: "sys_step P a s = Inr s1" "sys_log_inv L P dir n s1" "sys_room (length acts) s1"
    using sys_step_ok [OF P Cons.prems(1), of "length acts" a] Cons.prems(2) by auto
  from Cons.IH [OF s1(2,3) sys_step_tasks [OF s1(1) Cons.prems(3)]] obtain s' where
    "sys_run P acts s1 = Inr s'" "sys_log_inv L P dir n s'" "sys_room 0 s'" "tasks_of ((calls @ tx_calls [a]) @ tx_calls acts) (sy_tasks s')"
    by blast
  with s1(1) show ?case by (simp add: tx_calls_Cons(1) [of a acts])
qed

end

section \<open>What the log holds of a transaction\<close>

lemma filter_marker_of_tx:
  "filter (\<lambda>e. tx_id e = c \<and> is_marker e) (map envelope_entry envls) = filter is_marker (map envelope_entry (of_tx c envls))"
  "filter (\<lambda>e. tx_id e = c \<and> \<not> is_marker e) (map envelope_entry envls) = filter (\<lambda>e. \<not> is_marker e) (map envelope_entry (of_tx c envls))"
  by (induction envls) (auto simp: of_tx_def)

text \<open>The whole script decides the transaction; a proper prefix leaves it incomplete.\<close>

lemma task_outcome:
  assumes wf: "task_wf j t" and pre: "prefix (of_tx (tk_tx t) envls) (tk_script t)"
  defines "es \<equiv> map envelope_entry envls"
  shows "of_tx (tk_tx t) envls = tk_script t \<and>
           outcome es (tk_tx t) = (if is_commit (envelope_entry (tk_end t)) then Act_Commit else Act_Rollback) \<and>
           data_of es (tk_tx t) = tk_data t \<or>
         prefix (of_tx (tk_tx t) envls) (map Entry (tk_data t)) \<and> outcome es (tk_tx t) = Act_Incomplete \<and>
           prefix (data_of es (tk_tx t)) (tk_data t)"
proof -
  have data: "filter is_marker (tk_data t) = []" "filter (\<lambda>e. \<not> is_marker e) (tk_data t) = tk_data t"
    using wf by (auto simp: task_wf_def filter_empty_conv filter_id_conv)
  have fin: "is_marker (envelope_entry (tk_end t))" using wf by (auto simp: task_wf_def is_marker_def)
  have o: "outcome es c = (case rev (filter is_marker (map envelope_entry (of_tx c envls))) of [] \<Rightarrow> Act_Incomplete
      | e # _ \<Rightarrow> if is_commit e then Act_Commit else Act_Rollback)"
    and d: "data_of es c = filter (\<lambda>e. \<not> is_marker e) (map envelope_entry (of_tx c envls))" for c
    unfolding es_def outcome_def data_of_def filter_marker_of_tx by simp_all
  have m: "map envelope_entry (map Entry ds) = ds" for ds :: "('a, 'b) wal_entry list" by (simp add: o_def)
  from pre consider "of_tx (tk_tx t) envls = map Entry (tk_data t) @ [tk_end t]" | "prefix (of_tx (tk_tx t) envls) (map Entry (tk_data t))"
    by (auto simp: tk_script_def)
  then show ?thesis
  proof cases
    case 1
    then show ?thesis using data fin unfolding o d 1 by (simp add: tk_script_def o_def)
  next
    case 2
    then obtain k where k: "of_tx (tk_tx t) envls = map Entry (take k (tk_data t))" by (metis prefix_def take_map append_eq_conv_conj)
    have "\<forall>e\<in>set (take k (tk_data t)). \<not> is_marker e" using wf by (auto simp: task_wf_def dest: in_set_takeD)
    then have "filter is_marker (take k (tk_data t)) = []" "filter (\<lambda>e. \<not> is_marker e) (take k (tk_data t)) = take k (tk_data t)"
      by (auto simp: filter_empty_conv filter_id_conv)
    then show ?thesis using 2 unfolding o d k m by (simp add: take_is_prefix)
  qed
qed

text \<open>The receiver keeps the order of each writer, so it yields the script of a task in order.\<close>

lemma yielded_prefix:
  fixes s :: "('k, 'v, 'fs) wal_system"
  assumes inv: "sys_log_inv L P dir n s" and room: "sys_room 0 s" and j: "j < length (sy_tasks s)"
    and pre: "prefix envls (map snd (sr_yielded (sy_stream s)))"
  shows "prefix (of_tx (tk_tx (sy_tasks s ! j)) envls) (tk_script (sy_tasks s ! j))"
proof -
  let ?t = "sy_tasks s ! j" and ?y = "sr_yielded (sy_stream s)" and ?a = "sr_accepted (sy_stream s)"
  let ?p = "unat (tk_writer ?t)" and ?mine = "\<lambda>x :: usize \<times> ('k, 'v) envelope. tx_id (envelope_entry (snd x)) = tk_tx ?t"
  have tasks: "tasks_ok n ?a (sy_tasks s)" "length (sy_tasks s) \<le> 2 ^ 64" using inv room by (simp_all add: sys_log_inv_def sys_room_def)
  have bal: "prefix (of_producer i ?y) (of_producer i ?a)" for i
    using stream_ok_balance [of "sy_stream s" i] inv by (auto simp: sys_log_inv_def intro: prefixI [OF sym])
  have sub: "x \<in> set ?a" if "x \<in> set ?y" for x
    using that set_mono_prefix [OF bal [of "unat (fst x)"]] by (auto simp: of_producer_def)
  have tag: "unat (fst x) = ?p" if "x \<in> set ?a" "?mine x" for x using accepted_of_task [OF tasks that(1) j that(2)] by simp
  have own: "filter ?mine xs = filter ?mine (of_producer ?p xs)" if "set xs \<subseteq> set ?a" for xs
    using that tag by (auto simp: of_producer_def intro!: filter_cong)
  have tx: "of_tx (tk_tx ?t) (map snd xs) = map snd (filter ?mine xs)" for xs :: "(usize \<times> ('k, 'v) envelope) list"
    by (simp add: of_tx_def filter_map o_def)
  have "filter ?mine ?y = filter ?mine (of_producer ?p ?y)" "filter ?mine ?a = filter ?mine (of_producer ?p ?a)"
    using sub by (auto intro!: own)
  moreover obtain zs where "of_producer ?p ?a = of_producer ?p ?y @ zs" using bal [of ?p] by (auto simp: prefix_def)
  ultimately have "prefix (filter ?mine ?y) (filter ?mine ?a)" by simp
  then have "prefix (of_tx (tk_tx ?t) (map snd ?y)) (of_tx (tk_tx ?t) (map snd ?a))" unfolding tx by (rule map_mono_prefix)
  moreover obtain k where "of_tx (tk_tx ?t) (map snd ?a) = take k (tk_script ?t)"
    using tasks(1) j by (auto simp: tasks_ok_def task_sent_def)
  moreover have "prefix (of_tx (tk_tx ?t) envls) (of_tx (tk_tx ?t) (map snd ?y))" using pre by (auto simp: prefix_def)
  ultimately show ?thesis by (metis prefix_order.trans take_is_prefix)
qed

lemma yielded_accepted:
  assumes "stream_ok str" "envl \<in> set (map snd (sr_yielded str))"
  shows "envl \<in> snd ` set (sr_accepted str)"
proof -
  obtain i where "(i, envl) \<in> set (sr_yielded str)" using assms(2) by auto
  then have "(i, envl) \<in> set (of_producer (unat i) (sr_accepted str))"
    unfolding stream_ok_balance [OF assms(1), symmetric] by (simp add: of_producer_def)
  then show ?thesis by (force simp: of_producer_def)
qed

text \<open>A barrier is the end of the task it is numbered after.\<close>

lemma barrier_of_task:
  assumes "tasks_ok n acc tks" "CommitBarrier e w \<in> snd ` set acc"
  shows "w < length tks \<and> tk_end (tks ! w) = CommitBarrier e w"
proof -
  obtain i where i: "i < length tks" "CommitBarrier e w \<in> set (tk_script (tks ! i))" "task_wf i (tks ! i)"
    using assms by (fastforce simp: tasks_ok_def)
  then have "tk_end (tks ! i) = CommitBarrier e w" by (auto simp: tk_script_def)
  with i show ?thesis by (auto simp: task_wf_def)
qed

lemma waiters_of_set: "w \<in> set (waiters_of envls) \<longleftrightarrow> (\<exists>e. CommitBarrier e w \<in> set envls)"
proof
  assume "w \<in> set (waiters_of envls)"
  then obtain envl where "envl \<in> set envls" "w \<in> set (envelope_waiter envl)" by (auto simp: waiters_of_def)
  then show "\<exists>e. CommitBarrier e w \<in> set envls" by (cases envl rule: envelope.exhaust) auto
qed (force simp: waiters_of_def)

text \<open>What recovery may answer about a call with id \<open>c\<close>.\<close>

fun call_outcome :: "('k, 'v) sys_act \<Rightarrow> u64 \<Rightarrow> ('k, 'v) wal_entry recovered_transaction \<Rightarrow> bool" where
  "call_outcome (Sys_Commit i ops ts) c r =
     (rt_tx_id r = c \<and>
      (rt_action r = Act_Commit \<and> rt_entries r = map (op_entry c) ops \<or>
       rt_action r = Act_Incomplete \<and> prefix (rt_entries r) (map (op_entry c) ops)))"
| "call_outcome (Sys_Abort i ops ts) c r = (rt_tx_id r = c \<and> rt_action r = Act_Rollback \<and> rt_entries r = [])"
| "call_outcome a c r = False"

lemma task_call_outcome:
  assumes t: "task_of a j t" "task_wf j t" "prefix (of_tx (tk_tx t) envls) (tk_script t)" "of_tx (tk_tx t) envls \<noteq> []"
    and r: "rt_tx_id r = tk_tx t" "rt_action r = outcome (map envelope_entry envls) (tk_tx t)"
      "rt_entries r = data_of (map envelope_entry envls) (tk_tx t)"
  shows "call_outcome a (tk_tx t) r \<and>
         (rt_action r = Act_Commit \<longleftrightarrow> tk_end t \<in> set envls \<and> is_commit (envelope_entry (tk_end t)))"
proof -
  note o = task_outcome [OF t(2,3)]
  have mine: "tx_id (envelope_entry (tk_end t)) = tk_tx t" using script_tx [OF t(2)] by (simp add: tk_script_def)
  then have mem: "tk_end t \<in> set envls \<longleftrightarrow> tk_end t \<in> set (of_tx (tk_tx t) envls)" by (simp add: of_tx_def)
  have "\<not> tk_end t \<in> set (map Entry (tk_data t))" using t(2) by (auto simp: task_wf_def is_marker_def)
  then have "tk_end t \<notin> set (of_tx (tk_tx t) envls)" if "prefix (of_tx (tk_tx t) envls) (map Entry (tk_data t))"
    using set_mono_prefix [OF that] by blast
  moreover have "tk_end t \<in> set (of_tx (tk_tx t) envls)" if "of_tx (tk_tx t) envls = tk_script t"
    using that by (simp add: tk_script_def)
  moreover have "call_outcome a (tk_tx t) r" using o t(1,4) r by (cases a) auto
  ultimately show ?thesis using o r(2) mem by (auto split: if_splits)
qed

section \<open>End to end\<close>

text \<open>The crash and the recovery, from the invariant.\<close>

context recoverable_log
begin

lemma sys_flushed:
  assumes inv: "sys_log_inv L P dir n s" "sys_room 0 s" and calls: "tasks_of calls (sy_tasks s)" and ho: "hash_set_order ho"
    and codec: "\<forall>e. \<exists>d. fe_serialize P e = Some d \<and> deser d = Some e"
    and small: "length (frames (fe_crc P) (data_bytes P (map snd (sr_yielded (sy_stream s))))) < 2 ^ 64"
  obtains flushed rs st reset where "fl_notified (sy_flusher s) = waiters_of flushed"
    "fst (recover (fe_crc P) deser ho eng dir (crash (fl_fs (sy_flusher s)))) = Inr (rs, st, reset)"
    "set (map rt_tx_id rs) = set (map tx_id (map envelope_entry flushed))"
    "\<forall>r\<in>set rs. rt_action r = outcome (map envelope_entry flushed) (rt_tx_id r) \<and>
       rt_entries r = data_of (map envelope_entry flushed) (rt_tx_id r)"
    "\<And>envl. envl \<in> set flushed \<Longrightarrow> envl \<in> snd ` set (sr_accepted (sy_stream s))"
    "\<And>j. j < length (sy_tasks s) \<Longrightarrow> prefix (of_tx (tk_tx (sy_tasks s ! j)) flushed) (tk_script (sy_tasks s ! j))"
proof -
  let ?y = "sr_yielded (sy_stream s)"
  have fl: "flusher_log_inv L P dir (map snd ?y) (sy_flusher s)" and str: "stream_ok (sy_stream s)"
    using inv(1) by (simp_all add: sys_log_inv_def)
  from flusher_crash_recover [OF fl ho _ small] codec obtain flushed cur rs st reset where
    f: "map snd ?y = flushed @ cur" "fl_notified (sy_flusher s) = waiters_of flushed"
    and rec: "fst (recover (fe_crc P) deser ho eng dir (crash (fl_fs (sy_flusher s)))) = Inr (rs, st, reset)"
    and rs: "set (map rt_tx_id rs) = set (map tx_id (map envelope_entry flushed))"
      "\<forall>r\<in>set rs. rt_action r = outcome (map envelope_entry flushed) (rt_tx_id r) \<and>
         rt_entries r = data_of (map envelope_entry flushed) (rt_tx_id r)"
    by blast
  have "envl \<in> snd ` set (sr_accepted (sy_stream s))" if "envl \<in> set flushed" for envl
    using that f(1) by (intro yielded_accepted [OF str]) simp
  moreover have "prefix (of_tx (tk_tx (sy_tasks s ! j)) flushed) (tk_script (sy_tasks s ! j))" if "j < length (sy_tasks s)" for j
    using yielded_prefix [OF inv that] f(1) by simp
  ultimately show thesis using that f(2) rec rs by blast
qed

text \<open>
  Every recovered transaction is a call, with the outcome its log entries give; it is committed exactly
  when its waiter was notified.
\<close>

lemma sys_crash_recover:
  assumes inv: "sys_log_inv L P dir n s" "sys_room 0 s" and calls: "tasks_of calls (sy_tasks s)" and ho: "hash_set_order ho"
    and codec: "\<forall>e. \<exists>d. fe_serialize P e = Some d \<and> deser d = Some e"
    and small: "length (frames (fe_crc P) (data_bytes P (map snd (sr_yielded (sy_stream s))))) < 2 ^ 64"
  shows "\<exists>rs st reset. fst (recover (fe_crc P) deser ho eng dir (crash (fl_fs (sy_flusher s)))) = Inr (rs, st, reset) \<and>
           (\<forall>j\<in>set (fl_notified (sy_flusher s)). \<exists>r\<in>set rs. rt_tx_id r = n + of_nat j) \<and>
           (\<forall>r\<in>set rs. \<exists>j<length calls. call_outcome (calls ! j) (n + of_nat j) r \<and>
              (rt_action r = Act_Commit \<longleftrightarrow> j \<in> set (fl_notified (sy_flusher s))))"
proof -
  let ?tks = "sy_tasks s"
  have tasks: "tasks_ok n (sr_accepted (sy_stream s)) ?tks" using inv(1) by (simp add: sys_log_inv_def)
  obtain flushed rs st reset where f: "fl_notified (sy_flusher s) = waiters_of flushed"
    and rec: "fst (recover (fe_crc P) deser ho eng dir (crash (fl_fs (sy_flusher s)))) = Inr (rs, st, reset)"
    and rs: "set (map rt_tx_id rs) = set (map tx_id (map envelope_entry flushed))"
      "\<forall>r\<in>set rs. rt_action r = outcome (map envelope_entry flushed) (rt_tx_id r) \<and>
         rt_entries r = data_of (map envelope_entry flushed) (rt_tx_id r)"
    and sub: "\<And>envl. envl \<in> set flushed \<Longrightarrow> envl \<in> snd ` set (sr_accepted (sy_stream s))"
    and pre: "\<And>j. j < length ?tks \<Longrightarrow> prefix (of_tx (tk_tx (?tks ! j)) flushed) (tk_script (?tks ! j))"
    using sys_flushed [OF assms] by blast
  have task: "tk_tx (?tks ! j) = n + of_nat j" "task_wf j (?tks ! j)" "task_of (calls ! j) j (?tks ! j)" "j < length calls"
    if "j < length ?tks" for j using tasks calls that by (auto simp: tasks_ok_def tasks_of_def)
  have "\<exists>r\<in>set rs. rt_tx_id r = n + of_nat j" if w: "j \<in> set (fl_notified (sy_flusher s))" for j
  proof -
    obtain e where e: "CommitBarrier e j \<in> set flushed" using w f waiters_of_set by metis
    then have j: "j < length ?tks" "tk_end (?tks ! j) = CommitBarrier e j" using barrier_of_task [OF tasks sub] by auto
    then have "tx_id e = n + of_nat j" using task(1,2) [OF j(1)] by (auto simp: task_wf_def)
    moreover have "tx_id e \<in> set (map rt_tx_id rs)" unfolding rs(1) using e by force
    ultimately show ?thesis by auto
  qed
  moreover have "\<exists>j<length calls. call_outcome (calls ! j) (n + of_nat j) r \<and> (rt_action r = Act_Commit \<longleftrightarrow> j \<in> set (fl_notified (sy_flusher s)))"
    if r: "r \<in> set rs" for r
  proof -
    have "rt_tx_id r \<in> set (map tx_id (map envelope_entry flushed))" using r rs(1) by force
    then obtain envl where envl: "envl \<in> set flushed" "tx_id (envelope_entry envl) = rt_tx_id r" by auto
    obtain j where j: "j < length ?tks" "envl \<in> set (tk_script (?tks ! j))" using sub [OF envl(1)] tasks by (auto simp: tasks_ok_def)
    have tx: "rt_tx_id r = tk_tx (?tks ! j)" using script_tx [OF task(2) [OF j(1)] j(2)] envl(2) by simp
    have "of_tx (tk_tx (?tks ! j)) flushed \<noteq> []" using envl tx by (auto simp: of_tx_def filter_empty_conv)
    note o = task_call_outcome [OF task(3,2) [OF j(1)] pre [OF j(1)] this, of r]
    have "j \<in> set (waiters_of flushed) \<longleftrightarrow> tk_end (?tks ! j) \<in> set flushed \<and> is_commit (envelope_entry (tk_end (?tks ! j)))"
      using barrier_of_task [OF tasks sub] task(2) [OF j(1)] by (fastforce simp: waiters_of_set task_wf_def)
    with o tx r rs(2) f task(1,4) [OF j(1)] show ?thesis by metis
  qed
  ultimately show ?thesis using rec by blast
qed

end

lemma call_outcome_id: "call_outcome a c r \<Longrightarrow> rt_tx_id r = c"
  by (cases a) auto

lemma same_call_id:
  assumes "sys_room 0 s" "tasks_of calls (sy_tasks s)" "i < length calls" "j < length calls" "n + of_nat i = (n + of_nat j :: u64)"
  shows "i = j"
proof -
  have "i < 2 ^ 64" "j < 2 ^ 64" using assms(1-4) by (auto simp: sys_room_def tasks_of_def)
  moreover have "unat (of_nat i :: u64) = unat (of_nat j :: u64)" using assms(5) by simp
  ultimately show ?thesis by (simp add: unat_of_nat)
qed

lemma notified_accepted:
  assumes inv: "sys_log_inv L P dir n s" and j: "j \<in> set (fl_notified (sy_flusher s))"
  shows "\<exists>e. CommitBarrier e j \<in> snd ` set (sr_accepted (sy_stream s))"
proof -
  let ?y = "sr_yielded (sy_stream s)"
  have fl: "flusher_log_inv L P dir (map snd ?y) (sy_flusher s)" and str: "stream_ok (sy_stream s)" using inv by (simp_all add: sys_log_inv_def)
  obtain flushed cur where f: "map snd ?y = flushed @ cur" "fl_notified (sy_flusher s) = waiters_of flushed"
    using fl by (rule flusher_invE)
  then obtain e where "CommitBarrier e j \<in> set (map snd ?y)" using j waiters_of_set by (metis UnCI set_append)
  from yielded_accepted [OF str this] show ?thesis by blast
qed

lemma notified_is_call:
  assumes "sys_log_inv L P dir n s" "tasks_of calls (sy_tasks s)" "j \<in> set (fl_notified (sy_flusher s))"
  shows "j < length calls"
proof -
  have tasks: "tasks_ok n (sr_accepted (sy_stream s)) (sy_tasks s)" using assms(1) by (simp add: sys_log_inv_def)
  obtain e where "CommitBarrier e j \<in> snd ` set (sr_accepted (sy_stream s))" using notified_accepted [OF assms(1,3)] by blast
  from barrier_of_task [OF tasks this] assms(2) show ?thesis by (simp add: tasks_of_def)
qed

text \<open>A flusher that has stopped owes no acknowledgement, except to a call it overtook.\<close>

lemma sys_stopped_notified:
  assumes "sys_log_inv L P dir n s" "fl_stopped (sy_flusher s)" "CommitBarrier e j \<in> snd ` set (sr_accepted (sy_stream s))"
  shows "j \<in> set (fl_notified (sy_flusher s)) \<or> j \<in> set (sy_overtaken s)"
proof -
  let ?y = "sr_yielded (sy_stream s)" and ?a = "sr_accepted (sy_stream s)" and ?st = "sr_stream (sy_stream s)"
  have ok: "stream_ok (sy_stream s)" "shutdown_ok s" using assms(1) by (simp_all add: sys_log_inv_def)
  obtain i where i: "(i, CommitBarrier e j) \<in> set ?a" using assms(3) by auto
  then have "(i, CommitBarrier e j) \<in> set (of_producer (unat i) ?a)" by (simp add: of_producer_def)
  moreover have "rs_buffer ?st = []" using ok(2) assms(2) by (simp add: shutdown_ok_def)
  then have "of_producer (unat i) (rs_buffer ?st) = []" by (simp add: of_producer_def)
  ultimately have "(i, CommitBarrier e j) \<in> set (of_producer (unat i) ?y @ ring_items (rs_channel ?st) (unat i))"
    using stream_ok_balance [OF ok(1), of "unat i"] by simp
  then consider "(i, CommitBarrier e j) \<in> set (of_producer (unat i) ?y)" | "(i, CommitBarrier e j) \<in> set (ring_items (rs_channel ?st) (unat i))"
    by auto
  then show ?thesis
  proof cases
    case 1
    then have "CommitBarrier e j \<in> set (map snd ?y)" by (force simp: of_producer_def)
    moreover obtain flushed cur where "map snd ?y = flushed @ cur" "map snd (fl_batch (sy_flusher s)) = data_bytes P cur"
      "fl_notified (sy_flusher s) = waiters_of flushed" "fl_stopped (sy_flusher s) \<longrightarrow> fl_batch (sy_flusher s) = []"
      using assms(1) unfolding sys_log_inv_def by (auto elim: flusher_invE)
    ultimately show ?thesis using assms(2) waiters_of_set by (auto simp: data_bytes_def)
  next
    case 2
    with ok(2) assms(2) have "of_calls (sy_overtaken s) (i, CommitBarrier e j)" by (auto simp: shutdown_ok_def late_ok_def)
    then show ?thesis by (simp add: of_calls_def)
  qed
qed

context recoverable_log
begin

text \<open>The whole run, from an open log whose invariant holds.\<close>

lemma run_survives:
  assumes P: "syncs_on eng P" "\<forall>e. fe_serialize P e \<noteq> None" and ho: "hash_set_order ho"
    and codec: "\<forall>e. \<exists>d. fe_serialize P e = Some d \<and> deser d = Some e"
    and s0: "sys_log_inv L P dir n s0" "sy_tasks s0 = []" "sr_yielded (sy_stream s0) = []" and len: "length acts + 2 < 2 ^ 64"
  shows "\<exists>s. sys_run P acts s0 = Inr s \<and>
     (length (frames (fe_crc P) (data_bytes P (map snd (sr_yielded (sy_stream s))))) < 2 ^ 64 \<longrightarrow>
      (\<exists>rs st reset. fst (recover (fe_crc P) deser ho eng dir (crash (fl_fs (sy_flusher s)))) = Inr (rs, st, reset) \<and>
         (\<forall>j\<in>set (fl_notified (sy_flusher s)). j < length (tx_calls acts) \<and>
            (\<exists>i body ts. tx_calls acts ! j = Sys_Commit i body ts \<and>
               (\<exists>r\<in>set rs. rt_tx_id r = n + of_nat j \<and> rt_action r = Act_Commit \<and> rt_entries r = map (op_entry (n + of_nat j)) body))) \<and>
         (\<forall>r\<in>set rs. \<exists>j<length (tx_calls acts). call_outcome (tx_calls acts ! j) (n + of_nat j) r))) \<and>
     (fl_stopped (sy_flusher s) \<longrightarrow>
      (\<forall>e j. CommitBarrier e j \<in> snd ` set (sr_accepted (sy_stream s)) \<longrightarrow>
         j \<in> set (fl_notified (sy_flusher s)) \<or> j \<in> set (sy_overtaken s)))"
proof -
  have "sys_room (length acts) s0" "tasks_of [] (sy_tasks s0)" using len s0(2,3) by (simp_all add: sys_room_def tasks_of_def)
  from sys_run_ok [OF P s0(1) this] obtain s where
    s: "sys_run P acts s0 = Inr s" "sys_log_inv L P dir n s" "sys_room 0 s" "tasks_of (tx_calls acts) (sy_tasks s)" by auto
  have "\<exists>rs st reset. fst (recover (fe_crc P) deser ho eng dir (crash (fl_fs (sy_flusher s)))) = Inr (rs, st, reset) \<and>
      (\<forall>j\<in>set (fl_notified (sy_flusher s)). j < length (tx_calls acts) \<and>
         (\<exists>i body ts. tx_calls acts ! j = Sys_Commit i body ts \<and>
            (\<exists>r\<in>set rs. rt_tx_id r = n + of_nat j \<and> rt_action r = Act_Commit \<and> rt_entries r = map (op_entry (n + of_nat j)) body))) \<and>
      (\<forall>r\<in>set rs. \<exists>j<length (tx_calls acts). call_outcome (tx_calls acts ! j) (n + of_nat j) r)"
    if small: "length (frames (fe_crc P) (data_bytes P (map snd (sr_yielded (sy_stream s))))) < 2 ^ 64"
  proof -
    obtain rs st reset where rec: "fst (recover (fe_crc P) deser ho eng dir (crash (fl_fs (sy_flusher s)))) = Inr (rs, st, reset)"
      and ack: "\<forall>j\<in>set (fl_notified (sy_flusher s)). \<exists>r\<in>set rs. rt_tx_id r = n + of_nat j"
      and out: "\<forall>r\<in>set rs. \<exists>j<length (tx_calls acts). call_outcome (tx_calls acts ! j) (n + of_nat j) r \<and>
        (rt_action r = Act_Commit \<longleftrightarrow> j \<in> set (fl_notified (sy_flusher s)))"
      using sys_crash_recover [OF s(2-4) ho codec] small by blast
    have "\<exists>i body ts. tx_calls acts ! j = Sys_Commit i body ts \<and>
        (\<exists>r\<in>set rs. rt_tx_id r = n + of_nat j \<and> rt_action r = Act_Commit \<and> rt_entries r = map (op_entry (n + of_nat j)) body)"
      if j: "j \<in> set (fl_notified (sy_flusher s))" "j < length (tx_calls acts)" for j
    proof -
      obtain r where r: "r \<in> set rs" "rt_tx_id r = n + of_nat j" using ack j(1) by blast
      then obtain i where i: "i < length (tx_calls acts)" "call_outcome (tx_calls acts ! i) (n + of_nat i) r"
        "rt_action r = Act_Commit \<longleftrightarrow> i \<in> set (fl_notified (sy_flusher s))" using out by blast
      have "i = j" using i(1,2) r(2) j(2) call_outcome_id same_call_id [OF s(3,4) i(1) j(2)] by metis
      with i j(1) r show ?thesis by (cases "tx_calls acts ! j") auto
    qed
    then show ?thesis using rec out notified_is_call [OF s(2,4)] by blast
  qed
  with s(1) sys_stopped_notified [OF s(2)] show ?thesis by blast
qed

end

lemma sys_open_start:
  assumes "config_new (wc_ring_bits c) (wc_max_writers c) (wc_enable_metrics c) = Inr rc"
    and "manager_open eng (wc_dir c) (wc_max_segment_size c) (wc_direct_io c) fs0 = (Inr sm, fs)"
    and "flusher_log_inv L P (wc_dir c) [] (flusher_start sm fs)"
  shows "\<exists>s. sys_open eng c n fs0 = Inr (Inr s, fs) \<and> sys_log_inv L P (wc_dir c) n s \<and>
           sy_tasks s = [] \<and> sr_yielded (sy_stream s) = []"
proof -
  note str = run_ok_stream_ok [OF stream_start_ok [OF config_new_valid [OF assms(1)]], unfolded stream_start_def]
  show ?thesis
    using assms
    by (simp add: sys_open_def Let_def sys_log_inv_def tasks_ok_def shutdown_ok_def late_ok_def passed_check_def
        flusher_start_def stream_start_def str)
      (simp add: channel_with_stream_config_def)
qed

lemma sys_open_inv:
  assumes "wc_dir c \<noteq> []" "config_new (wc_ring_bits c) (wc_max_writers c) (wc_enable_metrics c) = Inr rc"
    and "syncs_inline P ops" "\<not> wc_direct_io c"
  shows "\<exists>s fs. sys_open (sim_engine ops) c n (fs_new g fault_none clock_default) = Inr (Inr s, fs) \<and> sys_inv P (wc_dir c) n s \<and>
           sy_tasks s = [] \<and> sr_yielded (sy_stream s) = []"
proof -
  obtain sm fs where "manager_open (sim_engine ops) (wc_dir c) (wc_max_segment_size c) (wc_direct_io c) (fs_new g fault_none clock_default) = (Inr sm, fs)"
    "flusher_inv P (wc_dir c) [] (flusher_start sm fs)"
    using flusher_start_inv [OF assms(1,3), of "wc_max_segment_size c" g] assms(4) by auto
  from sys_open_start [OF assms(2) this] show ?thesis by blast
qed


text \<open>An encoding of entries over bytes, and a run of one transaction that is acknowledged.\<close>

fun wire_encode :: "(u8, u8) wal_entry \<Rightarrow> bytes option" where
  "wire_encode (Insert i ts k v) = Some (0 # u64_to_le_bytes i @ u64_to_le_bytes ts @ [k, v])"
| "wire_encode (Update i ts k v w) = Some (1 # u64_to_le_bytes i @ u64_to_le_bytes ts @ [k, v, w])"
| "wire_encode (Delete i ts k v) = Some (2 # u64_to_le_bytes i @ u64_to_le_bytes ts @ [k, v])"
| "wire_encode (Commit i ts) = Some (3 # u64_to_le_bytes i @ u64_to_le_bytes ts)"
| "wire_encode (Abort i ts) = Some (4 # u64_to_le_bytes i @ u64_to_le_bytes ts)"

definition wire_decode :: "bytes \<Rightarrow> (u8, u8) wal_entry option" where
  "wire_decode bs =
     (case bs of
        [] \<Rightarrow> None
      | tag # r \<Rightarrow>
          (let i = u64_from_le_bytes (take 8 r); ts = u64_from_le_bytes (take 8 (drop 8 r)); x = drop 16 r
           in case x of
                [] \<Rightarrow> if tag = 3 then Some (Commit i ts) else if tag = 4 then Some (Abort i ts) else None
              | [k, v] \<Rightarrow> if tag = 0 then Some (Insert i ts k v) else if tag = 2 then Some (Delete i ts k v) else None
              | [k, v, w] \<Rightarrow> if tag = 1 then Some (Update i ts k v w) else None
              | _ \<Rightarrow> None))"

lemma wire_roundtrip: "\<forall>e. \<exists>d. wire_encode e = Some d \<and> wire_decode d = Some e"
proof
  fix e :: "(u8, u8) wal_entry"
  have "length (u64_to_le_bytes i) = 8" for i by (simp add: u64_to_le_bytes_def del: le_bytes.simps)
  then show "\<exists>d. wire_encode e = Some d \<and> wire_decode d = Some e" by (cases e) (simp_all add: wire_decode_def)
qed

definition demo_wal :: wal_config where
  "demo_wal = (wal_config_new [''wal''])\<lparr>wc_ring_bits := 1, wc_max_writers := 1, wc_batch_hint := 2\<rparr>"

definition demo_acts :: "(u8, u8) sys_act list" where
  "demo_acts = [Sys_Register, Sys_Commit 0 [Do_Insert 1 9 4] 5, Sys_Send 0, Sys_Send 0, Sys_Send 0, Sys_Send 0,
     Sys_Poll False 0, Sys_Poll False 0]"

definition demo_end :: "(u8, u8, unit sim_fs) wal_system option" where
  "demo_end =
     (case sys_open (sim_engine unit_rng) demo_wal 7 (fs_new () fault_none clock_default) of
        Inr (Inr s0, _) \<Rightarrow>
          (case sys_run (wal_env sum_crc wire_encode (sim_engine unit_rng) (\<lambda>_ _ fs. (Inr (), fs)) demo_wal) demo_acts s0 of
             Inr s \<Rightarrow> Some s | Inl _ \<Rightarrow> None)
      | _ \<Rightarrow> None)"

lemma demo_end_notified:
  "map_option (\<lambda>s. (fl_notified (sy_flusher s), map snd (sr_yielded (sy_stream s)))) demo_end =
     Some ([0], [Entry (Insert 7 1 9 4), CommitBarrier (Commit 7 5) 0])"
  by code_simp


section \<open>A commit overtaken by the shutdown\<close>

lemma stopped_step: "fl_stopped (sy_flusher s) \<Longrightarrow> sys_step P a s = Inr s' \<Longrightarrow> sy_flusher s' = sy_flusher s"
  by (cases a) (auto simp: start_task_def task_send_def Let_def try_bind_Inr_iff split: list.splits if_splits)

lemma stopped_run: "fl_stopped (sy_flusher s) \<Longrightarrow> sys_run P acts s = Inr s' \<Longrightarrow> sy_flusher s' = sy_flusher s"
proof (induction acts arbitrary: s)
  case (Cons a acts)
  then obtain s1 where s1: "sys_step P a s = Inr s1" "sys_run P acts s1 = Inr s'" by (auto simp: try_bind_Inr_iff)
  have "sy_flusher s1 = sy_flusher s" using stopped_step [OF Cons.prems(1) s1(1)] .
  with Cons.IH [of s1] Cons.prems(1) s1(2) show ?case by simp
qed simp

text \<open>
  The exception in the last clause of the end-to-end properties happens: a commit whose last \<open>send\<close> has
  passed its check for a closed stream when the flusher stops is accepted by its ring all the same, if that
  has room, and whatever happens afterwards its waiter is never notified.
\<close>

theorem overtaken_commit_waits_forever:
  assumes stopped: "fl_stopped (sy_flusher s)" "j \<notin> set (fl_notified (sy_flusher s))"
    and task: "j < length (sy_tasks s)" "tk_left (sy_tasks s ! j) = [CommitBarrier e j]" "tk_checked (sy_tasks s ! j)"
      "tk_writer (sy_tasks s ! j) = i" "unat i < unat (ch_producer_count (rs_channel (sr_stream (sy_stream s))))"
    and room: "map_sum id fst (put_item i (i, CommitBarrier e j) (sr_stream (sy_stream s))) = Inr True"
  shows "\<exists>s1. sys_step P (Sys_Send j) s = Inr s1 \<and>
     sr_accepted (sy_stream s1) = sr_accepted (sy_stream s) @ [(i, CommitBarrier e j)] \<and>
     tk_left (sy_tasks s1 ! j) = [] \<and> tk_refused (sy_tasks s1 ! j) = tk_refused (sy_tasks s ! j) \<and>
     (\<forall>acts s2. sys_run P acts s1 = Inr s2 \<longrightarrow> j \<notin> set (fl_notified (sy_flusher s2)))"
proof -
  obtain st where st: "put_item i (i, CommitBarrier e j) (sr_stream (sy_stream s)) = Inr (True, st)"
    using room by (cases "put_item i (i, CommitBarrier e j) (sr_stream (sy_stream s))") auto
  obtain s1 where s1: "sys_step P (Sys_Send j) s = Inr s1" "sr_accepted (sy_stream s1) = sr_accepted (sy_stream s) @ [(i, CommitBarrier e j)]"
    "tk_left (sy_tasks s1 ! j) = []" "tk_refused (sy_tasks s1 ! j) = tk_refused (sy_tasks s ! j)"
    using task st by (simp add: task_send_def Let_def)
  have fl: "sy_flusher s1 = sy_flusher s" using stopped_step [OF stopped(1) s1(1)] .
  have "sy_flusher s2 = sy_flusher s" if "sys_run P acts s1 = Inr s2" for acts s2
    using stopped_run [OF _ that] stopped(1) unfolding fl by simp
  with s1 stopped(2) show ?thesis by auto
qed

text \<open>A run that gets there: the check, the shutdown with its drain, and only then the store.\<close>

definition race_acts :: "(u8, u8) sys_act list" where
  "race_acts = [Sys_Register, Sys_Commit 0 [] 5, Sys_Send 0, Sys_Shutdown, Sys_Shutdown_Seen, Sys_Poll False 0]"

definition race_end :: "(u8, u8, unit sim_fs) wal_system option" where
  "race_end =
     (case sys_open (sim_engine unit_rng) demo_wal 7 (fs_new () fault_none clock_default) of
        Inr (Inr s0, _) \<Rightarrow>
          (case sys_run (wal_env sum_crc wire_encode (sim_engine unit_rng) (\<lambda>_ _ fs. (Inr (), fs)) demo_wal) race_acts s0 of
             Inr s \<Rightarrow> Some s | Inl _ \<Rightarrow> None)
      | _ \<Rightarrow> None)"

lemma race_end_facts:
  "map_option (\<lambda>s. (fl_stopped (sy_flusher s), fl_notified (sy_flusher s),
     map (\<lambda>t. (tk_writer t, tk_left t, tk_checked t, tk_refused t)) (sy_tasks s))) race_end =
     Some (True, [], [(0, [CommitBarrier (Commit 7 5) 0], True, False)])"
  "map_option (\<lambda>s. (ch_producer_count (rs_channel (sr_stream (sy_stream s))),
     map_sum id fst (put_item 0 (0, CommitBarrier (Commit 7 5) 0) (sr_stream (sy_stream s))))) race_end = Some (1, Inr True)"
  by code_simp+

theorem overtaken_commit_waits_forever_witness:
  "\<exists>s s1. race_end = Some s \<and>
     sys_step (wal_env sum_crc wire_encode (sim_engine unit_rng) (\<lambda>_ _ fs. (Inr (), fs)) demo_wal) (Sys_Send 0) s = Inr s1 \<and>
     CommitBarrier (Commit 7 5) 0 \<in> snd ` set (sr_accepted (sy_stream s1)) \<and>
     (\<forall>acts s2. sys_run (wal_env sum_crc wire_encode (sim_engine unit_rng) (\<lambda>_ _ fs. (Inr (), fs)) demo_wal) acts s1 = Inr s2 \<longrightarrow>
        0 \<notin> set (fl_notified (sy_flusher s2)))"
proof -
  obtain s where s: "race_end = Some s" using race_end_facts(1) by (cases race_end) auto
  note facts = race_end_facts [unfolded s option.map option.inject prod.inject]
  have len: "length (sy_tasks s) = 1" using arg_cong [OF facts(1) [THEN conjunct2, THEN conjunct2], of length] by simp
  then obtain t where t: "sy_tasks s = [t]" by (auto simp: length_Suc_conv)
  have task: "0 < length (sy_tasks s)" "tk_left (sy_tasks s ! 0) = [CommitBarrier (Commit 7 5) 0]" "tk_checked (sy_tasks s ! 0)"
    "tk_writer (sy_tasks s ! 0) = 0" "unat (0 :: usize) < unat (ch_producer_count (rs_channel (sr_stream (sy_stream s))))"
    using facts t by simp_all
  have "fl_stopped (sy_flusher s)" "0 \<notin> set (fl_notified (sy_flusher s))" using facts(1) by simp_all
  from overtaken_commit_waits_forever [OF this task facts(2) [THEN conjunct2],
      of "wal_env sum_crc wire_encode (sim_engine unit_rng) (\<lambda>_ _ fs. (Inr (), fs)) demo_wal"]
  obtain s1 where "sys_step (wal_env sum_crc wire_encode (sim_engine unit_rng) (\<lambda>_ _ fs. (Inr (), fs)) demo_wal) (Sys_Send 0) s = Inr s1"
    "sr_accepted (sy_stream s1) = sr_accepted (sy_stream s) @ [(0, CommitBarrier (Commit 7 5) 0)]"
    "\<forall>acts s2. sys_run (wal_env sum_crc wire_encode (sim_engine unit_rng) (\<lambda>_ _ fs. (Inr (), fs)) demo_wal) acts s1 = Inr s2 \<longrightarrow>
        0 \<notin> set (fl_notified (sy_flusher s2))" by blast
  with s show ?thesis by (intro exI [of _ s] exI [of _ s1]) simp
qed

end
