(* ===== verification/Wal_Store.thy ===== *)
theory Wal_Store
  imports Wal_Recovery "HOL-Library.Multiset"
begin

text \<open>
  Replaying recovered transactions into a store (crate \<open>ringwal-store\<close>), and the commit oracle of the
  simulator that judges a recovery (\<open>oracle.rs\<close>).
\<close>

section \<open>Store\<close>

text \<open>\<open>InMemoryStore::apply\<close>; the trait's \<open>apply\<close> may fail, this one does not.\<close>

fun mem_apply :: "('k, 'v) wal_entry \<Rightarrow> ('k \<rightharpoonup> 'v) \<Rightarrow> wal_error + ('k \<rightharpoonup> 'v)" where
  "mem_apply (Insert _ _ key v) m = Inr (m(key \<mapsto> v))"
| "mem_apply (Update _ _ key _ new_v) m = Inr (m(key \<mapsto> new_v))"
| "mem_apply (Delete _ _ key _) m = Inr (m(key := None))"
| "mem_apply (Commit _ _) m = Inr m"
| "mem_apply (Abort _ _) m = Inr m"

definition mem_new :: "'k \<rightharpoonup> 'v" where
  "mem_new = Map.empty"

definition mem_get :: "'k \<Rightarrow> ('k \<rightharpoonup> 'v) \<Rightarrow> 'v option" where
  "mem_get key m = m key"

text \<open>
  \<open>apply_transactions\<close> over any store's \<open>apply\<close>; on an error what was applied before stays.
\<close>

fun apply_entries ::
    "(('k, 'v) wal_entry \<Rightarrow> 's \<Rightarrow> wal_error + 's) \<Rightarrow> ('k, 'v) wal_entry list \<Rightarrow> 's \<Rightarrow> (wal_error + unit) \<times> 's" where
  "apply_entries app [] s = (Inr (), s)"
| "apply_entries app (e # es) s = (case app e s of Inl err \<Rightarrow> (Inl err, s) | Inr s1 \<Rightarrow> apply_entries app es s1)"

fun apply_transactions ::
    "(('k, 'v) wal_entry \<Rightarrow> 's \<Rightarrow> wal_error + 's) \<Rightarrow> ('k, 'v) wal_entry recovered_transaction list \<Rightarrow> 's \<Rightarrow> (wal_error + unit) \<times> 's" where
  "apply_transactions app [] s = (Inr (), s)"
| "apply_transactions app (t # ts) s =
     (if rt_action t = Act_Commit
      then (case apply_entries app (rt_entries t) s of
              (Inl err, s1) \<Rightarrow> (Inl err, s1) | (Inr _, s1) \<Rightarrow> apply_transactions app ts s1)
      else apply_transactions app ts s)"

definition recover_into_store ::
    "(('k, 'v) wal_entry \<Rightarrow> 's \<Rightarrow> wal_error + 's) \<Rightarrow> (bytes \<Rightarrow> u32) \<Rightarrow> (bytes \<Rightarrow> ('k, 'v) wal_entry option) \<Rightarrow>
     (u64 list \<Rightarrow> u64 list) \<Rightarrow> 'fs io_engine \<Rightarrow> path \<Rightarrow> 's \<Rightarrow> 'fs \<Rightarrow> (recover_error + recovery_stats) \<times> 's \<times> 'fs" where
  "recover_into_store app crc deser ho eng dir s fs =
     (case recover crc deser ho eng dir fs of
        (Inl e, fs1) \<Rightarrow> (Inl e, s, fs1)
      | (Inr (rs, st, _), fs1) \<Rightarrow>
          (case apply_transactions app rs s of
             (Inl err, s1) \<Rightarrow> (Inl (Failed err), s1, fs1)
           | (Inr _, s1) \<Rightarrow> (Inr st, s1, fs1)))"

section \<open>What the store ends up with\<close>

text \<open>The specification: the last entry for a key among the committed ones decides.\<close>

fun entry_effect :: "('k, 'v) wal_entry \<Rightarrow> ('k \<times> 'v option) option" where
  "entry_effect (Insert _ _ key v) = Some (key, Some v)"
| "entry_effect (Update _ _ key _ new_v) = Some (key, Some new_v)"
| "entry_effect (Delete _ _ key _) = Some (key, None)"
| "entry_effect _ = None"

fun effects :: "('k, 'v) wal_entry list \<Rightarrow> ('k \<times> 'v option) list" where
  "effects [] = []"
| "effects (e # es) = (case entry_effect e of None \<Rightarrow> effects es | Some x \<Rightarrow> x # effects es)"

definition final_value :: "('k, 'v) wal_entry list \<Rightarrow> 'k \<Rightarrow> 'v option \<Rightarrow> 'v option" where
  "final_value es key old =
     (case rev (filter (\<lambda>(k, _). k = key) (effects es)) of [] \<Rightarrow> old | (_, v) # _ \<Rightarrow> v)"

definition committed_entries :: "('k, 'v) wal_entry recovered_transaction list \<Rightarrow> ('k, 'v) wal_entry list" where
  "committed_entries rs = concat (map rt_entries (filter (\<lambda>r. rt_action r = Act_Commit) rs))"

lemma effects_append [simp]: "effects (xs @ ys) = effects xs @ effects ys"
  by (induction xs) (simp_all split: option.splits)

lemma final_value_append: "final_value (xs @ ys) key old = final_value ys key (final_value xs key old)"
  by (simp add: final_value_def split: list.splits)

lemma final_value_Nil [simp]: "final_value [] key old = old"
  by (simp add: final_value_def)

lemma mem_apply_final: "mem_apply e m = Inr (\<lambda>key. final_value [e] key (m key))"
  by (cases e) (auto simp: final_value_def fun_eq_iff)

lemma apply_entries_final: "apply_entries mem_apply es m = (Inr (), \<lambda>key. final_value es key (m key))"
proof (induction es arbitrary: m)
  case (Cons e es)
  then show ?case using final_value_append [of "[e]" es] by (simp add: mem_apply_final)
qed simp

lemma apply_transactions_final:
  "apply_transactions mem_apply rs m = (Inr (), \<lambda>key. final_value (committed_entries rs) key (m key))"
proof (induction rs arbitrary: m)
  case (Cons r rs)
  then show ?case by (simp add: apply_entries_final committed_entries_def final_value_append)
qed (simp add: committed_entries_def)

text \<open>When different transactions touch different keys, their order does not matter.\<close>

definition keys_of :: "('k, 'v) wal_entry recovered_transaction \<Rightarrow> 'k set" where
  "keys_of r = fst ` set (effects (rt_entries r))"

lemma final_value_absent: "key \<notin> fst ` set (effects es) \<Longrightarrow> final_value es key old = old"
proof -
  assume "key \<notin> fst ` set (effects es)"
  then have "filter (\<lambda>(k, _). k = key) (effects es) = []" by (force simp: filter_empty_conv)
  then show ?thesis by (simp add: final_value_def)
qed

lemma uncommitted_key:
  assumes "\<And>r. r \<in> set rs \<Longrightarrow> rt_action r = Act_Commit \<Longrightarrow> key \<notin> keys_of r"
  shows "key \<notin> fst ` set (effects (committed_entries rs))"
  using assms by (induction rs) (auto simp: committed_entries_def keys_of_def)

lemma final_value_one:
  assumes "distinct rs" "r \<in> set rs" "rt_action r = Act_Commit" "key \<in> keys_of r"
    and disj: "\<forall>r1\<in>set rs. \<forall>r2\<in>set rs. r1 \<noteq> r2 \<longrightarrow> rt_action r1 = Act_Commit \<longrightarrow> rt_action r2 = Act_Commit \<longrightarrow>
       keys_of r1 \<inter> keys_of r2 = {}"
  shows "final_value (committed_entries rs) key old = final_value (rt_entries r) key old"
  using assms
proof (induction rs arbitrary: old)
  case (Cons q rs)
  have split: "committed_entries (q # rs) = (if rt_action q = Act_Commit then rt_entries q else []) @ committed_entries rs"
    by (simp add: committed_entries_def)
  show ?case
  proof (cases "q = r")
    case True
    have "key \<notin> keys_of r'" if "r' \<in> set rs" "rt_action r' = Act_Commit" for r' using Cons.prems that True by auto
    then have "key \<notin> fst ` set (effects (committed_entries rs))" by (rule uncommitted_key)
    then show ?thesis unfolding split final_value_append using True Cons.prems(3) by (simp add: final_value_absent)
  next
    case False
    then have "rt_action q = Act_Commit \<longrightarrow> key \<notin> fst ` set (effects (rt_entries q))"
      using Cons.prems by (auto simp: keys_of_def)
    then have "final_value (committed_entries (q # rs)) key old = final_value (committed_entries rs) key old"
      unfolding split final_value_append by (simp add: final_value_absent)
    with Cons False show ?thesis by auto
  qed
qed simp

section \<open>The commit oracle\<close>

text \<open>
  \<open>CommitOracle\<close>: the hash map as an association list.  The keys of a hash map come in any order;
  \<open>verify_recovery\<close> counts and sorts them, so the order does not show.
\<close>

record ('k, 'v) commit_oracle =
  oc_committed :: "(u64 \<times> ('k \<times> 'v) list) list"

definition oracle_new :: "('k, 'v) commit_oracle" where
  "oracle_new = \<lparr>oc_committed = []\<rparr>"

definition record_commit :: "u64 \<Rightarrow> ('k \<times> 'v) list \<Rightarrow> ('k, 'v) commit_oracle \<Rightarrow> ('k, 'v) commit_oracle" where
  "record_commit i entries oc = oc\<lparr>oc_committed := AList.update i entries (oc_committed oc)\<rparr>"

definition committed_count :: "('k, 'v) commit_oracle \<Rightarrow> nat" where
  "committed_count oc = length (oc_committed oc)"

definition committed_tx_ids :: "('k, 'v) commit_oracle \<Rightarrow> u64 list" where
  "committed_tx_ids oc = map fst (oc_committed oc)"

definition oracle_clear :: "('k, 'v) commit_oracle \<Rightarrow> ('k, 'v) commit_oracle" where
  "oracle_clear oc = oc\<lparr>oc_committed := []\<rparr>"

record verification_result =
  vr_found :: nat
  vr_lost :: "u64 list"
  vr_phantom :: "u64 list"
  vr_recovered_committed :: nat

definition result_is_ok :: "verification_result \<Rightarrow> bool" where
  "result_is_ok r \<longleftrightarrow> vr_lost r = [] \<and> vr_phantom r = []"

definition verify_recovery :: "('k, 'v) commit_oracle \<Rightarrow> 'e recovered_transaction list \<Rightarrow> verification_result" where
  "verify_recovery oc recovered =
     (let recovered_committed = remdups (committed_ids recovered);
          keys = committed_tx_ids oc
      in \<lparr>vr_found = length (filter (\<lambda>i. i \<in> set recovered_committed) keys),
          vr_lost = sort (filter (\<lambda>i. i \<notin> set recovered_committed) keys),
          vr_phantom = sort (filter (\<lambda>i. i \<notin> set keys) recovered_committed),
          vr_recovered_committed = length recovered_committed\<rparr>)"

text \<open>An oracle built by its own operations never has an id twice.\<close>

definition oracle_wf :: "('k, 'v) commit_oracle \<Rightarrow> bool" where
  "oracle_wf oc \<longleftrightarrow> distinct (committed_tx_ids oc)"

lemma oracle_wf_ops:
  "oracle_wf oracle_new" "oracle_wf oc \<Longrightarrow> oracle_wf (record_commit i es oc)" "oracle_wf (oracle_clear oc)"
  by (simp_all add: oracle_wf_def oracle_new_def record_commit_def oracle_clear_def committed_tx_ids_def distinct_update)

text \<open>The specification: the two differences of id sets, in increasing order.\<close>

lemma verify_recovery_spec:
  assumes "oracle_wf oc"
  shows "vr_lost (verify_recovery oc rs) = sorted_list_of_set (set (committed_tx_ids oc) - set (committed_ids rs))"
    "vr_phantom (verify_recovery oc rs) = sorted_list_of_set (set (committed_ids rs) - set (committed_tx_ids oc))"
    "vr_found (verify_recovery oc rs) = card (set (committed_tx_ids oc) \<inter> set (committed_ids rs))"
    "vr_recovered_committed (verify_recovery oc rs) = card (set (committed_ids rs))"
proof -
  have srt: "sort xs = sorted_list_of_set (set xs)" if "distinct xs" for xs :: "u64 list"
    using that by (simp add: sorted_list_of_set_sort_remdups distinct_remdups_id)
  have d: "distinct (committed_tx_ids oc)" using assms by (simp add: oracle_wf_def)
  have "set (filter (\<lambda>i. i \<notin> set (committed_ids rs)) (committed_tx_ids oc)) = set (committed_tx_ids oc) - set (committed_ids rs)"
    "set (filter (\<lambda>i. i \<notin> set (committed_tx_ids oc)) (remdups (committed_ids rs))) = set (committed_ids rs) - set (committed_tx_ids oc)"
    by auto
  then show "vr_lost (verify_recovery oc rs) = sorted_list_of_set (set (committed_tx_ids oc) - set (committed_ids rs))"
    "vr_phantom (verify_recovery oc rs) = sorted_list_of_set (set (committed_ids rs) - set (committed_tx_ids oc))"
    using d by (simp_all add: verify_recovery_def Let_def srt)
  have "set (filter (\<lambda>i. i \<in> set (committed_ids rs)) (committed_tx_ids oc)) = set (committed_tx_ids oc) \<inter> set (committed_ids rs)" by auto
  then show "vr_found (verify_recovery oc rs) = card (set (committed_tx_ids oc) \<inter> set (committed_ids rs))"
    using distinct_card [OF distinct_filter [OF d], of "\<lambda>i. i \<in> set (committed_ids rs)"] by (simp add: verify_recovery_def Let_def)
  show "vr_recovered_committed (verify_recovery oc rs) = card (set (committed_ids rs))"
    by (simp add: verify_recovery_def Let_def length_remdups_card_conv)
qed

end
