(* ===== verification/Wal_Sim.thy ===== *)
theory Wal_Sim
  imports Wal_Store Wal_Commit Wal_Writer
begin

text \<open>
  The simulation harness (\<open>harness.rs\<close>) with the builder of its fault configuration (\<open>fault.rs\<close>): a
  simulated engine, the commit oracle, and the check that a recovery agrees with the oracle.  The
  random workload driver is the subject of theory \<open>Wal_Workload\<close>; the theorem here quantifies over any
  events of the flusher.
\<close>

section \<open>Building a fault configuration\<close>

text \<open>Each setter asserts its rate to be a probability.\<close>

definition rate_ok :: "rat \<Rightarrow> bool" where
  "rate_ok rate \<longleftrightarrow> 0 \<le> rate \<and> rate \<le> 1"

definition set_write_fail_rate :: "rat \<Rightarrow> fault_config \<Rightarrow> fault + fault_config" where
  "set_write_fail_rate rate b = (if rate_ok rate then Inr (b\<lparr>write_fail_rate := rate\<rparr>) else Inl Panicked)"

definition set_fsync_fail_rate :: "rat \<Rightarrow> fault_config \<Rightarrow> fault + fault_config" where
  "set_fsync_fail_rate rate b = (if rate_ok rate then Inr (b\<lparr>fsync_fail_rate := rate\<rparr>) else Inl Panicked)"

definition set_partial_write_rate :: "rat \<Rightarrow> fault_config \<Rightarrow> fault + fault_config" where
  "set_partial_write_rate rate b = (if rate_ok rate then Inr (b\<lparr>partial_write_rate := rate\<rparr>) else Inl Panicked)"

definition set_crash_probability :: "rat \<Rightarrow> fault_config \<Rightarrow> fault + fault_config" where
  "set_crash_probability rate b = (if rate_ok rate then Inr (b\<lparr>crash_probability := rate\<rparr>) else Inl Panicked)"

definition set_read_fail_rate :: "rat \<Rightarrow> fault_config \<Rightarrow> fault + fault_config" where
  "set_read_fail_rate rate b = (if rate_ok rate then Inr (b\<lparr>read_fail_rate := rate\<rparr>) else Inl Panicked)"

definition fault_config_ok :: "fault_config \<Rightarrow> bool" where
  "fault_config_ok c \<longleftrightarrow> rate_ok (write_fail_rate c) \<and> rate_ok (fsync_fail_rate c) \<and> rate_ok (partial_write_rate c) \<and>
     rate_ok (crash_probability c) \<and> rate_ok (read_fail_rate c)"

lemma fault_builder_ok:
  "fault_config_ok fault_none"
  "fault_config_ok b \<Longrightarrow> setter \<in> {set_write_fail_rate, set_fsync_fail_rate, set_partial_write_rate, set_crash_probability,
     set_read_fail_rate} \<Longrightarrow> setter rate b = Inr c \<Longrightarrow> fault_config_ok c"
  by (auto simp: fault_config_ok_def fault_none_def rate_ok_def set_write_fail_rate_def set_fsync_fail_rate_def
      set_partial_write_rate_def set_crash_probability_def set_read_fail_rate_def split: if_splits)

section \<open>Simulator\<close>

record 'g simulator =
  si_io :: "'g sim_fs"
  si_oracle :: "(string, bytes) commit_oracle"
  si_rng :: 'g
  si_fault_config :: fault_config
  si_wal_config :: wal_config
  si_wal_dir :: path
  si_seed :: u64

text \<open>\<open>seed_rng\<close> is \<open>SmallRng::seed_from_u64\<close>, of a third-party crate.\<close>

definition simulator_new :: "(u64 \<Rightarrow> 'g) \<Rightarrow> u64 \<Rightarrow> fault_config \<Rightarrow> wal_config \<Rightarrow> fault + 'g simulator" where
  "simulator_new seed_rng seed cfg wc =
     (case sim_create_dir_all (wc_dir wc) (fs_new (seed_rng seed) cfg clock_default) of
        (Inl _, _) \<Rightarrow> Inl Panicked
      | (Inr _, fs) \<Rightarrow>
          Inr \<lparr>si_io = fs, si_oracle = oracle_new, si_rng = seed_rng seed, si_fault_config = cfg, si_wal_config = wc,
               si_wal_dir = wc_dir wc, si_seed = seed\<rparr>)"

definition simulator_crash :: "'g simulator \<Rightarrow> 'g simulator" where
  "simulator_crash s = s\<lparr>si_io := fs_crash (si_io s)\<rparr>"

definition simulator_crash_count :: "'g simulator \<Rightarrow> u64" where
  "simulator_crash_count s = fs_crash_count (si_io s)"

definition simulator_advance_clock :: "u64 \<Rightarrow> 'g simulator \<Rightarrow> 'g simulator" where
  "simulator_advance_clock delta s = s\<lparr>si_io := (si_io s)\<lparr>fs_clock := clock_advance delta (fs_clock (si_io s))\<rparr>\<rparr>"

text \<open>
  The parameters of recovery: the checksum, bincode's decoder, the order of a hash set and the draws
  of the random generator.
\<close>

record 'g recovery_env =
  re_crc :: "bytes \<Rightarrow> u32"
  re_deser :: "bytes \<Rightarrow> (string, bytes) wal_entry option"
  re_order :: "u64 list \<Rightarrow> u64 list"
  re_rng :: "'g rng_ops"

definition simulator_recover ::
    "'g recovery_env \<Rightarrow> 'g simulator \<Rightarrow>
     (recover_error + (string, bytes) wal_entry recovered_transaction list \<times> recovery_stats \<times> u64 option) \<times> 'g simulator" where
  "simulator_recover E s =
     (case recover (re_crc E) (re_deser E) (re_order E) (sim_engine (re_rng E)) (si_wal_dir s) (si_io s) of
        (res, fs) \<Rightarrow> (res, s\<lparr>si_io := fs\<rparr>))"

definition crash_and_recover ::
    "'g recovery_env \<Rightarrow> 'g simulator \<Rightarrow>
     (recover_error + (string, bytes) wal_entry recovered_transaction list \<times> recovery_stats \<times> u64 option) \<times> 'g simulator" where
  "crash_and_recover E s = simulator_recover E (simulator_crash s)"

definition simulator_verify :: "'g simulator \<Rightarrow> 'e recovered_transaction list \<Rightarrow> verification_result" where
  "simulator_verify s recovered = verify_recovery (si_oracle s) recovered"

definition assert_no_lost_commits :: "'g simulator \<Rightarrow> 'e recovered_transaction list \<Rightarrow> fault + unit" where
  "assert_no_lost_commits s recovered =
     (let result = verify_recovery (si_oracle s) recovered in if vr_lost result = [] then Inr () else Inl Panicked)"

definition assert_no_phantom_commits :: "'g simulator \<Rightarrow> 'e recovered_transaction list \<Rightarrow> fault + unit" where
  "assert_no_phantom_commits s recovered =
     (let result = verify_recovery (si_oracle s) recovered in if vr_phantom result = [] then Inr () else Inl Panicked)"

definition crash_recover_verify ::
    "'g recovery_env \<Rightarrow> 'g simulator \<Rightarrow>
     (recover_error + (string, bytes) wal_entry recovered_transaction list) \<times> 'g simulator" where
  "crash_recover_verify E s =
     (case crash_and_recover E s of
        (Inl e, s1) \<Rightarrow> (Inl e, s1)
      | (Inr (recovered, _, _), s1) \<Rightarrow>
          (case assert_no_lost_commits s1 recovered of
             Inl f \<Rightarrow> (Inl (Fault f), s1)
           | Inr _ \<Rightarrow>
               (case assert_no_phantom_commits s1 recovered of
                  Inl f \<Rightarrow> (Inl (Fault f), s1)
                | Inr _ \<Rightarrow> (Inr recovered, s1))))"

text \<open>The harness passes exactly when recovery succeeds and finds exactly the oracle's commits.\<close>

lemma crash_recover_verify_iff:
  assumes "oracle_wf (si_oracle s)"
  shows "fst (crash_recover_verify E s) = Inr rs \<longleftrightarrow>
    (\<exists>st reset. fst (crash_and_recover E s) = Inr (rs, st, reset) \<and> set (committed_ids rs) = set (committed_tx_ids (si_oracle s)))"
proof -
  have same: "si_oracle (snd (crash_and_recover E s)) = si_oracle s"
    by (simp add: crash_and_recover_def simulator_recover_def simulator_crash_def split: prod.splits)
  obtain res s1 where r: "crash_and_recover E s = (res, s1)" by fastforce
  have o: "oracle_wf (si_oracle s1)" "si_oracle s1 = si_oracle s" using assms same r by simp_all
  have "(vr_lost (verify_recovery (si_oracle s1) q) = [] \<and> vr_phantom (verify_recovery (si_oracle s1) q) = []) \<longleftrightarrow>
      set (committed_ids q) = set (committed_tx_ids (si_oracle s))" for q :: "(string, bytes) wal_entry recovered_transaction list"
    unfolding o(2) verify_recovery_spec(1,2) [OF assms] by (simp add: sorted_list_of_set_eq_Nil_iff) blast
  then show ?thesis
    unfolding crash_recover_verify_def r assert_no_lost_commits_def assert_no_phantom_commits_def
    by (auto simp: Let_def split: sum.splits if_splits)
qed

section \<open>A run without faults passes the harness\<close>

text \<open>The transactions whose commit was acknowledged: what the harness records in its oracle.\<close>

definition acknowledged :: "('k, 'v) envelope list \<Rightarrow> waiter list \<Rightarrow> u64 set" where
  "acknowledged envls ws = {i. \<exists>ts w. CommitBarrier (Commit i ts) w \<in> set envls \<and> w \<in> set ws}"

text \<open>
  What writers send: commit markers only as barriers, each barrier with its own waiter, and per
  transaction id nothing after its marker.
\<close>

definition writers_protocol :: "('k, 'v) envelope list \<Rightarrow> bool" where
  "writers_protocol envls \<longleftrightarrow> distinct (waiters_of envls) \<and>
     (\<forall>envl\<in>set envls. is_commit (envelope_entry envl) \<longrightarrow> (\<exists>i ts w. envl = CommitBarrier (Commit i ts) w)) \<and>
     (\<forall>i ts w. CommitBarrier (Commit i ts) w \<in> set envls \<longrightarrow>
        (\<exists>ds. filter (\<lambda>e. tx_id e = i) (map envelope_entry envls) = ds @ [Commit i ts] \<and>
           (\<forall>d\<in>set ds. \<not> is_commit d \<and> \<not> is_abort d)))"

lemma manager_open_flusher_inv:
  assumes "dir \<noteq> []" "sim_ok fs0" "\<forall>n. sim_visible fs0 (dir @ [n]) = None"
  shows "\<exists>sm fs. manager_open (sim_engine ops) dir max_size direct fs0 = (Inr sm, fs) \<and> flusher_inv P dir [] (flusher_start sm fs)"
proof -
  from sim.manager_open_log [OF assms(2,1,3), of ops max_size direct "fe_crc P"] obtain sm fs where
    o: "manager_open (sim_engine ops) dir max_size direct fs0 = (Inr sm, fs)" "sim_ok fs" "sim_is_dir fs (sm_dir sm)"
      "sm_dir sm = dir" "sm_next_segment_id sm = 2"
      "manager_log (fe_crc P) (sim_visible fs) (\<lambda>p. sim_durable_bytes p fs) [] [] 0 sm" by blast
  have "log_data [] [] = []" "durable_count [] 0 = 0" by (simp_all add: log_data_def durable_count_def)
  with o have "flusher_inv P dir ([] @ []) (flusher_start sm fs)"
    by (intro flusher_invI) (auto simp: flusher_start_def run_inv_def intro!: exI [of _ "[] :: (u64 \<times> bytes list) list"] exI [of _ "[] :: bytes list"])
  with o(1) show ?thesis by auto
qed

lemma acknowledged_recovered:
  assumes wp: "writers_protocol (flushed @ cur)"
    and ids: "set (map rt_tx_id rs) = set (map tx_id (map envelope_entry flushed))"
    and act: "\<forall>r\<in>set rs. rt_action r = outcome (map envelope_entry flushed) (rt_tx_id r)"
  shows "set (committed_ids rs) = acknowledged (flushed @ cur) (waiters_of flushed)"
proof (intro set_eqI iffI)
  let ?es = "map envelope_entry flushed"
  fix i assume "i \<in> set (committed_ids rs)"
  then have "outcome ?es i = Act_Commit" using act by (auto simp: committed_ids_def)
  then obtain e where "e \<in> set (filter (\<lambda>e. tx_id e = i \<and> is_marker e) ?es)" "is_commit e"
    by (cases "filter (\<lambda>e. tx_id e = i \<and> is_marker e) ?es" rule: rev_cases) (auto simp: outcome_def split: if_splits)
  then obtain envl where e: "envl \<in> set flushed" "is_commit (envelope_entry envl)" "tx_id (envelope_entry envl) = i" by auto
  from wp have "\<forall>envl\<in>set (flushed @ cur). is_commit (envelope_entry envl) \<longrightarrow> (\<exists>i ts w. envl = CommitBarrier (Commit i ts) w)"
    unfolding writers_protocol_def by blast
  with e(1,2) obtain j ts w where "envl = CommitBarrier (Commit j ts) w" by auto
  with e(3) have "envl = CommitBarrier (Commit i ts) w" by simp
  with e(1) show "i \<in> acknowledged (flushed @ cur) (waiters_of flushed)"
    by (force simp: acknowledged_def waiters_of_def)
next
  let ?es = "map envelope_entry flushed"
  fix i assume "i \<in> acknowledged (flushed @ cur) (waiters_of flushed)"
  then obtain ts w where w: "CommitBarrier (Commit i ts) w \<in> set (flushed @ cur)" "w \<in> set (waiters_of flushed)"
    by (auto simp: acknowledged_def)
  with wp have in_f: "Commit i ts \<in> set ?es" by (intro barrier_flushed) (auto simp: writers_protocol_def)
  from wp w(1) obtain ds where ds: "filter (\<lambda>e. tx_id e = i) (map envelope_entry (flushed @ cur)) = ds @ [Commit i ts]"
    "\<forall>d\<in>set ds. \<not> is_commit d \<and> \<not> is_abort d" unfolding writers_protocol_def by blast
  have "outcome ?es i = Act_Commit" using committed_prefix [OF ds, of "length flushed"] in_f by simp
  moreover have "i \<in> set (map rt_tx_id rs)" unfolding ids using imageI [OF in_f, of tx_id] by (simp add: image_image)
  ultimately show "i \<in> set (committed_ids rs)" using act by (auto simp: committed_ids_def image_iff)
qed

text \<open>
  The harness passes on every run of the log without injected faults.  A simulator is created, the
  log is opened on its engine in one of the modes that sync before they notify, and the flusher runs
  through any events.  If the oracle then holds exactly the transactions whose commits were
  acknowledged, \<open>crash_recover_verify\<close> returns the recovered transactions: recovery succeeds and
  neither assertion panics.
\<close>

theorem harness_passes_without_faults:
  assumes "wc_dir wc \<noteq> []" "hash_set_order (re_order E)" "syncs_inline P (re_rng E)" "re_crc E = fe_crc P"
    and "config_new (wc_ring_bits wc) (wc_max_writers wc) (wc_enable_metrics wc) = Inr rc"
    and "\<forall>envl\<in>set (concat (map event_envelopes evs)).
           \<exists>d. fe_serialize P (envelope_entry envl) = Some d \<and> re_deser E d = Some (envelope_entry envl)"
    and "length (frames (fe_crc P) (data_bytes P (concat (map event_envelopes evs)))) < 2 ^ 64"
  shows "\<exists>sim (w :: (string, bytes, 'g sim_fs) wal) fs envls s.
           simulator_new seed_rng seed fault_none wc = Inr sim \<and>
           wal_open (sim_engine (re_rng E)) wc (si_io sim) = Inr (Inr w, fs) \<and>
           flusher_run P evs (wl_flusher w) = Inr (envls, s) \<and>
           (\<forall>oc. oracle_wf oc \<longrightarrow> writers_protocol envls \<longrightarrow>
              set (committed_tx_ids oc) = acknowledged envls (fl_notified s) \<longrightarrow>
              (\<exists>rs. fst (crash_recover_verify E (sim\<lparr>si_io := fl_fs s, si_oracle := oc\<rparr>)) = Inr rs))"
proof -
  let ?all = "concat (map event_envelopes evs)"
  define fs0 where "fs0 = snd (sim_create_dir_all (wc_dir wc) (fs_new (seed_rng seed) fault_none clock_default))"
  define sim where "sim = \<lparr>si_io = fs0, si_oracle = oracle_new, si_rng = seed_rng seed, si_fault_config = fault_none,
     si_wal_config = wc, si_wal_dir = wc_dir wc, si_seed = seed\<rparr>"
  have new: "simulator_new seed_rng seed fault_none wc = Inr sim"
    by (simp add: simulator_new_def sim_def fs0_def sim_create_dir_all_def)
  have "sim_ok fs0" "\<forall>n. sim_visible fs0 (wc_dir wc @ [n]) = None"
    by (simp_all add: fs0_def sim_create_dir_all_def sim_ok_def fs_new_def sim_visible_def)
  from manager_open_flusher_inv [OF assms(1) this] obtain sm fs where
    o: "manager_open (sim_engine (re_rng E)) (wc_dir wc) (wc_max_segment_size wc) (wc_direct_io wc) fs0 = (Inr sm, fs)"
      "flusher_inv P (wc_dir wc) [] (flusher_start sm fs)" by blast
  then obtain w :: "(string, bytes, 'g sim_fs) wal" where
    w: "wal_open (sim_engine (re_rng E)) wc (si_io sim) = Inr (Inr w, fs)" "wl_flusher w = flusher_start sm fs"
    using assms(5) by (simp add: wal_open_def sim_def Let_def)
  from sim_recovery.flusher_run_recovers [OF assms(3) o(2) assms(2,6,7)] obtain envls s flushed cur rs st reset where
    run: "flusher_run P evs (flusher_start sm fs) = Inr (envls, s)" "envls = flushed @ cur" "fl_notified s = waiters_of flushed"
    and r: "fst (recover (fe_crc P) (re_deser E) (re_order E) (sim_engine (re_rng E)) (wc_dir wc) (fs_crash (fl_fs s))) = Inr (rs, st, reset)"
      "set (map rt_tx_id rs) = set (map tx_id (map envelope_entry flushed))"
      "\<forall>r\<in>set rs. rt_action r = outcome (map envelope_entry flushed) (rt_tx_id r) \<and>
         rt_entries r = data_of (map envelope_entry flushed) (rt_tx_id r)"
    by blast
  have "fst (crash_recover_verify E (sim\<lparr>si_io := fl_fs s, si_oracle := oc\<rparr>)) = Inr rs"
    if oc: "oracle_wf oc" "writers_protocol envls" "set (committed_tx_ids oc) = acknowledged envls (fl_notified s)" for oc
  proof -
    have "fst (crash_and_recover E (sim\<lparr>si_io := fl_fs s, si_oracle := oc\<rparr>)) = Inr (rs, st, reset)"
      using r(1) assms(4)
      by (simp add: crash_and_recover_def simulator_recover_def simulator_crash_def sim_def case_prod_unfold)
    moreover have "set (committed_ids rs) = set (committed_tx_ids oc)"
      using acknowledged_recovered [of flushed cur rs] oc(2,3) run(2,3) r(2,3) by simp
    ultimately show ?thesis using oc(1) by (subst crash_recover_verify_iff) auto
  qed
  with new w run(1) show ?thesis by metis
qed

text \<open>A small instance: string keys, one byte per id and value.\<close>

fun name_ser :: "(string, bytes) wal_entry \<Rightarrow> bytes option" where
  "name_ser (Commit i _) = Some [ucast i, 0]"
| "name_ser (Insert i _ _ [t]) = Some [ucast i, t]"
| "name_ser _ = None"

fun name_deser :: "bytes \<Rightarrow> (string, bytes) wal_entry option" where
  "name_deser [i, t] = (if t = 0 then Some (Commit (ucast i) 0) else Some (Insert (ucast i) 0 ''k'' [t]))"
| "name_deser _ = None"

definition name_env :: "(string, bytes, unit sim_fs) flusher_env" where
  "name_env = \<lparr>fe_crc = sum_crc, fe_serialize = name_ser, fe_engine = sim_engine unit_rng,
     fe_fd_sync = (\<lambda>_ _ fs. (Inl Other, fs)), fe_batch_hint = 2, fe_sync_mode = Full\<rparr>"

definition name_recovery :: "unit recovery_env" where
  "name_recovery = \<lparr>re_crc = sum_crc, re_deser = name_deser, re_order = (\<lambda>xs. xs), re_rng = unit_rng\<rparr>"

definition name_events :: "(string, bytes) flusher_event list" where
  "name_events = [Received (Entry (Insert 7 0 ''k'' [9])), Received (CommitBarrier (Commit 7 0) 0), Timed_Out]"

theorem harness_passes_without_faults_witness:
  "\<exists>sim (w :: (string, bytes, unit sim_fs) wal) fs envls s.
     simulator_new (\<lambda>_. ()) 42 fault_none (wal_config_new [''wal'']) = Inr sim \<and>
     wal_open (sim_engine unit_rng) (wal_config_new [''wal'']) (si_io sim) = Inr (Inr w, fs) \<and>
     flusher_run name_env name_events (wl_flusher w) = Inr (envls, s) \<and>
     (\<forall>oc. oracle_wf oc \<longrightarrow> writers_protocol envls \<longrightarrow>
        set (committed_tx_ids oc) = acknowledged envls (fl_notified s) \<longrightarrow>
        (\<exists>rs. fst (crash_recover_verify name_recovery (sim\<lparr>si_io := fl_fs s, si_oracle := oc\<rparr>)) = Inr rs))"
proof -
  have E: "re_rng name_recovery = unit_rng" "hash_set_order (re_order name_recovery)" "re_crc name_recovery = fe_crc name_env"
    by (simp_all add: name_recovery_def name_env_def hash_set_order_id)
  have P: "syncs_inline name_env (re_rng name_recovery)" by (simp add: syncs_inline_def name_env_def E(1))
  have "\<exists>rc. config_new (wc_ring_bits (wal_config_new [''wal''])) (wc_max_writers (wal_config_new [''wal'']))
      (wc_enable_metrics (wal_config_new [''wal''])) = Inr rc"
    by (simp add: wal_config_new_def config_new_def)
  then obtain rc where rc: "config_new (wc_ring_bits (wal_config_new [''wal''])) (wc_max_writers (wal_config_new [''wal'']))
      (wc_enable_metrics (wal_config_new [''wal''])) = Inr rc" by blast
  have evs: "\<forall>envl\<in>set (concat (map event_envelopes name_events)).
      \<exists>d. fe_serialize name_env (envelope_entry envl) = Some d \<and> re_deser name_recovery d = Some (envelope_entry envl)"
    by (simp add: name_events_def name_env_def name_recovery_def)
  have "length (frames (fe_crc name_env) (data_bytes name_env (concat (map event_envelopes name_events)))) < 2 ^ 64"
    by (simp add: name_events_def name_env_def data_bytes_def frames_def HEADER_SIZE_def)
  from harness_passes_without_faults [OF _ E(2) P E(3) rc evs this, of "\<lambda>_. ()" 42] show ?thesis
    unfolding E(1) by (simp add: wal_config_new_def)
qed

end
