(* ===== verification/Wal_Workload.thy ===== *)
theory Wal_Workload
  imports Wal_System Wal_Sim
begin

text \<open>
  The random workload of the simulator (\<open>run_workload\<close> of \<open>harness.rs\<close>): it opens the log on the simulated
  engine, draws actions from a seeded generator, registers writers, commits and aborts transactions,
  records the acknowledged commits in the oracle and shuts the log down.  It runs on the system of theory
  \<open>Wal_System\<close>; what the flusher does while the driver awaits is an argument, and a driver that still
  awaits when it is used up is a possible outcome, at which the process may crash.
\<close>

section \<open>Awaiting a call\<close>

text \<open>How the call of task \<open>j\<close> has ended, if it has.\<close>

definition call_result :: "nat \<Rightarrow> ('k, 'v, 'fs) wal_system \<Rightarrow> (wal_error + unit) option" where
  "call_result j s =
     (let t = sy_tasks s ! j
      in if tk_refused t then Some (Inl WalClosed)
         else if tk_left t \<noteq> [] then None
         else case tk_end t of
                Entry _ \<Rightarrow> Some (Inr ())
              | CommitBarrier _ w \<Rightarrow>
                  if w \<in> set (fl_notified (sy_flusher s)) then Some (Inr ())
                  else if w \<in> set (fl_dropped (sy_flusher s)) then Some (Inl WalClosed) else None)"

text \<open>
  What can happen while the driver awaits call \<open>j\<close>, and while it awaits the shutdown.  The driver sees the
  result when it is polled again: with the list used up it is still suspended, even if the result is there.
\<close>

fun is_meanwhile :: "nat \<Rightarrow> ('k, 'v) sys_act \<Rightarrow> bool" where
  "is_meanwhile j (Sys_Send i) = (i = j)"
| "is_meanwhile j (Sys_Poll d t) = True"
| "is_meanwhile j Sys_Timeout = True"
| "is_meanwhile j a = False"

fun is_flusher_act :: "('k, 'v) sys_act \<Rightarrow> bool" where
  "is_flusher_act (Sys_Poll d t) = True"
| "is_flusher_act Sys_Timeout = True"
| "is_flusher_act Sys_Shutdown_Seen = True"
| "is_flusher_act a = False"

fun await_call ::
    "('k, 'v, 'fs) flusher_env \<Rightarrow> nat \<Rightarrow> ('k, 'v) sys_act list \<Rightarrow> ('k, 'v, 'fs) wal_system \<Rightarrow>
     fault + (wal_error + unit) option \<times> ('k, 'v, 'fs) wal_system" where
  "await_call P j [] s = Inr (None, s)"
| "await_call P j (a # sched) s =
     (case call_result j s of
        Some r \<Rightarrow> Inr (Some r, s)
      | None \<Rightarrow> if is_meanwhile j a then try_bind (sys_step P a s) (await_call P j sched) else await_call P j sched s)"

fun await_stop ::
    "('k, 'v, 'fs) flusher_env \<Rightarrow> ('k, 'v) sys_act list \<Rightarrow> ('k, 'v, 'fs) wal_system \<Rightarrow> fault + bool \<times> ('k, 'v, 'fs) wal_system" where
  "await_stop P [] s = Inr (False, s)"
| "await_stop P (a # sched) s =
     (if fl_stopped (sy_flusher s) then Inr (True, s)
      else if is_flusher_act a then try_bind (sys_step P a s) (await_stop P sched) else await_stop P sched s)"

section \<open>The driver\<close>

record workload_stats =
  ws_steps_executed :: nat
  ws_commits :: nat
  ws_aborts :: nat
  ws_fault_errors :: nat
  ws_writers_registered :: nat
  ws_aborted_tx_ids :: "u64 list"

definition stats_zero :: workload_stats where
  "stats_zero = \<lparr>ws_steps_executed = 0, ws_commits = 0, ws_aborts = 0, ws_fault_errors = 0, ws_writers_registered = 0,
     ws_aborted_tx_ids = []\<rparr>"

record 'g workload =
  wk_sys :: "(string, bytes, 'g sim_fs) wal_system"
  wk_rng :: 'g
  wk_oracle :: "(string, bytes) commit_oracle"
  wk_writers :: "usize list"
  wk_stats :: workload_stats

text \<open>
  The parameters: checksum, encoder, syncing a duplicated descriptor, the generator, and the timestamps
  of the entries and markers of a transaction.
\<close>

record 'g workload_env =
  we_crc :: "bytes \<Rightarrow> u32"
  we_serialize :: "(string, bytes) wal_entry \<Rightarrow> bytes option"
  we_fd_sync :: "bool \<Rightarrow> path \<Rightarrow> 'g sim_fs \<Rightarrow> (io_error + unit) \<times> 'g sim_fs"
  we_rng :: "'g rng_ops"
  we_now :: "u64 \<Rightarrow> nat \<Rightarrow> u64"

definition we_flusher :: "'g workload_env \<Rightarrow> wal_config \<Rightarrow> (string, bytes, 'g sim_fs) flusher_env" where
  "we_flusher W c = wal_env (we_crc W) (we_serialize W) (sim_engine (we_rng W)) (we_fd_sync W) c"

text \<open>A step goes on or ends the workload; or the driver is still suspended.\<close>

datatype flow = Go_On | Returned "wal_error + workload_stats" | Suspended

definition count_stats :: "(workload_stats \<Rightarrow> workload_stats) \<Rightarrow> 'g workload \<Rightarrow> 'g workload" where
  "count_stats f w = w\<lparr>wk_stats := f (wk_stats w)\<rparr>"

definition steps_executed :: "nat \<Rightarrow> 'g workload \<Rightarrow> 'g workload" where
  "steps_executed n = count_stats (\<lambda>st. st\<lparr>ws_steps_executed := n\<rparr>)"

definition one_fault_error :: "'g workload \<Rightarrow> 'g workload" where
  "one_fault_error = count_stats (\<lambda>st. st\<lparr>ws_fault_errors := ws_fault_errors st + 1\<rparr>)"

definition workload_register :: "'g workload \<Rightarrow> fault + (wal_error + unit) \<times> 'g workload" where
  "workload_register w =
     (let s = wk_sys w; str = sy_stream s
      in try_bind (writer_register (sr_stream str)) (\<lambda>(res, st).
           let w1 = w\<lparr>wk_sys := s\<lparr>sy_stream := str\<lparr>sr_stream := st\<rparr>\<rparr>\<rparr>
           in Inr (case res of
                     Inl e \<Rightarrow> (Inl e, w1)
                   | Inr i \<Rightarrow>
                       (Inr (), count_stats (\<lambda>st. st\<lparr>ws_writers_registered := ws_writers_registered st + 1\<rparr>)
                          (w1\<lparr>wk_writers := wk_writers w1 @ [i]\<rparr>)))))"

text \<open>\<open>wal.shutdown().await\<close>, whose result the driver ignores, and the return.\<close>

definition workload_stop ::
    "(string, bytes, 'g sim_fs) flusher_env \<Rightarrow> (string, bytes) sys_act list \<Rightarrow> 'g workload \<Rightarrow> fault + flow \<times> 'g workload" where
  "workload_stop P closing w =
     try_bind (sys_step P Sys_Shutdown (wk_sys w)) (\<lambda>s.
       try_bind (await_stop P closing s) (\<lambda>(stopped, s1).
         Inr (if stopped then Returned (Inr (wk_stats w)) else Suspended, w\<lparr>wk_sys := s1\<rparr>)))"

text \<open>The result of an awaited \<open>commit\<close> or \<open>abort\<close>: \<open>ok\<close> counts a success.\<close>

definition after_call ::
    "(string, bytes, 'g sim_fs) flusher_env \<Rightarrow> (string, bytes) sys_act list \<Rightarrow> nat \<Rightarrow> ('g workload \<Rightarrow> 'g workload) \<Rightarrow>
     (wal_error + unit) option \<Rightarrow> 'g workload \<Rightarrow> fault + flow \<times> 'g workload" where
  "after_call P closing step ok res w =
     (case res of
        None \<Rightarrow> Inr (Suspended, w)
      | Some (Inr _) \<Rightarrow> Inr (Go_On, steps_executed (Suc step) (ok w))
      | Some (Inl (Io _)) \<Rightarrow> Inr (Go_On, steps_executed (Suc step) (one_fault_error w))
      | Some (Inl _) \<Rightarrow> workload_stop P closing (steps_executed (Suc step) (one_fault_error w)))"

definition ascii_bytes :: "string \<Rightarrow> bytes" where
  "ascii_bytes s = map of_char s"

definition commit_item :: "u64 \<Rightarrow> nat \<Rightarrow> string \<times> bytes" where
  "commit_item c e =
     (''k-'' @ decimal (unat c) @ ''-'' @ decimal e, ascii_bytes (''v-'' @ decimal (unat c) @ ''-'' @ decimal e))"

definition abort_item :: "nat \<Rightarrow> string \<times> bytes" where
  "abort_item e = (''abort-k-'' @ decimal e, ascii_bytes (''abort-v-'' @ decimal e))"

definition insert_ops :: "(nat \<Rightarrow> u64) \<Rightarrow> (string \<times> bytes) list \<Rightarrow> (string, bytes) tx_op list" where
  "insert_ops now items = map (\<lambda>(e, (key, v)). Do_Insert (now e) key v) (enumerate 0 items)"

text \<open>
  \<open>Transaction::new\<close> to the end of the await, on a random writer.  \<open>gen_range\<close> draws between two bounds,
  both included.
\<close>

definition workload_commit ::
    "'g workload_env \<Rightarrow> wal_config \<Rightarrow> (string, bytes) sys_act list \<Rightarrow> (string, bytes) sys_act list \<Rightarrow> nat \<Rightarrow> 'g workload \<Rightarrow>
     fault + flow \<times> 'g workload" where
  "workload_commit W cfg sched closing step w =
     (let P = we_flusher W cfg; s = wk_sys w; c = sy_next_tx s;
          (idx, g1) = gen_range (we_rng W) 0 (length (wk_writers w) - 1) (wk_rng w);
          (k, g2) = gen_range (we_rng W) 1 5 g1;
          entries = map (commit_item c) [0..<k]
      in if length (wk_writers w) \<le> idx then Inl Out_Of_Bounds
         else try_bind (sys_step P (Sys_Commit (wk_writers w ! idx) (insert_ops (we_now W c) entries) (we_now W c k)) s) (\<lambda>s1.
                try_bind (await_call P (length (sy_tasks s)) sched s1) (\<lambda>(res, s2).
                  after_call P closing step
                    (\<lambda>w. count_stats (\<lambda>st. st\<lparr>ws_commits := ws_commits st + 1\<rparr>) (w\<lparr>wk_oracle := record_commit c entries (wk_oracle w)\<rparr>))
                    res (w\<lparr>wk_sys := s2, wk_rng := g2\<rparr>))))"

definition workload_abort ::
    "'g workload_env \<Rightarrow> wal_config \<Rightarrow> (string, bytes) sys_act list \<Rightarrow> (string, bytes) sys_act list \<Rightarrow> nat \<Rightarrow> 'g workload \<Rightarrow>
     fault + flow \<times> 'g workload" where
  "workload_abort W cfg sched closing step w =
     (let P = we_flusher W cfg; s = wk_sys w; c = sy_next_tx s;
          (idx, g1) = gen_range (we_rng W) 0 (length (wk_writers w) - 1) (wk_rng w);
          (k, g2) = gen_range (we_rng W) 1 3 g1
      in if length (wk_writers w) \<le> idx then Inl Out_Of_Bounds
         else try_bind (sys_step P (Sys_Abort (wk_writers w ! idx) (insert_ops (we_now W c) (map abort_item [0..<k])) (we_now W c k)) s) (\<lambda>s1.
                try_bind (await_call P (length (sy_tasks s)) sched s1) (\<lambda>(res, s2).
                  after_call P closing step
                    (count_stats (\<lambda>st. st\<lparr>ws_aborts := ws_aborts st + 1, ws_aborted_tx_ids := ws_aborted_tx_ids st @ [c]\<rparr>))
                    res (w\<lparr>wk_sys := s2, wk_rng := g2\<rparr>))))"

definition workload_advance :: "u64 \<Rightarrow> 'g workload \<Rightarrow> 'g workload" where
  "workload_advance delta w =
     (let s = wk_sys w; fl = sy_flusher s; fs = fl_fs fl
      in w\<lparr>wk_sys := s\<lparr>sy_flusher := fl\<lparr>fl_fs := fs\<lparr>fs_clock := clock_advance delta (fs_clock fs)\<rparr>\<rparr>\<rparr>\<rparr>)"

text \<open>One iteration.  The \<open>continue\<close> of an abort without writers leaves the step uncounted.\<close>

definition workload_step ::
    "'g workload_env \<Rightarrow> wal_config \<Rightarrow> (string, bytes) sys_act list \<Rightarrow> (string, bytes) sys_act list \<Rightarrow> nat \<Rightarrow> 'g workload \<Rightarrow>
     fault + flow \<times> 'g workload" where
  "workload_step W cfg sched closing step w0 =
     (let (action, g) = gen_range (we_rng W) 0 99 (wk_rng w0); w = w0\<lparr>wk_rng := g\<rparr>
      in if action \<le> 14 then
           try_bind (if length (wk_writers w) < unat (wc_max_writers cfg)
                     then try_bind (workload_register w) (\<lambda>(res, w1). Inr (case res of Inl _ \<Rightarrow> one_fault_error w1 | Inr _ \<Rightarrow> w1))
                     else Inr w) (\<lambda>w1.
             if wk_writers w1 = []
             then try_bind (workload_register w1) (\<lambda>(res, w2). Inr (case res of
                    Inl e \<Rightarrow> (Returned (Inl e), w2) | Inr _ \<Rightarrow> (Go_On, steps_executed (Suc step) w2)))
             else Inr (Go_On, steps_executed (Suc step) w1))
         else if action \<le> 79 then
           (if wk_writers w = []
            then try_bind (workload_register w) (\<lambda>(res, w1).
                   case res of Inl e \<Rightarrow> Inr (Returned (Inl e), w1) | Inr _ \<Rightarrow> workload_commit W cfg sched closing step w1)
            else workload_commit W cfg sched closing step w)
         else if action \<le> 89 then
           (if wk_writers w = [] then Inr (Go_On, w) else workload_abort W cfg sched closing step w)
         else if action \<le> 99 then
           (let (delta, g1) = gen_range (we_rng W) 1 60 (wk_rng w)
            in Inr (Go_On, steps_executed (Suc step) (workload_advance (of_nat delta) (w\<lparr>wk_rng := g1\<rparr>))))
         else Inl Panicked)"

text \<open>\<open>scheds i\<close> is what happens while step \<open>i\<close> awaits, \<open>closing\<close> what happens during the shutdown.\<close>

fun workload_loop ::
    "'g workload_env \<Rightarrow> wal_config \<Rightarrow> (nat \<Rightarrow> (string, bytes) sys_act list) \<Rightarrow> (string, bytes) sys_act list \<Rightarrow> nat \<Rightarrow> nat \<Rightarrow>
     'g workload \<Rightarrow> fault + flow \<times> 'g workload" where
  "workload_loop W cfg scheds closing step 0 w = workload_stop (we_flusher W cfg) closing w"
| "workload_loop W cfg scheds closing step (Suc n) w =
     try_bind (workload_step W cfg (scheds step) closing step w) (\<lambda>(flow, w1).
       case flow of Go_On \<Rightarrow> workload_loop W cfg scheds closing (Suc step) n w1 | _ \<Rightarrow> Inr (flow, w1))"

text \<open>The locals of the driver after the log is open, and what it leaves to the simulator.\<close>

definition workload_start :: "(string, bytes, 'g sim_fs) wal_system \<Rightarrow> 'g simulator \<Rightarrow> 'g workload" where
  "workload_start s sim =
     \<lparr>wk_sys = s, wk_rng = si_rng sim, wk_oracle = si_oracle sim, wk_writers = [], wk_stats = stats_zero\<rparr>"

definition workload_end :: "'g workload \<Rightarrow> 'g simulator \<Rightarrow> 'g simulator" where
  "workload_end w sim = sim\<lparr>si_io := fl_fs (sy_flusher (wk_sys w)), si_oracle := wk_oracle w, si_rng := wk_rng w\<rparr>"

text \<open>\<open>next_id\<close> is the value of the global transaction counter.\<close>

definition run_workload ::
    "'g workload_env \<Rightarrow> u64 \<Rightarrow> (nat \<Rightarrow> (string, bytes) sys_act list) \<Rightarrow> (string, bytes) sys_act list \<Rightarrow> nat \<Rightarrow> 'g simulator \<Rightarrow>
     fault + flow \<times> 'g simulator" where
  "run_workload W next_id scheds closing steps sim =
     try_bind (sys_open (sim_engine (we_rng W)) (si_wal_config sim) next_id (si_io sim)) (\<lambda>(res, fs).
       case res of
         Inl e \<Rightarrow> Inr (Returned (Inl e), sim\<lparr>si_io := fs\<rparr>)
       | Inr s \<Rightarrow>
           try_bind (workload_loop W (si_wal_config sim) scheds closing 0 steps (workload_start s sim)) (\<lambda>(flow, w).
             Inr (flow, workload_end w sim)))"

section \<open>What an await leaves\<close>

text \<open>A task that has something left, or was refused, has not got its marker accepted.\<close>

lemma unsent_not_accepted:
  assumes ok: "tasks_ok n acc tks" and j: "tk_left (tks ! j) \<noteq> [] \<or> tk_refused (tks ! j)"
  shows "CommitBarrier e j \<notin> snd ` set acc"
proof
  assume b: "CommitBarrier e j \<in> snd ` set acc"
  from barrier_of_task [OF ok this] have t: "j < length tks" "tk_end (tks ! j) = CommitBarrier e j" by auto
  have wf: "task_wf j (tks ! j)" using ok t(1) by (simp add: tasks_ok_def)
  have mine: "tx_id e = tk_tx (tks ! j)" using script_tx [OF wf, of "tk_end (tks ! j)"] t(2) by (simp add: tk_script_def)
  obtain k where k: "of_tx (tk_tx (tks ! j)) (map snd acc) = take k (tk_script (tks ! j))" "k < length (tk_script (tks ! j))"
    using ok t(1) j by (auto simp: tasks_ok_def task_sent_def split: if_splits)
  have "CommitBarrier e j \<in> set (of_tx (tk_tx (tks ! j)) (map snd acc))" using b mine by (auto simp: of_tx_def)
  then have "CommitBarrier e j \<in> set (take k (map Entry (tk_data (tks ! j))))"
    unfolding k(1) using k(2) by (simp add: tk_script_def)
  then show False by (auto dest: in_set_takeD)
qed

text \<open>The waiters that were notified only become more.\<close>

lemma flush_batch_notified: "flush_batch P fl = Inr fl' \<Longrightarrow> set (fl_notified fl) \<subseteq> set (fl_notified fl')"
  by (auto simp: flush_batch_def dedicated_flush_def pipelined_flush_def hand_over_def flush_and_notify_def notify_if_def
      notify_all_def drop_all_def Let_def split: if_splits prod.splits sum.splits sync_mode.splits)

lemma collect_envelope_notified [simp]: "fl_notified (collect_envelope P envl fl) = fl_notified fl"
  by (cases envl) (simp_all add: collect_envelope_def collect_data_def Let_def split: option.splits)

lemma end_batch_notified:
  assumes "end_batch P fl = Inr fl' \<or> stop_task P fl = Inr fl'"
  shows "set (fl_notified fl) \<subseteq> set (fl_notified fl')"
proof -
  obtain fl1 where "flush_batch P fl = Inr fl1" "fl_notified fl' = fl_notified fl1"
    using assms by (auto simp: end_batch_def stop_task_def try_bind_Inr_iff)
  then show ?thesis using flush_batch_notified by metis
qed

lemma flusher_takes_notified:
  assumes "flusher_takes P draining res fl = Inr fl'"
  shows "set (fl_notified fl) \<subseteq> set (fl_notified fl')"
proof (cases "\<exists>i envl. res = Ready (Some (i, envl)) \<and> \<not> draining")
  case True
  then obtain envl where "flusher_step P (Received envl) fl = Inr fl'" using assms by (auto simp: flusher_takes_def)
  moreover define t where "t = (collect_envelope P envl fl)\<lparr>fl_drained := fl_drained (collect_envelope P envl fl) + 1\<rparr>"
  ultimately have "fl' = t \<or> end_batch P t = Inr fl'" unfolding flusher_step.simps Let_def t_def [symmetric] by (auto split: if_splits)
  moreover have "fl_notified t = fl_notified fl" by (simp add: t_def)
  ultimately show ?thesis using end_batch_notified [of P t fl'] by (metis order_refl)
next
  case False
  then show ?thesis using assms end_batch_notified [of P fl fl']
    by (auto simp: flusher_takes_def split: poll.splits option.splits)
qed

text \<open>
  The acknowledged calls are those in \<open>N\<close>, and besides them only the calls in \<open>J\<close> may have got their
  markers accepted.
\<close>

definition pending_only :: "nat set \<Rightarrow> nat set \<Rightarrow> ('k, 'v, 'fs) wal_system \<Rightarrow> bool" where
  "pending_only J N s \<longleftrightarrow>
     N \<subseteq> set (fl_notified (sy_flusher s)) \<and>
     (\<forall>e i. CommitBarrier e i \<in> snd ` set (sr_accepted (sy_stream s)) \<longrightarrow> i \<in> N \<union> J)"

lemma pending_only_notified:
  assumes "sys_inv P dir n s" "pending_only J N s"
  shows "N \<subseteq> set (fl_notified (sy_flusher s))" "set (fl_notified (sy_flusher s)) \<subseteq> N \<union> J"
  using assms notified_accepted [OF assms(1)] by (fastforce simp: pending_only_def)+

lemma task_send_accepted:
  assumes "task_send j s = Inr s'"
  shows "sy_flusher s' = sy_flusher s \<and>
    (sr_accepted (sy_stream s') = sr_accepted (sy_stream s) \<or>
     (\<exists>envl rest. tk_left (sy_tasks s ! j) = envl # rest \<and>
        sr_accepted (sy_stream s') = sr_accepted (sy_stream s) @ [(tk_writer (sy_tasks s ! j), envl)]))"
proof (cases "tk_left (sy_tasks s ! j)")
  case Nil
  then show ?thesis using assms by (simp add: task_send_def Let_def)
next
  case (Cons envl rest)
  with assms show ?thesis by (auto simp: task_send_def Let_def try_bind_Inr_iff split: if_splits)
qed

lemma pending_only_quiet:
  assumes "pending_only J N s" "sr_accepted (sy_stream s') = sr_accepted (sy_stream s)"
    and "set (fl_notified (sy_flusher s)) \<subseteq> set (fl_notified (sy_flusher s'))"
  shows "pending_only J N s'"
  using assms(1) subset_trans [OF _ assms(3)] unfolding pending_only_def assms(2) by blast

text \<open>Only the awaited call sends.\<close>

lemma meanwhile_pending:
  assumes inv: "sys_inv P dir n s" and step: "sys_step P a s = Inr s'" and pend: "pending_only J N s"
    and act: "is_flusher_act a \<or> is_meanwhile j a \<and> j \<in> J"
  shows "pending_only J N s'"
proof (cases a)
  case (Sys_Send i)
  with act have i: "i = j" "j \<in> J" by auto
  show ?thesis
  proof (cases "s' = s")
    case False
    with step Sys_Send have st: "j < length (sy_tasks s)" "task_send j s = Inr s'" by (auto simp: i split: if_splits)
    have t: "task_wf j (sy_tasks s ! j)" "task_sent (map snd (sr_accepted (sy_stream s))) (sy_tasks s ! j)"
      using inv st(1) by (auto simp: sys_inv_def tasks_ok_def)
    have mine: "w = j" if left: "tk_left (sy_tasks s ! j) = CommitBarrier e w # rest" for e w rest
    proof -
      obtain k where "tk_left (sy_tasks s ! j) = drop k (tk_script (sy_tasks s ! j))"
        using t(2) left by (auto simp: task_sent_def split: if_splits)
      then have "CommitBarrier e w \<in> set (drop k (tk_script (sy_tasks s ! j)))" using left by (metis list.set_intros(1))
      then have "CommitBarrier e w \<in> set (tk_script (sy_tasks s ! j))" by (rule in_set_dropD)
      then show ?thesis using t(1) by (auto simp: tk_script_def task_wf_def)
    qed
    have "w \<in> N \<union> J" if b: "CommitBarrier e w \<in> snd ` set (sr_accepted (sy_stream s'))" for e w
    proof (cases "CommitBarrier e w \<in> snd ` set (sr_accepted (sy_stream s))")
      case True
      with pend show ?thesis unfolding pending_only_def by blast
    next
      case False
      have "snd ` set (sr_accepted (sy_stream s')) = snd ` set (sr_accepted (sy_stream s)) \<or>
          (\<exists>envl rest. tk_left (sy_tasks s ! j) = envl # rest \<and>
             snd ` set (sr_accepted (sy_stream s')) = insert envl (snd ` set (sr_accepted (sy_stream s))))"
        using task_send_accepted [OF st(2)] by (elim conjE disjE exE) simp_all
      then have "\<exists>rest. tk_left (sy_tasks s ! j) = CommitBarrier e w # rest" using b False by (metis insertE)
      then obtain rest where "tk_left (sy_tasks s ! j) = CommitBarrier e w # rest" by blast
      from mine [OF this] i(2) show ?thesis by simp
    qed
    then show ?thesis using pend task_send_accepted [OF st(2)] unfolding pending_only_def by metis
  qed (use pend in simp)
next
  case (Sys_Poll d t)
  with step show ?thesis
    by (intro pending_only_quiet [OF pend])
      (auto simp: flusher_polls_def Let_def try_bind_Inr_iff split: if_splits dest!: flusher_takes_notified)
next
  case Sys_Timeout
  with step show ?thesis
    by (intro pending_only_quiet [OF pend]) (auto simp: try_bind_Inr_iff split: if_splits dest!: end_batch_notified [OF disjI1])
next
  case Sys_Shutdown_Seen
  with step show ?thesis by (intro pending_only_quiet [OF pend]) (auto split: if_splits)
qed (use act in auto)

lemma meanwhile_no_call: "is_flusher_act a \<or> is_meanwhile j a \<Longrightarrow> tx_calls [a] = []"
  by (cases a) (auto simp: tx_calls_def)

lemma sys_room_mono: "sys_room m s \<Longrightarrow> k \<le> m \<Longrightarrow> sys_room k s"
  by (simp add: sys_room_def)

text \<open>The state a driver is in: the invariant, the calls so far, what is acknowledged and what is pending.\<close>

definition sys_at ::
    "(string, bytes, 'g sim_fs) flusher_env \<Rightarrow> path \<Rightarrow> u64 \<Rightarrow> nat \<Rightarrow> (string, bytes) sys_act list \<Rightarrow> nat set \<Rightarrow> nat set \<Rightarrow>
     (string, bytes, 'g sim_fs) wal_system \<Rightarrow> bool" where
  "sys_at P dir n m calls J N s \<longleftrightarrow>
     sys_inv P dir n s \<and> sys_room m s \<and> tasks_of calls (sy_tasks s) \<and> pending_only J N s"

lemma sys_at_mono: "sys_at P dir n m calls J N s \<Longrightarrow> k \<le> m \<Longrightarrow> sys_at P dir n k calls J N s"
  by (auto simp: sys_at_def intro: sys_room_mono)

lemma sys_at_step:
  assumes P: "syncs_inline P ops" "\<forall>e. fe_serialize P e \<noteq> None" and s: "sys_at P dir n (Suc m) calls J N s"
    and act: "is_flusher_act a \<or> is_meanwhile j a \<and> j \<in> J"
  shows "\<exists>s'. sys_step P a s = Inr s' \<and> sys_at P dir n m calls J N s'"
proof -
  obtain s' where s': "sys_step P a s = Inr s'" "sys_inv P dir n s'" "sys_room m s'"
    using sim_log.sys_step_ok [OF P, of dir n s m a] s by (auto simp: sys_at_def)
  have "tasks_of calls (sy_tasks s')" using sys_step_tasks [OF s'(1), of calls] meanwhile_no_call [of a j] act s by (auto simp: sys_at_def)
  then show ?thesis using s' meanwhile_pending [OF _ s'(1) _ act] s by (auto simp: sys_at_def)
qed

lemma await_call_at:
  assumes P: "syncs_inline P ops" "\<forall>e. fe_serialize P e \<noteq> None" and s: "sys_at P dir n (length sched + m) calls {j} N s"
  shows "\<exists>res s'. await_call P j sched s = Inr (res, s') \<and> (res = None \<or> res = call_result j s') \<and> sys_at P dir n m calls {j} N s'"
  using s
proof (induction sched arbitrary: s)
  case (Cons a sched)
  note keep = sys_at_mono [OF Cons.prems]
  show ?case
  proof (cases "call_result j s")
    case None
    show ?thesis
    proof (cases "is_meanwhile j a")
      case True
      then obtain s1 where "sys_step P a s = Inr s1" "sys_at P dir n (length sched + m) calls {j} N s1"
        using sys_at_step [OF P, of dir n "length sched + m" calls "{j}" N s a j] Cons.prems by auto
      with Cons.IH [OF this(2)] None True show ?thesis by simp
    next
      case False
      with Cons.IH [of s] keep None show ?thesis by simp
    qed
  qed (use keep in auto)
qed simp

lemma await_stop_at:
  assumes P: "syncs_inline P ops" "\<forall>e. fe_serialize P e \<noteq> None" and s: "sys_at P dir n (length sched + m) calls J N s"
  shows "\<exists>b s'. await_stop P sched s = Inr (b, s') \<and> sys_at P dir n m calls J N s'"
  using s
proof (induction sched arbitrary: s)
  case (Cons a sched)
  note keep = sys_at_mono [OF Cons.prems]
  show ?case
  proof (cases "\<not> fl_stopped (sy_flusher s) \<and> is_flusher_act a")
    case True
    then obtain s1 where "sys_step P a s = Inr s1" "sys_at P dir n (length sched + m) calls J N s1"
      using sys_at_step [OF P, of dir n "length sched + m" calls J N s a] Cons.prems by auto
    with Cons.IH [OF this(2)] True show ?thesis by simp
  next
    case False
    with Cons.IH [of s] keep show ?thesis by (cases "fl_stopped (sy_flusher s)") auto
  qed
qed auto

text \<open>A call that sent no marker leaves nothing pending.\<close>

lemma settle_none:
  assumes s: "sys_at P dir n m calls {j} N s" and none: "\<And>e. CommitBarrier e j \<notin> snd ` set (sr_accepted (sy_stream s))"
  shows "set (fl_notified (sy_flusher s)) = N \<and> sys_at P dir n m calls {} N s"
proof -
  have inv: "sys_inv P dir n s" "pending_only {j} N s" using s by (simp_all add: sys_at_def)
  have "j \<in> N \<or> j \<notin> set (fl_notified (sy_flusher s))" using notified_accepted [OF inv(1)] none by blast
  then have "set (fl_notified (sy_flusher s)) = N" using pending_only_notified [OF inv] by blast
  moreover have "pending_only {} N s" unfolding pending_only_def
  proof (intro conjI allI impI)
    show "N \<subseteq> set (fl_notified (sy_flusher s))" using inv(2) by (simp add: pending_only_def)
    show "i \<in> N \<union> {}" if "CommitBarrier e i \<in> snd ` set (sr_accepted (sy_stream s))" for e i
      using inv(2) that none unfolding pending_only_def by (metis Un_empty_right UnE singletonD)
  qed
  ultimately show ?thesis using s by (simp add: sys_at_def)
qed

text \<open>
  The outcome of an awaited call: an acknowledged commit is settled with its waiter notified; a refused
  one is settled without.
\<close>

lemma commit_settled:
  assumes s: "sys_at P dir n m calls {j} N s" and j: "j < length calls" "calls ! j = Sys_Commit i ops ts"
  shows "case call_result j s of
      None \<Rightarrow> True
    | Some (Inl e) \<Rightarrow> e = WalClosed \<and> sys_at P dir n m calls {} N s
    | Some (Inr _) \<Rightarrow> sys_at P dir n m calls {} (insert j N) s"
proof -
  let ?t = "sy_tasks s ! j"
  have inv: "sys_inv P dir n s" "pending_only {j} N s" and tasks: "tasks_ok n (sr_accepted (sy_stream s)) (sy_tasks s)"
    "tasks_of calls (sy_tasks s)" using s by (simp_all add: sys_at_def sys_inv_def)
  then have e: "tk_end ?t = CommitBarrier (Commit (tk_tx ?t) ts) j" using j by (auto simp: tasks_of_def)
  have dropped: "fl_dropped (sy_flusher s) = []" using inv(1) unfolding sys_inv_def by (auto elim: flusher_invE)
  show ?thesis
  proof (cases "tk_left ?t \<noteq> [] \<or> tk_refused ?t")
    case True
    from settle_none [OF s unsent_not_accepted [OF tasks(1) this]] show ?thesis using True
      by (cases "tk_refused ?t") (simp_all add: call_result_def Let_def)
  next
    case False
    show ?thesis
    proof (cases "j \<in> set (fl_notified (sy_flusher s))")
      case True
      have "pending_only {} (insert j N) s" using inv(2) True unfolding pending_only_def by simp
      then show ?thesis using True False e s by (simp add: call_result_def Let_def sys_at_def)
    next
      case not: False
      then show ?thesis using \<open>\<not> (tk_left ?t \<noteq> [] \<or> tk_refused ?t)\<close> e dropped by (simp add: call_result_def Let_def)
    qed
  qed
qed

lemma abort_settled:
  assumes s: "sys_at P dir n m calls {j} N s" and j: "j < length calls" "calls ! j = Sys_Abort i ops ts"
  shows "set (fl_notified (sy_flusher s)) = N \<and> sys_at P dir n m calls {} N s \<and> (\<forall>e. call_result j s = Some (Inl e) \<longrightarrow> e = WalClosed)"
proof -
  have tasks: "tasks_ok n (sr_accepted (sy_stream s)) (sy_tasks s)" "tasks_of calls (sy_tasks s)"
    using s by (simp_all add: sys_at_def sys_inv_def)
  then have e: "tk_end (sy_tasks s ! j) = Entry (Abort (tk_tx (sy_tasks s ! j)) ts)" using j by (auto simp: tasks_of_def)
  have "CommitBarrier e' j \<notin> snd ` set (sr_accepted (sy_stream s))" for e'
    using barrier_of_task [OF tasks(1), of e' j] e by auto
  then show ?thesis using settle_none [OF s] e by (auto simp: call_result_def Let_def split: if_splits)
qed

section \<open>The driver keeps the oracle right\<close>

definition oracle_ok :: "u64 \<Rightarrow> nat set \<Rightarrow> ('k, 'v) commit_oracle \<Rightarrow> bool" where
  "oracle_ok n N oc \<longleftrightarrow> oracle_wf oc \<and> set (committed_tx_ids oc) = (\<lambda>j. n + of_nat j) ` N"

lemma oracle_ok_record: "oracle_ok n N oc \<Longrightarrow> oracle_ok n (insert j N) (record_commit (n + of_nat j) es oc)"
  by (auto simp: oracle_ok_def oracle_wf_ops) (auto simp: committed_tx_ids_def record_commit_def update_keys split: if_splits)

text \<open>
  Between two steps nothing is pending; when the driver stops, acknowledged and recorded commits agree.  A
  driver that is cut off in an await may not have recorded the one commit it was waiting for.
\<close>

definition workload_at :: "(string, bytes, 'g sim_fs) flusher_env \<Rightarrow> path \<Rightarrow> u64 \<Rightarrow> nat \<Rightarrow> 'g workload \<Rightarrow> bool" where
  "workload_at P dir n m w \<longleftrightarrow> (\<exists>calls N. sys_at P dir n m calls {} N (wk_sys w) \<and> oracle_ok n N (wk_oracle w))"

definition workload_over :: "(string, bytes, 'g sim_fs) flusher_env \<Rightarrow> path \<Rightarrow> u64 \<Rightarrow> 'g workload \<Rightarrow> bool" where
  "workload_over P dir n w \<longleftrightarrow>
     (\<exists>calls. sys_inv P dir n (wk_sys w) \<and> sys_room 0 (wk_sys w) \<and> tasks_of calls (sy_tasks (wk_sys w)) \<and>
        oracle_ok n (set (fl_notified (sy_flusher (wk_sys w)))) (wk_oracle w))"

definition workload_cut :: "(string, bytes, 'g sim_fs) flusher_env \<Rightarrow> path \<Rightarrow> u64 \<Rightarrow> 'g workload \<Rightarrow> bool" where
  "workload_cut P dir n w \<longleftrightarrow>
     (\<exists>calls N j. sys_inv P dir n (wk_sys w) \<and> sys_room 0 (wk_sys w) \<and> tasks_of calls (sy_tasks (wk_sys w)) \<and>
        N \<subseteq> set (fl_notified (sy_flusher (wk_sys w))) \<and> set (fl_notified (sy_flusher (wk_sys w))) \<subseteq> insert j N \<and>
        oracle_ok n N (wk_oracle w))"

definition flow_ok :: "(string, bytes, 'g sim_fs) flusher_env \<Rightarrow> path \<Rightarrow> u64 \<Rightarrow> nat \<Rightarrow> flow \<Rightarrow> 'g workload \<Rightarrow> bool" where
  "flow_ok P dir n m flow w \<longleftrightarrow>
     (case flow of
        Go_On \<Rightarrow> workload_at P dir n m w
      | Returned _ \<Rightarrow> workload_over P dir n w
      | Suspended \<Rightarrow> workload_cut P dir n w)"

lemma workload_over_cut: "workload_over P dir n w \<Longrightarrow> workload_cut P dir n w"
  unfolding workload_over_def workload_cut_def by blast

lemma workload_at_over:
  assumes "workload_at P dir n m w"
  shows "workload_over P dir n w"
proof -
  obtain calls N where w: "sys_at P dir n m calls {} N (wk_sys w)" "oracle_ok n N (wk_oracle w)"
    using assms unfolding workload_at_def by blast
  then have "set (fl_notified (sy_flusher (wk_sys w))) = N" using pending_only_notified [of P dir n "wk_sys w" "{}" N] by (auto simp: sys_at_def)
  with w show ?thesis unfolding workload_over_def sys_at_def by (auto intro: sys_room_mono)
qed

lemma workload_at_mono: "workload_at P dir n m w \<Longrightarrow> k \<le> m \<Longrightarrow> workload_at P dir n k w"
  unfolding workload_at_def using sys_at_mono by blast

lemma count_stats_fields [simp]:
  "wk_sys (count_stats f w) = wk_sys w" "wk_oracle (count_stats f w) = wk_oracle w" "wk_writers (count_stats f w) = wk_writers w"
  by (simp_all add: count_stats_def)

lemma counters_fields [simp]:
  "wk_sys (steps_executed k w) = wk_sys w" "wk_oracle (steps_executed k w) = wk_oracle w" "wk_writers (steps_executed k w) = wk_writers w"
  "wk_sys (one_fault_error w) = wk_sys w" "wk_oracle (one_fault_error w) = wk_oracle w" "wk_writers (one_fault_error w) = wk_writers w"
  by (simp_all add: steps_executed_def one_fault_error_def)

lemma workload_at_fields [simp]:
  "workload_at P dir n m (count_stats f w) = workload_at P dir n m w"
  "workload_at P dir n m (steps_executed k w) = workload_at P dir n m w"
  "workload_at P dir n m (one_fault_error w) = workload_at P dir n m w"
  by (simp_all add: workload_at_def)

lemma workload_stop_ok:
  assumes P: "syncs_inline P ops" "\<forall>e. fe_serialize P e \<noteq> None" and w: "workload_at P dir n (length closing + m) w"
  shows "\<exists>flow w'. workload_stop P closing w = Inr (flow, w') \<and> flow \<noteq> Go_On \<and> flow_ok P dir n k flow w'"
proof -
  obtain calls N where at: "sys_at P dir n (length closing + m) calls {} N (wk_sys w)" "oracle_ok n N (wk_oracle w)"
    using w unfolding workload_at_def by blast
  have "pending_only {} N (wk_sys w\<lparr>sy_permit := True\<rparr>)"
    by (rule pending_only_quiet [of _ _ "wk_sys w"]) (use at(1) in \<open>simp_all add: sys_at_def\<close>)
  with at(1) have "sys_at P dir n (length closing + m) calls {} N (wk_sys w\<lparr>sy_permit := True\<rparr>)"
    using sys_inv_frame [of run_inv P dir n "wk_sys w" "length closing + m" True] by (simp add: sys_at_def)
  from await_stop_at [OF P this] obtain b s where s: "await_stop P closing (wk_sys w\<lparr>sy_permit := True\<rparr>) = Inr (b, s)"
    "sys_at P dir n m calls {} N s" by blast
  then have "workload_at P dir n m (w\<lparr>wk_sys := s\<rparr>)" using at(2) by (auto simp: workload_at_def)
  from workload_at_over [OF this] s(1) workload_over_cut show ?thesis by (auto simp: workload_stop_def flow_ok_def)
qed

text \<open>The states in which a call is awaited, and what becomes of its result.\<close>

lemma start_call_at:
  assumes P: "syncs_inline P ops" "\<forall>e. fe_serialize P e \<noteq> None" and s: "sys_at P dir n (Suc m) calls {} N s"
    and a: "is_tx_call a"
  shows "\<exists>s'. sys_step P a s = Inr s' \<and> sys_at P dir n m (calls @ [a]) {length (sy_tasks s)} N s' \<and>
    length (sy_tasks s) = length calls \<and> sy_next_tx s = n + of_nat (length (sy_tasks s))"
proof -
  obtain s' where s': "sys_step P a s = Inr s'" "sys_inv P dir n s'" "sys_room m s'"
    using sim_log.sys_step_ok [OF P, of dir n s m a] s by (auto simp: sys_at_def)
  have "tasks_of (calls @ [a]) (sy_tasks s')" using sys_step_tasks [OF s'(1), of calls] a s by (simp add: sys_at_def tx_calls_def)
  moreover have "sr_accepted (sy_stream s') = sr_accepted (sy_stream s) \<and> sy_flusher s' = sy_flusher s"
    using s'(1) a by (cases a) (auto simp: start_task_def Let_def)
  then have "pending_only {} N s'" using s by - (rule pending_only_quiet [of "{}" N s], simp_all add: sys_at_def)
  then have "pending_only {length (sy_tasks s)} N s'" unfolding pending_only_def by blast
  ultimately show ?thesis using s' s by (auto simp: sys_at_def tasks_of_def sys_inv_def)
qed

lemma after_call_ok:
  assumes P: "syncs_inline P ops" "\<forall>e. fe_serialize P e \<noteq> None"
    and none: "res = None \<Longrightarrow> workload_cut P dir n w"
    and err: "\<And>e. res = Some (Inl e) \<Longrightarrow> e = WalClosed \<and> workload_at P dir n (length closing + m) w"
    and good: "res = Some (Inr ()) \<Longrightarrow> workload_at P dir n (length closing + m) (ok w)"
  shows "\<exists>flow w'. after_call P closing step ok res w = Inr (flow, w') \<and> flow_ok P dir n (length closing + m) flow w'"
proof -
  consider "res = None" | e where "res = Some (Inl e)" | "res = Some (Inr ())" by (cases res; cases "the res") auto
  then show ?thesis
  proof cases
    case 1
    then show ?thesis using none by (simp add: after_call_def flow_ok_def)
  next
    case (2 e)
    with err have w: "e = WalClosed" "workload_at P dir n (length closing + m) (steps_executed (Suc step) (one_fault_error w))"
      by simp_all
    from workload_stop_ok [OF P w(2), of "length closing + m"] show ?thesis using 2 w(1) by (auto simp: after_call_def)
  next
    case 3
    then show ?thesis using good by (simp add: after_call_def flow_ok_def)
  qed
qed

text \<open>What a generator is documented to do: it draws between the bounds.\<close>

definition draws_in_range :: "'g rng_ops \<Rightarrow> bool" where
  "draws_in_range ops \<longleftrightarrow> (\<forall>lo hi g. lo \<le> hi \<longrightarrow> lo \<le> fst (gen_range ops lo hi g) \<and> fst (gen_range ops lo hi g) \<le> hi)"

lemma draw_index:
  assumes "draws_in_range ops" "ws \<noteq> []" "gen_range ops 0 (length ws - 1) g = (idx, g')"
  shows "\<not> length ws \<le> idx"
proof -
  have "0 \<le> length ws - 1" by simp
  with assms(1,3) have "idx \<le> length ws - 1" unfolding draws_in_range_def by (metis fst_conv)
  moreover have "0 < length ws" using assms(2) by simp
  ultimately show ?thesis by linarith
qed

lemma workload_cut_at:
  assumes "sys_at P dir n m calls {j} N s" "wk_sys w = s" "oracle_ok n N (wk_oracle w)"
  shows "workload_cut P dir n w"
proof -
  have "sys_inv P dir n s" "pending_only {j} N s" "sys_room 0 s" "tasks_of calls (sy_tasks s)"
    using assms(1) by (auto simp: sys_at_def intro: sys_room_mono)
  moreover from pending_only_notified [OF this(1,2)] have "N \<subseteq> set (fl_notified (sy_flusher s))"
    "set (fl_notified (sy_flusher s)) \<subseteq> insert j N" by auto
  ultimately show ?thesis using assms(2,3) unfolding workload_cut_def by blast
qed

lemma workload_commit_ok:
  assumes P: "syncs_inline (we_flusher W cfg) ops" "\<forall>e. fe_serialize (we_flusher W cfg) e \<noteq> None"
    and rng: "draws_in_range (we_rng W)" "wk_writers w \<noteq> []"
    and w: "workload_at (we_flusher W cfg) dir n (Suc (length sched + (length closing + m))) w"
  shows "\<exists>flow w'. workload_commit W cfg sched closing step w = Inr (flow, w') \<and>
    flow_ok (we_flusher W cfg) dir n (length closing + m) flow w'"
proof -
  let ?P = "we_flusher W cfg" and ?s = "wk_sys w" and ?c = "sy_next_tx (wk_sys w)" and ?j = "length (sy_tasks (wk_sys w))"
  obtain calls N where at: "sys_at ?P dir n (Suc (length sched + (length closing + m))) calls {} N ?s" "oracle_ok n N (wk_oracle w)"
    using w unfolding workload_at_def by blast
  obtain idx g1 where g1: "gen_range (we_rng W) 0 (length (wk_writers w) - 1) (wk_rng w) = (idx, g1)" by fastforce
  obtain k g2 where g2: "gen_range (we_rng W) 1 5 g1 = (k, g2)" by fastforce
  let ?entries = "map (commit_item ?c) [0..<k]"
  let ?a = "Sys_Commit (wk_writers w ! idx) (insert_ops (we_now W ?c) ?entries) (we_now W ?c k)"
  let ?ok = "\<lambda>w. count_stats (\<lambda>st. st\<lparr>ws_commits := ws_commits st + 1\<rparr>) (w\<lparr>wk_oracle := record_commit ?c ?entries (wk_oracle w)\<rparr>)"
  note idx = draw_index [OF rng g1]
  obtain s1 where s1: "sys_step ?P ?a ?s = Inr s1" "sys_at ?P dir n (length sched + (length closing + m)) (calls @ [?a]) {?j} N s1"
    "?j = length calls" "?c = n + of_nat ?j"
    using start_call_at [OF P at(1), of ?a] by auto
  obtain res s2 where s2: "await_call ?P ?j sched s1 = Inr (res, s2)" "sys_at ?P dir n (length closing + m) (calls @ [?a]) {?j} N s2"
    "res = None \<or> res = call_result ?j s2"
    using await_call_at [OF P s1(2)] by blast
  have "(calls @ [?a]) ! ?j = ?a" "?j < length (calls @ [?a])" using s1(3) by simp_all
  note settled = commit_settled [OF s2(2) this(2,1)]
  let ?w = "w\<lparr>wk_sys := s2, wk_rng := g2\<rparr>"
  have "\<exists>flow w'. after_call ?P closing step ?ok res ?w = Inr (flow, w') \<and> flow_ok ?P dir n (length closing + m) flow w'"
  proof (rule after_call_ok [OF P])
    show "workload_cut ?P dir n ?w" by (rule workload_cut_at [OF s2(2)]) (simp_all add: at(2))
    have done': "call_result ?j s2 = res" if "res \<noteq> None" using that s2(3) by auto
    show "e = WalClosed \<and> workload_at ?P dir n (length closing + m) ?w" if "res = Some (Inl e)" for e
      using settled that done' at(2) by (auto simp: workload_at_def)
    show "workload_at ?P dir n (length closing + m) (?ok ?w)" if "res = Some (Inr ())"
      using settled that done' oracle_ok_record [OF at(2), of ?j ?entries] s1(4) by (auto simp: workload_at_def)
  qed
  then show ?thesis using g1 g2 idx s1(1) s2(1) by (simp add: workload_commit_def Let_def)
qed

lemma workload_abort_ok:
  assumes P: "syncs_inline (we_flusher W cfg) ops" "\<forall>e. fe_serialize (we_flusher W cfg) e \<noteq> None"
    and rng: "draws_in_range (we_rng W)" "wk_writers w \<noteq> []"
    and w: "workload_at (we_flusher W cfg) dir n (Suc (length sched + (length closing + m))) w"
  shows "\<exists>flow w'. workload_abort W cfg sched closing step w = Inr (flow, w') \<and>
    flow_ok (we_flusher W cfg) dir n (length closing + m) flow w'"
proof -
  let ?P = "we_flusher W cfg" and ?s = "wk_sys w" and ?c = "sy_next_tx (wk_sys w)" and ?j = "length (sy_tasks (wk_sys w))"
  obtain calls N where at: "sys_at ?P dir n (Suc (length sched + (length closing + m))) calls {} N ?s" "oracle_ok n N (wk_oracle w)"
    using w unfolding workload_at_def by blast
  obtain idx g1 where g1: "gen_range (we_rng W) 0 (length (wk_writers w) - 1) (wk_rng w) = (idx, g1)" by fastforce
  obtain k g2 where g2: "gen_range (we_rng W) 1 3 g1 = (k, g2)" by fastforce
  let ?a = "Sys_Abort (wk_writers w ! idx) (insert_ops (we_now W ?c) (map abort_item [0..<k])) (we_now W ?c k)"
  let ?ok = "count_stats (\<lambda>st. st\<lparr>ws_aborts := ws_aborts st + 1, ws_aborted_tx_ids := ws_aborted_tx_ids st @ [?c]\<rparr>)"
  note idx = draw_index [OF rng g1]
  obtain s1 where s1: "sys_step ?P ?a ?s = Inr s1" "sys_at ?P dir n (length sched + (length closing + m)) (calls @ [?a]) {?j} N s1"
    "?j = length calls"
    using start_call_at [OF P at(1), of ?a] by auto
  obtain res s2 where s2: "await_call ?P ?j sched s1 = Inr (res, s2)" "sys_at ?P dir n (length closing + m) (calls @ [?a]) {?j} N s2"
    "res = None \<or> res = call_result ?j s2"
    using await_call_at [OF P s1(2)] by blast
  have "(calls @ [?a]) ! ?j = ?a" "?j < length (calls @ [?a])" using s1(3) by simp_all
  note settled = abort_settled [OF s2(2) this(2,1)]
  let ?w = "w\<lparr>wk_sys := s2, wk_rng := g2\<rparr>"
  have w2: "workload_at ?P dir n (length closing + m) ?w" using settled at(2) by (auto simp: workload_at_def)
  have "\<exists>flow w'. after_call ?P closing step ?ok res ?w = Inr (flow, w') \<and> flow_ok ?P dir n (length closing + m) flow w'"
    by (rule after_call_ok [OF P]) (use w2 s2(3) workload_over_cut [OF workload_at_over] settled in auto)
  then show ?thesis using g1 g2 idx s1(1) s2(1) by (simp add: workload_abort_def Let_def)
qed

lemma workload_register_ok:
  assumes "workload_at P dir n m w"
  shows "\<exists>res w'. workload_register w = Inr (res, w') \<and> workload_at P dir n m w' \<and>
    (res = Inr () \<or> wk_writers w \<noteq> [] \<longrightarrow> wk_writers w' \<noteq> [])"
proof -
  obtain calls N where at: "sys_at P dir n m calls {} N (wk_sys w)" "oracle_ok n N (wk_oracle w)"
    using assms unfolding workload_at_def by blast
  let ?s = "wk_sys w" and ?str = "sy_stream (wk_sys w)"
  obtain str where str: "stream_step St_Register ?str = Inr str"
    and inv: "sys_inv P dir n (?s\<lparr>sy_stream := str\<rparr>)" "sys_room m (?s\<lparr>sy_stream := str\<rparr>)"
    using stream_part_inv [of run_inv P dir n ?s m, where op = St_Register and js = "sy_overtaken ?s"
        and b = "sy_permit ?s" and d = "sy_draining ?s"] at(1)
    by (auto simp: sys_at_def)
  then obtain r st where st: "factory_register (sr_stream ?str) = Inr (r, st)" "str = ?str\<lparr>sr_stream := st\<rparr>"
    by (auto simp: try_bind_Inr_iff)
  have "pending_only {} N (?s\<lparr>sy_stream := str\<rparr>)"
    by (rule pending_only_quiet [of _ _ ?s]) (use at(1) st(2) in \<open>simp_all add: sys_at_def\<close>)
  then have "sys_at P dir n m calls {} N (?s\<lparr>sy_stream := str\<rparr>)"
    using inv at(1) by (simp add: sys_at_def)
  then have "workload_at P dir n m (w\<lparr>wk_sys := ?s\<lparr>sy_stream := str\<rparr>, wk_writers := ws\<rparr>)" for ws
    using at(2) by (auto simp: workload_at_def)
  from this [of "wk_writers w"] this [of "wk_writers w @ [projr r]"] show ?thesis
    unfolding workload_register_def writer_register_def Let_def st
    by (auto simp: st split: sum.splits stream_error.splits)
qed

text \<open>The clock is not part of what the log relies on.\<close>

lemma clock_frame [simp]:
  "sim_ok (fs\<lparr>fs_clock := c\<rparr>) = sim_ok fs" "sim_is_dir (fs\<lparr>fs_clock := c\<rparr>) = sim_is_dir fs"
  "sim_visible (fs\<lparr>fs_clock := c\<rparr>) = sim_visible fs" "sim_durable_bytes p (fs\<lparr>fs_clock := c\<rparr>) = sim_durable_bytes p fs"
  by (simp_all add: fun_eq_iff sim_ok_def sim_is_dir_def sim_visible_def sim_durable_bytes_def)

lemma flusher_inv_clock:
  "flusher_inv P dir envls (fl\<lparr>fl_fs := (fl_fs fl)\<lparr>fs_clock := c\<rparr>\<rparr>) = flusher_inv P dir envls fl"
  by (simp add: flusher_inv_def run_inv_def)

lemma workload_advance_ok:
  assumes "workload_at P dir n m w"
  shows "workload_at P dir n m (workload_advance delta w)"
proof -
  obtain calls N where at: "sys_at P dir n m calls {} N (wk_sys w)" "oracle_ok n N (wk_oracle w)"
    using assms unfolding workload_at_def by blast
  then have "pending_only {} N (wk_sys (workload_advance delta w))"
    by - (rule pending_only_quiet [of _ _ "wk_sys w"], simp_all add: sys_at_def workload_advance_def Let_def)
  with at have "sys_at P dir n m calls {} N (wk_sys (workload_advance delta w))"
    by (simp add: sys_at_def sys_inv_def sys_room_def shutdown_ok_def passed_check_def workload_advance_def Let_def flusher_inv_clock)
  with at(2) show ?thesis unfolding workload_at_def by (auto simp: workload_advance_def Let_def)
qed

lemma workload_at_rng [simp]: "workload_at P dir n m (w\<lparr>wk_rng := g\<rparr>) = workload_at P dir n m w"
  by (simp add: workload_at_def)

lemma workload_step_ok:
  assumes P: "syncs_inline (we_flusher W cfg) ops" "\<forall>e. fe_serialize (we_flusher W cfg) e \<noteq> None"
    and rng: "draws_in_range (we_rng W)"
    and w: "workload_at (we_flusher W cfg) dir n (Suc (length sched + (length closing + m))) w"
  shows "\<exists>flow w'. workload_step W cfg sched closing step w = Inr (flow, w') \<and>
    flow_ok (we_flusher W cfg) dir n (length closing + m) flow w'"
proof -
  let ?P = "we_flusher W cfg" and ?M = "Suc (length sched + (length closing + m))"
  obtain action g where draw: "gen_range (we_rng W) 0 99 (wk_rng w) = (action, g)" by fastforce
  then have range: "action \<le> 99" using rng unfolding draws_in_range_def by (metis fst_conv zero_le)
  let ?w = "w\<lparr>wk_rng := g\<rparr>"
  have at: "workload_at ?P dir n ?M ?w" using w by simp
  consider "action \<le> 14" | "14 < action" "action \<le> 79" | "79 < action" "action \<le> 89" | "89 < action" by linarith
  then show ?thesis
  proof cases
    case 1
    have "\<exists>w1. (if length (wk_writers ?w) < unat (wc_max_writers cfg)
        then try_bind (workload_register ?w) (\<lambda>(res, w1). Inr (case res of Inl _ \<Rightarrow> one_fault_error w1 | Inr _ \<Rightarrow> w1))
        else Inr ?w) = Inr w1 \<and> workload_at ?P dir n ?M w1"
      using workload_register_ok [OF at] at by (auto split: sum.splits)
    then obtain w1 where w1: "(if length (wk_writers ?w) < unat (wc_max_writers cfg)
        then try_bind (workload_register ?w) (\<lambda>(res, w1). Inr (case res of Inl _ \<Rightarrow> one_fault_error w1 | Inr _ \<Rightarrow> w1))
        else Inr ?w) = Inr w1" "workload_at ?P dir n ?M w1" by blast
    obtain res w2 where r: "workload_register w1 = Inr (res, w2)" "workload_at ?P dir n ?M w2" using workload_register_ok [OF w1(2)] by blast
    have "workload_step W cfg sched closing step w =
        (if wk_writers w1 = [] then Inr (case res of Inl e \<Rightarrow> (Returned (Inl e), w2) | Inr _ \<Rightarrow> (Go_On, steps_executed (Suc step) w2))
         else Inr (Go_On, steps_executed (Suc step) w1))"
      unfolding workload_step_def draw Let_def prod.case if_P [OF 1] w1(1) by (simp add: r(1))
    then show ?thesis using workload_at_over [OF r(2)] r(2) w1(2) by (cases res) (auto simp: flow_ok_def intro: workload_at_mono)
  next
    case 2
    show ?thesis
    proof (cases "wk_writers ?w = []")
      case False
      from workload_commit_ok [OF P rng this at] 2 False draw show ?thesis by (simp add: workload_step_def)
    next
      case True
      obtain res w1 where r: "workload_register ?w = Inr (res, w1)" "workload_at ?P dir n ?M w1" "res = Inr () \<longrightarrow> wk_writers w1 \<noteq> []"
        using workload_register_ok [OF at] by blast
      show ?thesis
      proof (cases res)
        case (Inl e)
        then show ?thesis using 2 True draw r workload_at_over [OF r(2)] by (simp add: workload_step_def flow_ok_def)
      next
        case (Inr u)
        with r(3) have "wk_writers w1 \<noteq> []" by simp
        from workload_commit_ok [OF P rng this r(2)] 2 True draw r(1) Inr show ?thesis by (simp add: workload_step_def)
      qed
    qed
  next
    case 3
    show ?thesis
    proof (cases "wk_writers ?w = []")
      case False
      from workload_abort_ok [OF P rng this at] 3 False draw show ?thesis by (simp add: workload_step_def)
    next
      case True
      then show ?thesis using 3 draw workload_at_mono [OF at, of "length closing + m"] by (simp add: workload_step_def flow_ok_def)
    qed
  next
    case 4
    obtain delta g1 where d: "gen_range (we_rng W) 1 60 g = (delta, g1)" by fastforce
    have "workload_at ?P dir n ?M (workload_advance (of_nat delta) (w\<lparr>wk_rng := g1\<rparr>))"
      using workload_advance_ok [of ?P dir n ?M "w\<lparr>wk_rng := g1\<rparr>"] w by simp
    from workload_at_mono [OF this, of "length closing + m"] 4 range draw d show ?thesis by (simp add: workload_step_def flow_ok_def)
  qed
qed

text \<open>The actions a workload can make happen: one call per step, and what happens during the awaits.\<close>

definition workload_size :: "(nat \<Rightarrow> ('k, 'v) sys_act list) \<Rightarrow> ('k, 'v) sys_act list \<Rightarrow> nat \<Rightarrow> nat" where
  "workload_size scheds closing steps = length closing + (\<Sum>i < steps. Suc (length (scheds i)))"

lemma workload_loop_ok:
  assumes P: "syncs_inline (we_flusher W cfg) ops" "\<forall>e. fe_serialize (we_flusher W cfg) e \<noteq> None" and rng: "draws_in_range (we_rng W)"
    and w: "workload_at (we_flusher W cfg) dir n (length closing + (\<Sum>i<k. Suc (length (scheds (step + i))))) w"
  shows "\<exists>flow w'. workload_loop W cfg scheds closing step k w = Inr (flow, w') \<and> flow \<noteq> Go_On \<and>
    flow_ok (we_flusher W cfg) dir n 0 flow w'"
  using w
proof (induction k arbitrary: step w)
  case 0
  with workload_stop_ok [OF P, of dir n closing 0 w] show ?case by simp
next
  case (Suc k)
  let ?P = "we_flusher W cfg" and ?m = "\<Sum>i<k. Suc (length (scheds (Suc step + i)))"
  have "(\<Sum>i<Suc k. Suc (length (scheds (step + i)))) = Suc (length (scheds step)) + ?m"
    by (subst sum.lessThan_Suc_shift) simp
  with Suc.prems have "workload_at ?P dir n (Suc (length (scheds step) + (length closing + ?m))) w" by (simp add: ac_simps)
  from workload_step_ok [OF P rng this, of step] obtain flow w1 where
    w1: "workload_step W cfg (scheds step) closing step w = Inr (flow, w1)" "flow_ok ?P dir n (length closing + ?m) flow w1" by blast
  show ?case
  proof (cases "flow = Go_On")
    case True
    with w1(2) have "workload_at ?P dir n (length closing + ?m) w1" by (simp add: flow_ok_def)
    from Suc.IH [OF this] w1(1) True show ?thesis by simp
  next
    case False
    with w1 show ?thesis by (cases flow) (simp_all add: flow_ok_def)
  qed
qed

lemma run_flow_cut: "flow \<noteq> Go_On \<Longrightarrow> flow_ok P dir n k flow w \<Longrightarrow> workload_cut P dir n w"
  using workload_over_cut by (cases flow) (auto simp: flow_ok_def)

lemma sys_open_at:
  assumes dir: "wc_dir c \<noteq> []" and cfg: "config_new (wc_ring_bits c) (wc_max_writers c) (wc_enable_metrics c) = Inr rc"
    and fs0: "sim_ok fs0" "\<forall>n. sim_visible fs0 (wc_dir c @ [n]) = None" and m: "m + 2 < 2 ^ 64"
  shows "\<exists>s fs. sys_open (sim_engine ops) c n fs0 = Inr (Inr s, fs) \<and> sys_at P (wc_dir c) n m [] {} {} s"
proof -
  obtain sm fs where o: "manager_open (sim_engine ops) (wc_dir c) (wc_max_segment_size c) (wc_direct_io c) fs0 = (Inr sm, fs)"
    "flusher_inv P (wc_dir c) [] (flusher_start sm fs)"
    using manager_open_flusher_inv [OF dir fs0] by blast
  from sys_open_start [OF cfg o, of n] obtain s where
    s: "sys_open (sim_engine ops) c n fs0 = Inr (Inr s, fs)" "sys_inv P (wc_dir c) n s" "sy_tasks s = []" "sr_yielded (sy_stream s) = []"
    by blast
  then have "sr_accepted (sy_stream s) = []"
    using cfg o(1) by (auto simp: sys_open_def Let_def stream_start_def)
  with s m show ?thesis by (auto simp: sys_at_def sys_room_def tasks_of_def pending_only_def)
qed

section \<open>The harness passes\<close>

text \<open>The ids of the committed transactions found are those of the notified calls.\<close>

lemma committed_calls:
  assumes room: "sys_room 0 s" and calls: "tasks_of calls (sy_tasks s)" and N: "\<And>j. j \<in> N \<Longrightarrow> j < length calls"
    and found: "\<forall>j\<in>N. \<exists>r\<in>set rs. rt_tx_id r = n + of_nat j"
    and sound: "\<forall>r\<in>set rs. \<exists>j<length calls. call_outcome (calls ! j) (n + of_nat j) r \<and> (rt_action r = Act_Commit \<longleftrightarrow> j \<in> N)"
  shows "set (committed_ids rs) = (\<lambda>j. n + of_nat j) ` N"
proof (intro set_eqI iffI)
  fix c assume "c \<in> set (committed_ids rs)"
  then obtain r where "r \<in> set rs" "rt_action r = Act_Commit" "rt_tx_id r = c" by (auto simp: committed_ids_def)
  with sound call_outcome_id show "c \<in> (\<lambda>j. n + of_nat j) ` N" by blast
next
  fix c assume "c \<in> (\<lambda>j. n + of_nat j) ` N"
  then obtain j where j: "j \<in> N" "c = n + of_nat j" by blast
  with found obtain r where r: "r \<in> set rs" "rt_tx_id r = c" by blast
  with sound obtain i where i: "i < length calls" "call_outcome (calls ! i) (n + of_nat i) r" "rt_action r = Act_Commit \<longleftrightarrow> i \<in> N" by blast
  have "i = j" using same_call_id [OF room calls i(1) N [OF j(1)], of n] call_outcome_id [OF i(2)] r(2) j(2) by simp
  with i(3) j(1) r show "c \<in> set (committed_ids rs)" by (auto simp: committed_ids_def)
qed

lemma workload_over_recovers:
  assumes P: "syncs_inline P ops" and over: "workload_over P dir n w" and ho: "hash_set_order ho"
    and codec: "\<forall>e. \<exists>d. fe_serialize P e = Some d \<and> deser d = Some e"
    and small: "length (frames (fe_crc P) (data_bytes P (map snd (sr_yielded (sy_stream (wk_sys w)))))) < 2 ^ 64"
  shows "\<exists>rs st reset. fst (recover (fe_crc P) deser ho (sim_engine ops) dir (fs_crash (fl_fs (sy_flusher (wk_sys w))))) = Inr (rs, st, reset) \<and>
    set (committed_ids rs) = set (committed_tx_ids (wk_oracle w))"
proof -
  from over obtain calls where c: "sys_inv P dir n (wk_sys w)" "sys_room 0 (wk_sys w)" "tasks_of calls (sy_tasks (wk_sys w))"
    "oracle_ok n (set (fl_notified (sy_flusher (wk_sys w)))) (wk_oracle w)" unfolding workload_over_def by blast
  from sim_recovery.sys_crash_recover [OF c(1-3) ho codec small] obtain rs st reset where
    rec: "fst (recover (fe_crc P) deser ho (sim_engine ops) dir (fs_crash (fl_fs (sy_flusher (wk_sys w))))) = Inr (rs, st, reset)"
    and rs: "\<forall>j\<in>set (fl_notified (sy_flusher (wk_sys w))). \<exists>r\<in>set rs. rt_tx_id r = n + of_nat j"
      "\<forall>r\<in>set rs. \<exists>j<length calls. call_outcome (calls ! j) (n + of_nat j) r \<and>
         (rt_action r = Act_Commit \<longleftrightarrow> j \<in> set (fl_notified (sy_flusher (wk_sys w))))" by blast
  from committed_calls [OF c(2,3) notified_is_call [OF c(1,3)] rs] rec c(4) show ?thesis by (auto simp: oracle_ok_def)
qed

lemma workload_cut_recovers:
  assumes P: "syncs_inline P ops" and cut: "workload_cut P dir n w" and ho: "hash_set_order ho"
    and codec: "\<forall>e. \<exists>d. fe_serialize P e = Some d \<and> deser d = Some e"
    and small: "length (frames (fe_crc P) (data_bytes P (map snd (sr_yielded (sy_stream (wk_sys w)))))) < 2 ^ 64"
  shows "\<exists>rs st reset c. fst (recover (fe_crc P) deser ho (sim_engine ops) dir (fs_crash (fl_fs (sy_flusher (wk_sys w))))) = Inr (rs, st, reset) \<and>
    set (committed_tx_ids (wk_oracle w)) \<subseteq> set (committed_ids rs) \<and>
    set (committed_ids rs) \<subseteq> insert c (set (committed_tx_ids (wk_oracle w)))"
proof -
  let ?M = "set (fl_notified (sy_flusher (wk_sys w)))" and ?id = "\<lambda>j. n + of_nat j"
  from cut obtain calls N j where c: "sys_inv P dir n (wk_sys w)" "sys_room 0 (wk_sys w)" "tasks_of calls (sy_tasks (wk_sys w))"
    and N: "N \<subseteq> ?M" "?M \<subseteq> insert j N" "oracle_ok n N (wk_oracle w)" unfolding workload_cut_def by blast
  from sim_recovery.sys_crash_recover [OF c(1-3) ho codec small] obtain rs st reset where
    rec: "fst (recover (fe_crc P) deser ho (sim_engine ops) dir (fs_crash (fl_fs (sy_flusher (wk_sys w))))) = Inr (rs, st, reset)"
    and rs: "\<forall>j\<in>?M. \<exists>r\<in>set rs. rt_tx_id r = ?id j"
      "\<forall>r\<in>set rs. \<exists>j<length calls. call_outcome (calls ! j) (?id j) r \<and> (rt_action r = Act_Commit \<longleftrightarrow> j \<in> ?M)" by blast
  have "set (committed_ids rs) = ?id ` ?M" by (rule committed_calls [OF c(2,3) notified_is_call [OF c(1,3)] rs])
  moreover have "set (committed_tx_ids (wk_oracle w)) = ?id ` N" using N(3) by (simp add: oracle_ok_def)
  moreover have "?id ` N \<subseteq> ?id ` ?M" "?id ` ?M \<subseteq> insert (?id j) (?id ` N)" using N(1,2) by blast+
  ultimately show ?thesis using rec by metis
qed


text \<open>
  An encoding of all entries with string keys: lists are sent with a mark before each element.  The
  generator replays a list of draws.
\<close>

fun put_list :: "u8 list \<Rightarrow> bytes" where
  "put_list [] = [0]"
| "put_list (x # xs) = 1 # x # put_list xs"

fun get_list :: "bytes \<Rightarrow> (u8 list \<times> bytes) option" where
  "get_list [] = None"
| "get_list [t] = (if t = 0 then Some ([], []) else None)"
| "get_list (t # x # r) = (if t = 0 then Some ([], x # r) else map_option (apfst ((#) x)) (get_list r))"

lemma get_put_list [simp]: "get_list (put_list xs @ r) = Some (xs, r)" "get_list (put_list xs) = Some (xs, [])"
proof -
  show "get_list (put_list xs @ r) = Some (xs, r)" for r by (induction xs) (cases r, simp_all)
  from this [of "[]"] show "get_list (put_list xs) = Some (xs, [])" by simp
qed

definition ascii_string :: "bytes \<Rightarrow> string" where
  "ascii_string bs = map (\<lambda>b. char_of (unat b)) bs"

lemma ascii_string_bytes [simp]: "ascii_string (ascii_bytes s) = s"
proof -
  have "unat (of_char c :: u8) = of_char c" for c
    using unat_of_nat [of "of_char c", where 'a = 8] unfolding of_nat_of_char by simp
  then show ?thesis by (induction s) (simp_all add: ascii_string_def ascii_bytes_def)
qed

fun text_encode :: "(string, bytes) wal_entry \<Rightarrow> bytes option" where
  "text_encode (Insert i ts k v) = Some (0 # u64_to_le_bytes i @ u64_to_le_bytes ts @ put_list (ascii_bytes k) @ put_list v)"
| "text_encode (Update i ts k v w) =
     Some (1 # u64_to_le_bytes i @ u64_to_le_bytes ts @ put_list (ascii_bytes k) @ put_list v @ put_list w)"
| "text_encode (Delete i ts k v) = Some (2 # u64_to_le_bytes i @ u64_to_le_bytes ts @ put_list (ascii_bytes k) @ put_list v)"
| "text_encode (Commit i ts) = Some (3 # u64_to_le_bytes i @ u64_to_le_bytes ts)"
| "text_encode (Abort i ts) = Some (4 # u64_to_le_bytes i @ u64_to_le_bytes ts)"

definition text_decode :: "bytes \<Rightarrow> (string, bytes) wal_entry option" where
  "text_decode bs =
     (case bs of
        [] \<Rightarrow> None
      | tag # r \<Rightarrow>
          (let i = u64_from_le_bytes (take 8 r); ts = u64_from_le_bytes (take 8 (drop 8 r)); x = drop 16 r
           in if tag = 3 then Some (Commit i ts) else if tag = 4 then Some (Abort i ts)
              else (case get_list x of
                 None \<Rightarrow> None
               | Some (k, y) \<Rightarrow> (case get_list y of
                     None \<Rightarrow> None
                   | Some (v, z) \<Rightarrow>
                       if tag = 0 then Some (Insert i ts (ascii_string k) v)
                       else if tag = 2 then Some (Delete i ts (ascii_string k) v)
                       else map_option (\<lambda>(w, _). Update i ts (ascii_string k) v w) (get_list z)))))"

lemma text_roundtrip: "\<forall>e. \<exists>d. text_encode e = Some d \<and> text_decode d = Some e"
proof
  fix e :: "(string, bytes) wal_entry"
  have "length (u64_to_le_bytes i) = 8" for i by (simp add: u64_to_le_bytes_def del: le_bytes.simps)
  then show "\<exists>d. text_encode e = Some d \<and> text_decode d = Some e" by (cases e) (simp_all add: text_decode_def)
qed

definition replay_rng :: "nat list rng_ops" where
  "replay_rng = \<lparr>gen_f64 = (\<lambda>g. (0, g)), gen_range = (\<lambda>lo hi g. case g of [] \<Rightarrow> (lo, []) | x # xs \<Rightarrow> (max lo (min hi x), xs))\<rparr>"

lemma replay_in_range: "draws_in_range replay_rng"
  by (auto simp: draws_in_range_def replay_rng_def split: list.splits)

definition replay_env :: "nat list workload_env" where
  "replay_env = \<lparr>we_crc = sum_crc, we_serialize = text_encode, we_fd_sync = (\<lambda>_ _ fs. (Inr (), fs)), we_rng = replay_rng,
     we_now = (\<lambda>_ k. if k = 0 then 5 else 6)\<rparr>"

definition replay_recovery :: "nat list recovery_env" where
  "replay_recovery = \<lparr>re_crc = sum_crc, re_deser = text_decode, re_order = (\<lambda>xs. xs), re_rng = replay_rng\<rparr>"

text \<open>Four steps: register a writer, commit one insert, advance the clock, abort; then the shutdown.\<close>

definition replay_draws :: "nat list" where
  "replay_draws = [3, 40, 0, 1, 95, 30, 85, 0, 1]"

definition replay_scheds :: "nat \<Rightarrow> (string, bytes) sys_act list" where
  "replay_scheds i =
     (if i = 1 then [Sys_Send 0, Sys_Send 0, Sys_Send 0, Sys_Send 0, Sys_Poll False 0, Sys_Poll False 0, Sys_Timeout]
      else if i = 3 then [Sys_Send 1, Sys_Send 1, Sys_Timeout] else [])"

definition replay_closing :: "(string, bytes) sys_act list" where
  "replay_closing = [Sys_Shutdown_Seen, Sys_Poll False 0, Sys_Poll False 0, Sys_Timeout]"

definition replay_sim :: "fault + nat list simulator" where
  "replay_sim = simulator_new (\<lambda>_. replay_draws) 42 fault_none demo_wal"

definition replay_end :: "fault + flow \<times> nat list workload" where
  "replay_end =
     try_bind replay_sim (\<lambda>sim. try_bind (sys_open (sim_engine replay_rng) demo_wal 7 (si_io sim)) (\<lambda>(res, _).
       case res of Inl _ \<Rightarrow> Inl Panicked
       | Inr s \<Rightarrow> workload_loop replay_env demo_wal replay_scheds replay_closing 0 4 (workload_start s sim)))"

lemma replay_end_ok:
  "map_sum id fst replay_end =
     Inr (Returned (Inr \<lparr>ws_steps_executed = 4, ws_commits = 1, ws_aborts = 1, ws_fault_errors = 0, ws_writers_registered = 1,
         ws_aborted_tx_ids = [8]\<rparr>))"
  "map_sum id (\<lambda>x. committed_tx_ids (wk_oracle (snd x))) replay_end = Inr [7]"
  "map_sum id (\<lambda>x. map snd (sr_yielded (sy_stream (wk_sys (snd x))))) replay_end =
     Inr [Entry (Insert 7 5 ''k-7-0'' [118, 45, 55, 45, 48]), CommitBarrier (Commit 7 6) 0, Entry (Abort 8 6)]"
  by code_simp+


end
