(* ===== verification/Real_Io.thy ===== *)
theory Real_Io
  imports Sim_Io
begin

text \<open>
  The production I/O engine of \<open>io/real.rs\<close>: files opened for appending behind the standard library's
  \<open>BufWriter\<close>, over an operating system whose answers to \<open>write\<close> and \<open>fsync\<close> are parameters (it may accept
  part of a buffer, or fail).  A file has the bytes in the page cache, which readers see, and the bytes
  on the device.  What an \<open>fsync\<close> leaves on the device is up to the system; that a successful one on a file
  without an earlier failed one leaves the whole cache is a hypothesis.  A crash loses the buffers, may
  lose directory entries (the code never syncs a directory), and keeps of a file its device bytes and some
  prefix of what the cache had beyond them.
\<close>

section \<open>State\<close>

text \<open>\<open>of_sync_failed\<close>: an earlier \<open>fsync\<close> of the file has failed.\<close>

record os_file =
  of_disk :: bytes
  of_cache :: bytes
  of_sync_failed :: bool

definition empty_file :: os_file where
  "empty_file = \<lparr>of_disk = [], of_cache = [], of_sync_failed = False\<rparr>"

text \<open>A \<open>RealFileHandle\<close>: the \<open>BufWriter\<close>'s buffer, and the size it counts.\<close>

record real_handle =
  rh_buffer :: bytes
  rh_size :: u64

record 'o real_fs =
  rf_files :: "(path \<times> os_file) list"
  rf_dirs :: "path list"
  rf_handles :: "(path \<times> real_handle) list"
  rf_os :: 'o

text \<open>
  The answers of the operating system: how many of the bytes it is given a \<open>write\<close> accepts, and whether an
  \<open>fsync\<close> of a file succeeds and which bytes the device has for it then.
\<close>

record 'o os_ops =
  os_write :: "path \<Rightarrow> nat \<Rightarrow> 'o \<Rightarrow> (io_error + nat) \<times> 'o"
  os_sync :: "path \<Rightarrow> os_file \<Rightarrow> 'o \<Rightarrow> (io_error + unit) \<times> bytes \<times> 'o"

definition real_new :: "'o \<Rightarrow> 'o real_fs" where
  "real_new os = \<lparr>rf_files = [], rf_dirs = [], rf_handles = [], rf_os = os\<rparr>"

definition DEFAULT_BUF_SIZE :: nat where
  "DEFAULT_BUF_SIZE = 8192"

definition put_os_file :: "path \<Rightarrow> os_file \<Rightarrow> 'o real_fs \<Rightarrow> 'o real_fs" where
  "put_os_file p f fs = fs\<lparr>rf_files := AList.update p f (rf_files fs)\<rparr>"

text \<open>
  A handle is the path it was opened with; a path that was not opened counts as one with nothing
  buffered.
\<close>

definition handle_of :: "path \<Rightarrow> 'o real_fs \<Rightarrow> real_handle" where
  "handle_of p fs =
     (case map_of (rf_handles fs) p of
        Some h \<Rightarrow> h
      | None \<Rightarrow> \<lparr>rh_buffer = [], rh_size = (case map_of (rf_files fs) p of None \<Rightarrow> 0 | Some f \<Rightarrow> of_nat (length (of_cache f)))\<rparr>)"

definition put_handle :: "path \<Rightarrow> real_handle \<Rightarrow> 'o real_fs \<Rightarrow> 'o real_fs" where
  "put_handle p h fs = fs\<lparr>rf_handles := AList.update p h (rf_handles fs)\<rparr>"

section \<open>Writing\<close>

text \<open>One \<open>write\<close> call on a file opened for appending; an unlinked file takes the bytes out of sight.\<close>

definition os_append :: "'o os_ops \<Rightarrow> path \<Rightarrow> bytes \<Rightarrow> 'o real_fs \<Rightarrow> (io_error + nat) \<times> 'o real_fs" where
  "os_append ops p buf fs =
     (case os_write ops p (length buf) (rf_os fs) of
        (Inl e, os) \<Rightarrow> (Inl e, fs\<lparr>rf_os := os\<rparr>)
      | (Inr k, os) \<Rightarrow>
          (let n = min k (length buf); fs1 = fs\<lparr>rf_os := os\<rparr>
           in (Inr n, case map_of (rf_files fs1) p of
                        None \<Rightarrow> fs1
                      | Some f \<Rightarrow> put_os_file p (f\<lparr>of_cache := of_cache f @ take n buf\<rparr>) fs1)))"

text \<open>The loop of \<open>flush_buf\<close>, with what it leaves in the buffer.\<close>

function flush_loop :: "'o os_ops \<Rightarrow> path \<Rightarrow> bytes \<Rightarrow> 'o real_fs \<Rightarrow> (io_error + unit) \<times> bytes \<times> 'o real_fs" where
  "flush_loop ops p buf fs =
     (if buf = [] then (Inr (), [], fs)
      else (case os_append ops p buf fs of
              (Inl e, fs1) \<Rightarrow> (Inl e, buf, fs1)
            | (Inr n, fs1) \<Rightarrow> if n = 0 then (Inl WriteZero, buf, fs1) else flush_loop ops p (drop n buf) fs1))"
  by pat_completeness auto
termination
  by (relation "measure (\<lambda>(ops, p, buf, fs). length buf)") auto

declare flush_loop.simps [simp del]

definition real_flush :: "'o os_ops \<Rightarrow> path \<Rightarrow> 'o real_fs \<Rightarrow> (io_error + unit) \<times> 'o real_fs" where
  "real_flush ops p fs =
     (let h = handle_of p fs
      in case flush_loop ops p (rh_buffer h) fs of (res, rest, fs1) \<Rightarrow> (res, put_handle p (h\<lparr>rh_buffer := rest\<rparr>) fs1))"

text \<open>
  \<open>BufWriter::write\<close>: copy into the buffer while there is room; else flush it first, and pass a buffer of
  at least its capacity straight through.
\<close>

definition buf_write :: "'o os_ops \<Rightarrow> path \<Rightarrow> bytes \<Rightarrow> 'o real_fs \<Rightarrow> (io_error + nat) \<times> 'o real_fs" where
  "buf_write ops p buf fs =
     (let push = (\<lambda>fs. let h = handle_of p fs in (Inr (length buf), put_handle p (h\<lparr>rh_buffer := rh_buffer h @ buf\<rparr>) fs));
          spare = DEFAULT_BUF_SIZE - length (rh_buffer (handle_of p fs))
      in if length buf < spare then push fs
         else (case (if spare < length buf then real_flush ops p fs else (Inr (), fs)) of
                 (Inl e, fs1) \<Rightarrow> (Inl e, fs1)
               | (Inr _, fs1) \<Rightarrow> if DEFAULT_BUF_SIZE \<le> length buf then os_append ops p buf fs1 else push fs1))"

text \<open>The same with the sizes as integers, for evaluation.\<close>

lemma buf_write_code [code]:
  "buf_write ops p buf fs =
     (let push = (\<lambda>fs. let h = handle_of p fs in (Inr (length buf), put_handle p (h\<lparr>rh_buffer := rh_buffer h @ buf\<rparr>) fs));
          spare = max 0 (8192 - int (length (rh_buffer (handle_of p fs))))
      in if int (length buf) < spare then push fs
         else (case (if spare < int (length buf) then real_flush ops p fs else (Inr (), fs)) of
                 (Inl e, fs1) \<Rightarrow> (Inl e, fs1)
               | (Inr _, fs1) \<Rightarrow> if 8192 \<le> int (length buf) then os_append ops p buf fs1 else push fs1))"
proof -
  have "int n < max 0 (8192 - int m) \<longleftrightarrow> n < DEFAULT_BUF_SIZE - m" "max 0 (8192 - int m) < int n \<longleftrightarrow> DEFAULT_BUF_SIZE - m < n"
    "8192 \<le> int n \<longleftrightarrow> DEFAULT_BUF_SIZE \<le> n" for n m :: nat
    by (auto simp: DEFAULT_BUF_SIZE_def)
  then show ?thesis by (simp only: buf_write_def Let_def)
qed

definition real_write :: "'o os_ops \<Rightarrow> path \<Rightarrow> bytes \<Rightarrow> 'o real_fs \<Rightarrow> (io_error + nat) \<times> 'o real_fs" where
  "real_write ops p buf fs =
     (case buf_write ops p buf fs of
        (Inl e, fs1) \<Rightarrow> (Inl e, fs1)
      | (Inr n, fs1) \<Rightarrow> (Inr n, put_handle p ((handle_of p fs1)\<lparr>rh_size := rh_size (handle_of p fs) + of_nat n\<rparr>) fs1))"

lemma os_append_le: "os_append ops p buf fs = (Inr n, fs') \<Longrightarrow> n \<le> length buf"
  by (auto simp: os_append_def Let_def split: prod.splits sum.splits)

text \<open>The \<open>write_all\<close> that \<open>RealFileHandle\<close> inherits from the trait \<open>Write\<close>.\<close>

function real_write_all :: "'o os_ops \<Rightarrow> path \<Rightarrow> bytes \<Rightarrow> 'o real_fs \<Rightarrow> (io_error + unit) \<times> 'o real_fs" where
  "real_write_all ops p buf fs =
     (if buf = [] then (Inr (), fs)
      else (case real_write ops p buf fs of
              (Inl e, fs1) \<Rightarrow> (Inl e, fs1)
            | (Inr n, fs1) \<Rightarrow> if n = 0 then (Inl WriteZero, fs1) else real_write_all ops p (drop n buf) fs1))"
  by pat_completeness auto
termination
  by (relation "measure (\<lambda>(ops, p, buf, fs). length buf)") auto

declare real_write_all.simps [simp del]

section \<open>Syncing\<close>

text \<open>An unlinked file can still be synced, out of sight.\<close>

definition os_fsync :: "'o os_ops \<Rightarrow> path \<Rightarrow> 'o real_fs \<Rightarrow> (io_error + unit) \<times> 'o real_fs" where
  "os_fsync ops p fs =
     (let f = (case map_of (rf_files fs) p of None \<Rightarrow> empty_file | Some f \<Rightarrow> f);
          (res, dev, os) = os_sync ops p f (rf_os fs);
          fs1 = fs\<lparr>rf_os := os\<rparr>
      in (res, case map_of (rf_files fs) p of
                 None \<Rightarrow> fs1
               | Some _ \<Rightarrow> put_os_file p (f\<lparr>of_disk := dev, of_sync_failed := of_sync_failed f \<or> res \<noteq> Inr ()\<rparr>) fs1))"

text \<open>
  What \<open>fsync\<close> is documented to do: success means that all that was written to the file is on the device.
  After a failure the state of the pages is undefined, and a later success promises nothing.
\<close>

definition sync_reaches_device :: "'o os_ops \<Rightarrow> bool" where
  "sync_reaches_device ops \<longleftrightarrow>
     (\<forall>p f os dev os'. os_sync ops p f os = (Inr (), dev, os') \<longrightarrow> \<not> of_sync_failed f \<longrightarrow> dev = of_cache f)"

definition real_sync_all :: "'o os_ops \<Rightarrow> path \<Rightarrow> 'o real_fs \<Rightarrow> (io_error + unit) \<times> 'o real_fs" where
  "real_sync_all ops p fs =
     (case real_flush ops p fs of (Inl e, fs1) \<Rightarrow> (Inl e, fs1) | (Inr _, fs1) \<Rightarrow> os_fsync ops p fs1)"

text \<open>File metadata other than the size is not modelled, so this is the same for the data only.\<close>

definition real_sync_data :: "'o os_ops \<Rightarrow> path \<Rightarrow> 'o real_fs \<Rightarrow> (io_error + unit) \<times> 'o real_fs" where
  "real_sync_data ops p fs =
     (case real_flush ops p fs of (Inl e, fs1) \<Rightarrow> (Inl e, fs1) | (Inr _, fs1) \<Rightarrow> os_fsync ops p fs1)"

lemma real_sync_data_all: "real_sync_data = real_sync_all"
  by (simp add: fun_eq_iff real_sync_data_def real_sync_all_def)

text \<open>Syncing a duplicated descriptor, outside the \<open>BufWriter\<close>.\<close>

definition real_fd_sync :: "'o os_ops \<Rightarrow> bool \<Rightarrow> path \<Rightarrow> 'o real_fs \<Rightarrow> (io_error + unit) \<times> 'o real_fs" where
  "real_fd_sync ops data_only p fs = os_fsync ops p fs"

definition real_metadata_len :: "path \<Rightarrow> 'o real_fs \<Rightarrow> io_error + u64" where
  "real_metadata_len p fs = Inr (rh_size (handle_of p fs))"

definition real_try_clone_file :: "path \<Rightarrow> 'o real_fs \<Rightarrow> io_error + path" where
  "real_try_clone_file p fs = Inr p"

section \<open>Files and directories\<close>

text \<open>
  Opening and listing fail only for what does not exist.  A name is used for a file or for a directory, and
  a directory of segments has no subdirectories.  On Linux \<open>direct_io\<close> changes nothing.
\<close>

definition parent_exists :: "path \<Rightarrow> 'o real_fs \<Rightarrow> bool" where
  "parent_exists p fs \<longleftrightarrow> butlast p = [] \<or> butlast p \<in> set (rf_dirs fs)"

definition real_open_append :: "path \<Rightarrow> bool \<Rightarrow> 'o real_fs \<Rightarrow> (io_error + unit) \<times> 'o real_fs" where
  "real_open_append p direct_io fs =
     (if \<not> parent_exists p fs then (Inl NotFound, fs)
      else (let fs1 = (case map_of (rf_files fs) p of
                         Some _ \<Rightarrow> fs
                       | None \<Rightarrow> put_os_file p empty_file fs);
                size = (case map_of (rf_files fs1) p of None \<Rightarrow> 0 | Some f \<Rightarrow> length (of_cache f))
            in (Inr (), put_handle p \<lparr>rh_buffer = [], rh_size = of_nat size\<rparr> fs1)))"

definition real_open_read :: "path \<Rightarrow> 'o real_fs \<Rightarrow> (io_error + u64 \<times> bytes) \<times> 'o real_fs" where
  "real_open_read p fs =
     (case map_of (rf_files fs) p of
        None \<Rightarrow> (Inl NotFound, fs)
      | Some f \<Rightarrow> (Inr (of_nat (length (of_cache f)), of_cache f), fs))"

definition real_create_dir_all :: "path \<Rightarrow> 'o real_fs \<Rightarrow> (io_error + unit) \<times> 'o real_fs" where
  "real_create_dir_all p fs =
     (Inr (), fs\<lparr>rf_dirs := map (\<lambda>k. take k p) (rev [1..<Suc (length p)]) @ rf_dirs fs\<rparr>)"

definition real_read_dir :: "path \<Rightarrow> 'o real_fs \<Rightarrow> io_error + string list" where
  "real_read_dir p fs =
     (if p \<notin> set (rf_dirs fs) then Inl NotFound
      else Inr (map last (filter (\<lambda>q. q \<noteq> [] \<and> butlast q = p) (map fst (rf_files fs)))))"

definition real_remove_file :: "path \<Rightarrow> 'o real_fs \<Rightarrow> (io_error + unit) \<times> 'o real_fs" where
  "real_remove_file p fs = (Inr (), fs\<lparr>rf_files := filter (\<lambda>(q, _). q \<noteq> p) (rf_files fs)\<rparr>)"

text \<open>\<open>std::fs::write\<close> creates or truncates the file and writes it; then it is synced through a second descriptor.\<close>

definition real_write_file_bytes :: "'o os_ops \<Rightarrow> path \<Rightarrow> bytes \<Rightarrow> 'o real_fs \<Rightarrow> (io_error + unit) \<times> 'o real_fs" where
  "real_write_file_bytes ops p data fs =
     (if \<not> parent_exists p fs then (Inl NotFound, fs)
      else (let f = (case map_of (rf_files fs) p of None \<Rightarrow> empty_file | Some f \<Rightarrow> f\<lparr>of_cache := []\<rparr>)
            in case flush_loop ops p data (put_os_file p f fs) of
                 (Inl e, _, fs1) \<Rightarrow> (Inl e, fs1)
               | (Inr _, _, fs1) \<Rightarrow> os_fsync ops p fs1))"

definition real_read_file_bytes :: "path \<Rightarrow> 'o real_fs \<Rightarrow> io_error + bytes" where
  "real_read_file_bytes p fs = (case map_of (rf_files fs) p of None \<Rightarrow> Inl NotFound | Some f \<Rightarrow> Inr (of_cache f))"

definition real_exists :: "path \<Rightarrow> 'o real_fs \<Rightarrow> bool" where
  "real_exists p fs \<longleftrightarrow> map_of (rf_files fs) p \<noteq> None \<or> p \<in> set (rf_dirs fs)"

definition real_engine :: "'o os_ops \<Rightarrow> 'o real_fs io_engine" where
  "real_engine ops =
     \<lparr>e_open_append = real_open_append, e_write_all = real_write_all ops, e_flush = real_flush ops,
      e_sync_all = real_sync_all ops, e_sync_data = real_sync_data ops, e_metadata_len = real_metadata_len,
      e_open_read = real_open_read, e_create_dir_all = real_create_dir_all, e_read_dir = real_read_dir,
      e_remove_file = real_remove_file, e_write_file_bytes = real_write_file_bytes ops,
      e_read_file_bytes = real_read_file_bytes, e_exists = real_exists, e_try_clone_file = real_try_clone_file\<rparr>"

text \<open>
  A crash: \<open>keep p\<close> bytes of the cache of \<open>p\<close> have reached the device by then, and the directory entries
  in \<open>lost\<close> have not.
\<close>

definition file_after_crash :: "nat \<Rightarrow> os_file \<Rightarrow> os_file" where
  "file_after_crash keep f =
     (let d = of_disk f; c = of_cache f; b = (if take (length d) c = d then take (length d + keep) c else d)
      in \<lparr>of_disk = b, of_cache = b, of_sync_failed = False\<rparr>)"

definition real_crash :: "(path \<Rightarrow> nat) \<Rightarrow> (path \<Rightarrow> bool) \<Rightarrow> 'o real_fs \<Rightarrow> 'o real_fs" where
  "real_crash keep lost fs =
     fs\<lparr>rf_files := map (\<lambda>(p, f). (p, file_after_crash (keep p) f)) (filter (\<lambda>(p, _). \<not> lost p) (rf_files fs)),
        rf_dirs := filter (\<lambda>p. \<not> lost p) (rf_dirs fs), rf_handles := []\<rparr>"

section \<open>What was written and what is durable\<close>

definition real_visible :: "'o real_fs \<Rightarrow> path \<Rightarrow> bytes option" where
  "real_visible fs p = map_option (\<lambda>f. of_cache f @ rh_buffer (handle_of p fs)) (map_of (rf_files fs) p)"

definition real_durable :: "'o real_fs \<Rightarrow> path \<Rightarrow> bytes option" where
  "real_durable fs p = map_option of_disk (map_of (rf_files fs) p)"

definition sync_failed :: "'o real_fs \<Rightarrow> path \<Rightarrow> bool" where
  "sync_failed fs p \<longleftrightarrow> (\<exists>f. map_of (rf_files fs) p = Some f \<and> of_sync_failed f)"

text \<open>The sizes that the handles count are right.\<close>

definition real_wf :: "'o real_fs \<Rightarrow> bool" where
  "real_wf fs \<longleftrightarrow> distinct (map fst (rf_files fs)) \<and>
     (\<forall>p b. real_visible fs p = Some b \<longrightarrow> rh_size (handle_of p fs) = of_nat (length b))"

lemma map_of_put [simp]:
  "map_of (rf_files (put_os_file p f fs)) = (map_of (rf_files fs))(p \<mapsto> f)"
  "map_of (rf_handles (put_handle p h fs)) = (map_of (rf_handles fs))(p \<mapsto> h)"
  by (simp_all add: put_os_file_def put_handle_def update_conv')

lemma put_fields [simp]:
  "rf_handles (put_os_file p f fs) = rf_handles fs" "rf_dirs (put_os_file p f fs) = rf_dirs fs" "rf_os (put_os_file p f fs) = rf_os fs"
  "rf_files (put_handle p h fs) = rf_files fs" "rf_dirs (put_handle p h fs) = rf_dirs fs" "rf_os (put_handle p h fs) = rf_os fs"
  by (simp_all add: put_os_file_def put_handle_def)

lemma distinct_put_os_file [simp]: "distinct (map fst (rf_files fs)) \<Longrightarrow> distinct (map fst (rf_files (put_os_file p f fs)))"
  by (simp add: put_os_file_def distinct_update)

lemma handle_of_put [simp]: "handle_of q (put_handle p h fs) = (if q = p then h else handle_of q fs)"
  by (simp add: handle_of_def split: option.splits)

lemma rh_buffer_put_file [simp]: "rh_buffer (handle_of q (put_os_file p f fs)) = rh_buffer (handle_of q fs)"
  by (simp add: handle_of_def split: option.splits)

text \<open>The cached bytes of \<open>p\<close> have grown by \<open>x\<close>.\<close>

definition grown :: "path \<Rightarrow> bytes \<Rightarrow> 'o real_fs \<Rightarrow> 'o real_fs \<Rightarrow> bool" where
  "grown p x fs fs' \<longleftrightarrow> rf_dirs fs' = rf_dirs fs \<and> rf_handles fs' = rf_handles fs \<and>
     (distinct (map fst (rf_files fs)) \<longrightarrow> distinct (map fst (rf_files fs'))) \<and>
     (\<exists>f. map_of (rf_files fs) p = Some f \<and> map_of (rf_files fs') = (map_of (rf_files fs))(p \<mapsto> f\<lparr>of_cache := of_cache f @ x\<rparr>))"

lemma grown_refl: "map_of (rf_files fs) p = Some f \<Longrightarrow> grown p [] fs fs"
  by (auto simp: grown_def fun_upd_idem)

lemma grown_trans: "grown p x fs fs1 \<Longrightarrow> grown p y fs1 fs2 \<Longrightarrow> grown p (x @ y) fs fs2"
  by (auto simp: grown_def)

lemma grown_file: "grown p x fs fs' \<Longrightarrow> \<exists>f. map_of (rf_files fs') p = Some f"
  by (auto simp: grown_def)

lemma os_append_grown:
  assumes "os_append ops p buf fs = (res, fs')" "map_of (rf_files fs) p = Some f"
  shows "case res of Inl e \<Rightarrow> grown p [] fs fs' | Inr n \<Rightarrow> n \<le> length buf \<and> grown p (take n buf) fs fs'"
  using assms by (auto simp: os_append_def Let_def grown_def fun_upd_idem split: prod.splits sum.splits)

lemma flush_loop_grown:
  assumes "flush_loop ops p buf fs = (res, rest, fs')" "map_of (rf_files fs) p = Some f"
  shows "\<exists>k\<le>length buf. rest = drop k buf \<and> grown p (take k buf) fs fs' \<and> (res = Inr () \<longrightarrow> k = length buf)"
  using assms
proof (induction ops p buf fs arbitrary: f rule: flush_loop.induct)
  case (1 ops p buf fs)
  show ?case
  proof (cases "buf = []")
    case True
    then show ?thesis using "1.prems" grown_refl by (auto simp: flush_loop.simps)
  next
    case buf: False
    obtain r fs1 where a: "os_append ops p buf fs = (r, fs1)" by fastforce
    note g = os_append_grown [OF a "1.prems"(2)]
    show ?thesis
    proof (cases r)
      case (Inl e)
      then show ?thesis using "1.prems"(1) buf a g by (auto simp: flush_loop.simps intro!: exI [of _ 0])
    next
      case (Inr n)
      show ?thesis
      proof (cases "n = 0")
        case True
        then show ?thesis using "1.prems"(1) buf a g Inr by (auto simp: flush_loop.simps intro!: exI [of _ 0])
      next
        case False
        have "flush_loop ops p (drop n buf) fs1 = (res, rest, fs')" using "1.prems"(1) buf a Inr False by (simp add: flush_loop.simps)
        moreover have g1: "grown p (take n buf) fs fs1" using g Inr by simp
        moreover from grown_file [OF g1] obtain f1 where "map_of (rf_files fs1) p = Some f1" by blast
        ultimately obtain k where k: "k \<le> length (drop n buf)" "rest = drop k (drop n buf)" "grown p (take k (drop n buf)) fs1 fs'"
          "res = Inr () \<longrightarrow> k = length (drop n buf)"
          using "1.IH" [OF buf a [symmetric] Inr False] by blast
        have "grown p (take n buf @ take k (drop n buf)) fs fs'" using g1 k(3) by (rule grown_trans)
        then have "grown p (take (n + k) buf) fs fs'" by (simp add: take_add)
        then show ?thesis using k g Inr by (intro exI [of _ "n + k"]) (auto simp: add.commute)
      qed
    qed
  qed
qed

text \<open>What was written to \<open>p\<close> has grown by \<open>x\<close>, in the cache or in the buffer, and nothing else has changed.\<close>

definition moved :: "path \<Rightarrow> bytes \<Rightarrow> 'o real_fs \<Rightarrow> 'o real_fs \<Rightarrow> bool" where
  "moved p x fs fs' \<longleftrightarrow> rf_dirs fs' = rf_dirs fs \<and> (distinct (map fst (rf_files fs)) \<longrightarrow> distinct (map fst (rf_files fs'))) \<and>
     real_durable fs' = real_durable fs \<and> sync_failed fs' = sync_failed fs \<and>
     (\<forall>q. q \<noteq> p \<longrightarrow> real_visible fs' q = real_visible fs q \<and> handle_of q fs' = handle_of q fs) \<and>
     (\<exists>b. real_visible fs p = Some b \<and> real_visible fs' p = Some (b @ x))"

lemma moved_refl: "real_visible fs p = Some b \<Longrightarrow> moved p [] fs fs"
  by (auto simp: moved_def)

lemma moved_trans: "moved p x fs fs1 \<Longrightarrow> moved p y fs1 fs2 \<Longrightarrow> moved p (x @ y) fs fs2"
  by (fastforce simp: moved_def)

lemma handle_of_grown: "grown p x fs fs' \<Longrightarrow> q \<noteq> p \<Longrightarrow> handle_of q fs' = handle_of q fs"
  by (auto simp: grown_def handle_of_def split: option.splits)

lemma rh_buffer_grown: "grown p x fs fs' \<Longrightarrow> rh_buffer (handle_of q fs') = rh_buffer (handle_of q fs)"
  by (auto simp: grown_def handle_of_def split: option.splits)

lemma durable_grown:
  assumes "grown p x fs fs'"
  shows "real_durable fs' = real_durable fs" "sync_failed fs' = sync_failed fs"
proof -
  obtain f where f: "map_of (rf_files fs) p = Some f" "map_of (rf_files fs') = (map_of (rf_files fs))(p \<mapsto> f\<lparr>of_cache := of_cache f @ x\<rparr>)"
    using assms by (auto simp: grown_def)
  then have "real_durable fs' q = real_durable fs q \<and> sync_failed fs' q = sync_failed fs q" for q
    by (cases "q = p") (simp_all add: real_durable_def sync_failed_def)
  then show "real_durable fs' = real_durable fs" "sync_failed fs' = sync_failed fs" by auto
qed

lemma put_handle_durable [simp]: "real_durable (put_handle p h fs) = real_durable fs" "sync_failed (put_handle p h fs) = sync_failed fs"
  by (simp_all add: real_durable_def sync_failed_def fun_eq_iff)

text \<open>The buffer of \<open>p\<close> is replaced while its cache grows.\<close>

lemma grown_moved:
  assumes g: "grown p x fs fs1" and b: "x @ rh_buffer h = rh_buffer (handle_of p fs) @ y"
  shows "moved p y fs (put_handle p h fs1)"
proof -
  obtain f where f: "map_of (rf_files fs) p = Some f" "map_of (rf_files fs1) = (map_of (rf_files fs))(p \<mapsto> f\<lparr>of_cache := of_cache f @ x\<rparr>)"
    using g by (auto simp: grown_def)
  have "real_visible (put_handle p h fs1) q = real_visible fs q" if "q \<noteq> p" for q
    using that f(2) rh_buffer_grown [OF g, of q] by (simp add: real_visible_def)
  moreover have "real_durable (put_handle p h fs1) = real_durable fs" "sync_failed (put_handle p h fs1) = sync_failed fs"
    using durable_grown [OF g] by simp_all
  ultimately show ?thesis using g f b handle_of_grown [OF g] by (auto simp: moved_def grown_def real_visible_def)
qed

lemma grown_moved_empty:
  assumes g: "grown p x fs fs'" and b: "rh_buffer (handle_of p fs) = []"
  shows "moved p x fs fs'"
proof -
  obtain f where f: "map_of (rf_files fs) p = Some f" "map_of (rf_files fs') = (map_of (rf_files fs))(p \<mapsto> f\<lparr>of_cache := of_cache f @ x\<rparr>)"
    using g by (auto simp: grown_def)
  have "real_visible fs' q = real_visible fs q" if "q \<noteq> p" for q
    using that f(2) rh_buffer_grown [OF g, of q] by (simp add: real_visible_def)
  then show ?thesis using g f b handle_of_grown [OF g] durable_grown [OF g] rh_buffer_grown [OF g, of p]
    by (auto simp: moved_def grown_def real_visible_def)
qed

section \<open>Every write appends, whatever the system answers\<close>

lemma real_flush_moved:
  assumes "real_flush ops p fs = (res, fs')" "real_visible fs p = Some b"
  shows "moved p [] fs fs'" "res = Inr () \<Longrightarrow> rh_buffer (handle_of p fs') = []" "rh_size (handle_of p fs') = rh_size (handle_of p fs)"
proof -
  obtain f where f: "map_of (rf_files fs) p = Some f" using assms(2) by (auto simp: real_visible_def)
  let ?h = "handle_of p fs"
  obtain rest fs1 where r: "flush_loop ops p (rh_buffer ?h) fs = (res, rest, fs1)" "fs' = put_handle p (?h\<lparr>rh_buffer := rest\<rparr>) fs1"
    using assms(1) by (auto simp: real_flush_def Let_def split: prod.splits)
  from flush_loop_grown [OF r(1) f] obtain k where k: "k \<le> length (rh_buffer ?h)" "rest = drop k (rh_buffer ?h)"
    "grown p (take k (rh_buffer ?h)) fs fs1" "res = Inr () \<longrightarrow> k = length (rh_buffer ?h)" by blast
  from grown_moved [OF k(3), of "?h\<lparr>rh_buffer := rest\<rparr>" "[]"] k(2) r(2) show "moved p [] fs fs'" by simp
  show "rh_buffer (handle_of p fs') = []" if "res = Inr ()" using that k(2,4) r(2) by simp
  show "rh_size (handle_of p fs') = rh_size ?h" using r(2) by simp
qed

lemma push_moved:
  assumes "real_visible fs p = Some b"
  shows "moved p buf fs (put_handle p ((handle_of p fs)\<lparr>rh_buffer := rh_buffer (handle_of p fs) @ buf\<rparr>) fs)"
proof -
  obtain f where "map_of (rf_files fs) p = Some f" using assms by (auto simp: real_visible_def)
  from grown_moved [OF grown_refl [OF this]] show ?thesis by simp
qed

text \<open>A write that fails has added nothing; one that answers \<open>n\<close> has added the first \<open>n\<close> bytes.\<close>

definition wrote :: "path \<Rightarrow> bytes \<Rightarrow> 'o real_fs \<Rightarrow> io_error + nat \<Rightarrow> 'o real_fs \<Rightarrow> bool" where
  "wrote p buf fs res fs' \<longleftrightarrow>
     (case res of Inl e \<Rightarrow> moved p [] fs fs' | Inr n \<Rightarrow> n \<le> length buf \<and> moved p (take n buf) fs fs')"

lemma buf_write_wrote:
  assumes "buf_write ops p buf fs = (res, fs')" "real_visible fs p = Some b"
  shows "wrote p buf fs res fs'"
proof -
  let ?push = "\<lambda>fs. put_handle p ((handle_of p fs)\<lparr>rh_buffer := rh_buffer (handle_of p fs) @ buf\<rparr>) fs"
  let ?spare = "DEFAULT_BUF_SIZE - length (rh_buffer (handle_of p fs))"
  show ?thesis
  proof (cases "length buf < ?spare")
    case True
    then show ?thesis using assms push_moved [OF assms(2), of buf] by (auto simp: buf_write_def Let_def wrote_def)
  next
    case full: False
    obtain r fs1 where f: "(if ?spare < length buf then real_flush ops p fs else (Inr (), fs)) = (r, fs1)" by fastforce
    have m: "moved p [] fs fs1" and e: "r = Inr () \<and> DEFAULT_BUF_SIZE \<le> length buf \<longrightarrow> rh_buffer (handle_of p fs1) = []"
    proof -
      have "moved p [] fs fs1 \<and> (r = Inr () \<and> DEFAULT_BUF_SIZE \<le> length buf \<longrightarrow> rh_buffer (handle_of p fs1) = [])"
      proof (cases "?spare < length buf")
        case True
        then have "real_flush ops p fs = (r, fs1)" using f by simp
        from real_flush_moved [OF this assms(2)] show ?thesis by simp
      next
        case False
        then have "r = Inr ()" "fs1 = fs" using f by simp_all
        moreover have "rh_buffer (handle_of p fs) = []" if "DEFAULT_BUF_SIZE \<le> length buf"
        proof -
          have "DEFAULT_BUF_SIZE \<le> DEFAULT_BUF_SIZE - length (rh_buffer (handle_of p fs))" "0 < DEFAULT_BUF_SIZE"
            using that False by (linarith, simp add: DEFAULT_BUF_SIZE_def)
          then have "length (rh_buffer (handle_of p fs)) = 0" by linarith
          then show ?thesis by simp
        qed
        ultimately show ?thesis using moved_refl [OF assms(2)] by simp
      qed
      then show "moved p [] fs fs1" "r = Inr () \<and> DEFAULT_BUF_SIZE \<le> length buf \<longrightarrow> rh_buffer (handle_of p fs1) = []" by blast+
    qed
    from m obtain b1 where b1: "real_visible fs1 p = Some b1" by (auto simp: moved_def)
    then obtain f1 where f1: "map_of (rf_files fs1) p = Some f1" by (auto simp: real_visible_def)
    have on: "moved p x fs fs2" if "moved p x fs1 fs2" for x fs2 using moved_trans [OF m that] by simp
    show ?thesis
    proof (cases r)
      case (Inl e)
      then show ?thesis using assms(1) full f m by (auto simp: buf_write_def Let_def wrote_def)
    next
      case (Inr u)
      show ?thesis
      proof (cases "DEFAULT_BUF_SIZE \<le> length buf")
        case True
        then have a: "os_append ops p buf fs1 = (res, fs')" using assms(1) full f Inr by (simp add: buf_write_def Let_def)
        have "rh_buffer (handle_of p fs1) = []" using e Inr True by simp
        with os_append_grown [OF a f1] show ?thesis
          by (auto simp: wrote_def intro!: on intro: grown_moved_empty split: sum.splits)
      next
        case False
        then show ?thesis using assms(1) full f Inr on [OF push_moved [OF b1]] by (auto simp: buf_write_def Let_def wrote_def)
      qed
    qed
  qed
qed

text \<open>A whole operation keeps the sizes right too.\<close>

definition extends :: "path \<Rightarrow> bytes \<Rightarrow> 'o real_fs \<Rightarrow> 'o real_fs \<Rightarrow> bool" where
  "extends p x fs fs' \<longleftrightarrow> real_wf fs' \<and> moved p x fs fs'"

lemma moved_wf:
  assumes "real_wf fs" "moved p x fs fs'" "\<And>b. real_visible fs' p = Some b \<Longrightarrow> rh_size (handle_of p fs') = of_nat (length b)"
  shows "extends p x fs fs'"
proof -
  have "rh_size (handle_of q fs') = of_nat (length b)" if "real_visible fs' q = Some b" for q b
  proof (cases "q = p")
    case False
    then have "real_visible fs q = Some b" "handle_of q fs' = handle_of q fs" using that assms(2) by (simp_all add: moved_def)
    then show ?thesis using assms(1) by (simp add: real_wf_def)
  qed (use assms(3) that in simp)
  then show ?thesis using assms(1,2) by (simp add: extends_def real_wf_def moved_def)
qed

lemma put_size_moved: "moved p x fs (put_handle p ((handle_of p fs')\<lparr>rh_size := n\<rparr>) fs') = moved p x fs fs'"
proof -
  have "real_visible (put_handle p ((handle_of p fs')\<lparr>rh_size := n\<rparr>) fs') q = real_visible fs' q" for q
    by (simp add: real_visible_def)
  then show ?thesis by (auto simp: moved_def)
qed

lemma real_write_extends:
  assumes wf: "real_wf fs" and v: "real_visible fs p = Some b" and w: "real_write ops p buf fs = (Inr n, fs')"
  shows "n \<le> length buf" "extends p (take n buf) fs fs'"
proof -
  obtain fs1 where r: "buf_write ops p buf fs = (Inr n, fs1)"
    "fs' = put_handle p ((handle_of p fs1)\<lparr>rh_size := rh_size (handle_of p fs) + of_nat n\<rparr>) fs1"
    using w by (auto simp: real_write_def split: prod.splits sum.splits)
  from buf_write_wrote [OF r(1) v] show n: "n \<le> length buf" by (simp add: wrote_def)
  have m: "moved p (take n buf) fs fs'" unfolding r(2) put_size_moved using buf_write_wrote [OF r(1) v] by (simp add: wrote_def)
  then have v': "real_visible fs' p = Some (b @ take n buf)" using v by (auto simp: moved_def)
  have "rh_size (handle_of p fs) = of_nat (length b)" using wf v by (simp add: real_wf_def)
  then have "rh_size (handle_of p fs') = of_nat (length (b @ take n buf))" using n r(2) by simp
  then show "extends p (take n buf) fs fs'" using v' by (intro moved_wf [OF wf m]) simp
qed

lemma extends_trans: "extends p x fs fs1 \<Longrightarrow> extends p y fs1 fs2 \<Longrightarrow> extends p (x @ y) fs fs2"
  by (auto simp: extends_def intro: moved_trans)

lemma extends_visible: "extends p x fs fs' \<Longrightarrow> \<exists>b. real_visible fs' p = Some b"
  by (auto simp: extends_def moved_def)

lemma os_append_err_handle: "os_append ops p buf fs = (Inl e, fs') \<Longrightarrow> handle_of q fs' = handle_of q fs"
  by (auto simp: os_append_def Let_def handle_of_def split: prod.splits sum.splits option.splits)

lemma real_write_error:
  assumes wf: "real_wf fs" and v: "real_visible fs p = Some b" and w: "real_write ops p buf fs = (Inl e, fs')"
  shows "extends p [] fs fs'"
proof (rule moved_wf [OF wf])
  have r: "buf_write ops p buf fs = (Inl e, fs')" using w by (auto simp: real_write_def split: prod.splits sum.splits)
  from buf_write_wrote [OF this v] show m: "moved p [] fs fs'" by (simp add: wrote_def)
  have "rh_size (handle_of p fs') = rh_size (handle_of p fs)"
  proof -
    let ?spare = "DEFAULT_BUF_SIZE - length (rh_buffer (handle_of p fs))"
    have full: "\<not> length buf < ?spare" using r by (auto simp: buf_write_def Let_def)
    obtain r1 fs1 where f: "(if ?spare < length buf then real_flush ops p fs else (Inr (), fs)) = (r1, fs1)" by fastforce
    have "rh_size (handle_of p fs1) = rh_size (handle_of p fs)"
      using f real_flush_moved(3) [OF _ v, of ops r1 fs1] by (auto split: if_splits)
    moreover have "fs' = fs1 \<or> os_append ops p buf fs1 = (Inl e, fs')"
      using r full f by (cases r1) (auto simp: buf_write_def Let_def split: if_splits)
    ultimately show ?thesis using os_append_err_handle by metis
  qed
  then show "rh_size (handle_of p fs') = of_nat (length b')" if "real_visible fs' p = Some b'" for b'
    using that m wf v by (auto simp: moved_def real_wf_def)
qed

lemma real_write_all_appends:
  assumes "real_wf fs" "real_visible fs p = Some b" "real_write_all ops p buf fs = (res, fs')"
  shows "\<exists>k\<le>length buf. extends p (take k buf) fs fs' \<and> (res = Inr () \<longrightarrow> k = length buf)"
  using assms
proof (induction ops p buf fs arbitrary: b rule: real_write_all.induct)
  case (1 ops p buf fs)
  have same: "extends p [] fs fs" using "1.prems"(1,2) moved_refl by (auto simp: extends_def)
  show ?case
  proof (cases "buf = []")
    case True
    then show ?thesis using "1.prems"(3) same by (simp add: real_write_all.simps)
  next
    case buf: False
    obtain r fs1 where w: "real_write ops p buf fs = (r, fs1)" by fastforce
    show ?thesis
    proof (cases r)
      case (Inl e)
      then show ?thesis using "1.prems" buf w real_write_error [of fs p b ops buf e fs1]
        by (intro exI [of _ 0]) (auto simp: real_write_all.simps [of ops p buf fs])
    next
      case (Inr n)
      note n = real_write_extends [OF "1.prems"(1,2) w [unfolded Inr]]
      show ?thesis
      proof (cases "n = 0")
        case True
        then show ?thesis using "1.prems"(3) buf w Inr n by (intro exI [of _ 0]) (auto simp: real_write_all.simps [of ops p buf fs])
      next
        case False
        have rest: "real_write_all ops p (drop n buf) fs1 = (res, fs')"
          using "1.prems"(3) buf w Inr False by (simp add: real_write_all.simps [of ops p buf fs])
        obtain b1 where b1: "real_wf fs1" "real_visible fs1 p = Some b1"
          using n(2) extends_visible [OF n(2)] unfolding extends_def by blast
        from "1.IH" [OF buf w [symmetric] Inr False b1 rest] obtain k where k: "k \<le> length (drop n buf)"
          "extends p (take k (drop n buf)) fs1 fs'" "res = Inr () \<longrightarrow> k = length (drop n buf)" by blast
        from extends_trans [OF n(2) k(2)] have "extends p (take (n + k) buf) fs fs'" by (simp add: take_add)
        then show ?thesis using k n(1) by (intro exI [of _ "n + k"]) auto
      qed
    qed
  qed
qed

lemma os_fsync_outcome:
  assumes "os_fsync ops p fs = (res, fs')" "real_visible fs p = Some b" "rh_buffer (handle_of p fs) = []"
  shows "(\<forall>q. handle_of q fs' = handle_of q fs) \<and> map fst (rf_files fs') = map fst (rf_files fs) \<and> rf_dirs fs' = rf_dirs fs \<and>
     real_visible fs' = real_visible fs \<and> (\<exists>dev. real_durable fs' = (real_durable fs)(p \<mapsto> dev) \<and>
       (sync_reaches_device ops \<longrightarrow> res = Inr () \<longrightarrow> \<not> sync_failed fs p \<longrightarrow> dev = b)) \<and>
     sync_failed fs' = (sync_failed fs)(p := sync_failed fs p \<or> res \<noteq> Inr ())"
proof -
  obtain f where f: "map_of (rf_files fs) p = Some f" "of_cache f = b" using assms(2,3) by (auto simp: real_visible_def)
  have p: "p \<in> set (map fst (rf_files fs))" using f(1) map_of_eq_None_iff [of "rf_files fs" p] by simp
  obtain r dev os where r: "os_sync ops p f (rf_os fs) = (r, dev, os)" by (metis prod_cases3)
  let ?f = "f\<lparr>of_disk := dev, of_sync_failed := of_sync_failed f \<or> r \<noteq> Inr ()\<rparr>"
  have e: "fs' = put_os_file p ?f (fs\<lparr>rf_os := os\<rparr>)" "res = r" using assms(1) r f(1) by (auto simp: os_fsync_def Let_def)
  have h: "handle_of q fs' = handle_of q fs" for q
    using f(1) unfolding e by (auto simp: handle_of_def split: option.splits)
  have "map fst (rf_files fs') = map fst (rf_files fs)" using p unfolding e(1) by (simp add: put_os_file_def update_keys)
  moreover have "real_durable fs' = (real_durable fs)(p \<mapsto> dev)" "sync_failed fs' = (sync_failed fs)(p := sync_failed fs p \<or> res \<noteq> Inr ())"
    using f(1) unfolding e by (auto simp: real_durable_def sync_failed_def fun_eq_iff)
  moreover have "dev = b" if "sync_reaches_device ops" "res = Inr ()" "\<not> sync_failed fs p"
    using that r f e(2) unfolding sync_reaches_device_def sync_failed_def by blast
  moreover have "real_visible fs' = real_visible fs" using f h unfolding e(1) by (auto simp: real_visible_def fun_eq_iff)
  ultimately show ?thesis using h e(1) by auto
qed

lemma real_sync_all_outcome:
  assumes wf: "real_wf fs" and v: "real_visible fs p = Some b" and s: "real_sync_all ops p fs = (res, fs')"
  shows "real_wf fs' \<and> rf_dirs fs' = rf_dirs fs \<and> real_visible fs' = real_visible fs \<and>
    (\<forall>q. q \<noteq> p \<longrightarrow> real_durable fs' q = real_durable fs q \<and> sync_failed fs' q = sync_failed fs q) \<and>
    (sync_reaches_device ops \<longrightarrow> res = Inr () \<longrightarrow> \<not> sync_failed fs p \<longrightarrow> real_durable fs' p = Some b \<and> \<not> sync_failed fs' p)"
proof -
  obtain r fs1 where f: "real_flush ops p fs = (r, fs1)" by fastforce
  note m = real_flush_moved [OF f v]
  have v1: "real_visible fs1 p = Some b" using m(1) v by (auto simp: moved_def)
  then have wf1: "real_wf fs1" using moved_wf [OF wf m(1)] wf v m(3) by (simp add: extends_def real_wf_def)
  have same: "real_visible fs1 = real_visible fs" using m(1) v v1 unfolding moved_def by (metis ext)
  have d: "real_durable fs1 = real_durable fs" "rf_dirs fs1 = rf_dirs fs" "sync_failed fs1 = sync_failed fs"
    using m(1) by (simp_all add: moved_def)
  show ?thesis
  proof (cases r)
    case (Inl e)
    then show ?thesis using s f wf1 same d by (auto simp: real_sync_all_def)
  next
    case (Inr u)
    then have "os_fsync ops p fs1 = (res, fs')" using s f by (simp add: real_sync_all_def)
    from os_fsync_outcome [OF this v1 m(2)] Inr wf1 same d show ?thesis by (auto simp: real_wf_def)
  qed
qed

section \<open>Where the system works\<close>

text \<open>A system without errors: a write accepts at least a byte, a sync succeeds, and does what it is documented to do.\<close>

definition os_works :: "'o os_ops \<Rightarrow> bool" where
  "os_works ops \<longleftrightarrow> (\<forall>p n os. 0 < n \<longrightarrow> (\<exists>k os'. os_write ops p n os = (Inr k, os') \<and> 0 < k)) \<and>
     (\<forall>p f os. fst (os_sync ops p f os) = Inr ()) \<and> sync_reaches_device ops"

lemma os_append_works:
  assumes "os_works ops" "buf \<noteq> []"
  shows "\<exists>n fs'. os_append ops p buf fs = (Inr n, fs') \<and> 0 < n"
proof -
  have "0 < length buf" using assms(2) by simp
  with assms(1) obtain k os' where "os_write ops p (length buf) (rf_os fs) = (Inr k, os')" "0 < k" unfolding os_works_def by blast
  with assms(2) show ?thesis by (simp add: os_append_def Let_def)
qed

lemma flush_loop_works: "os_works ops \<Longrightarrow> \<exists>fs'. flush_loop ops p buf fs = (Inr (), [], fs')"
proof (induction ops p buf fs rule: flush_loop.induct)
  case (1 ops p buf fs)
  show ?case
  proof (cases "buf = []")
    case False
    from os_append_works [OF "1.prems" this] obtain n fs1 where "os_append ops p buf fs = (Inr n, fs1)" "0 < n" by blast
    with "1.IH" [OF False this(1) [symmetric] refl] "1.prems" False show ?thesis by (simp add: flush_loop.simps [of ops p buf fs])
  qed (simp add: flush_loop.simps)
qed

lemma real_flush_works: "os_works ops \<Longrightarrow> \<exists>fs'. real_flush ops p fs = (Inr (), fs')"
  using flush_loop_works [of ops p "rh_buffer (handle_of p fs)" fs] by (auto simp: real_flush_def Let_def)

lemma real_write_works:
  assumes "os_works ops" "buf \<noteq> []"
  shows "\<exists>n fs'. real_write ops p buf fs = (Inr n, fs') \<and> 0 < n"
proof -
  have "\<exists>n fs'. buf_write ops p buf fs = (Inr n, fs') \<and> 0 < n"
  proof -
    obtain fs1 where "(if DEFAULT_BUF_SIZE - length (rh_buffer (handle_of p fs)) < length buf then real_flush ops p fs else (Inr (), fs)) = (Inr (), fs1)"
      using real_flush_works [OF assms(1), of p fs] by fastforce
    then show ?thesis using assms(2) os_append_works [OF assms, of p fs1] by (simp add: buf_write_def Let_def)
  qed
  then show ?thesis by (auto simp: real_write_def)
qed

lemma real_write_all_works: "os_works ops \<Longrightarrow> \<exists>fs'. real_write_all ops p buf fs = (Inr (), fs')"
proof (induction ops p buf fs rule: real_write_all.induct)
  case (1 ops p buf fs)
  show ?case
  proof (cases "buf = []")
    case False
    from real_write_works [OF "1.prems" this] obtain n fs1 where "real_write ops p buf fs = (Inr n, fs1)" "0 < n" by blast
    with "1.IH" [OF False this(1) [symmetric] refl] "1.prems" False show ?thesis by (simp add: real_write_all.simps [of ops p buf fs])
  qed (simp add: real_write_all.simps)
qed

lemma real_sync_all_works:
  assumes "real_wf fs" "real_visible fs p = Some b" "os_works ops" "\<forall>q. \<not> sync_failed fs q"
  shows "\<exists>fs'. real_sync_all ops p fs = (Inr (), fs') \<and> real_wf fs' \<and> rf_dirs fs' = rf_dirs fs \<and>
    real_visible fs' = real_visible fs \<and> real_durable fs' = (real_durable fs)(p \<mapsto> b) \<and> (\<forall>q. \<not> sync_failed fs' q)"
proof -
  obtain fs1 where f: "real_flush ops p fs = (Inr (), fs1)" using real_flush_works [OF assms(3), of p fs] by blast
  have "fst (os_fsync ops p fs1) = Inr ()" using assms(3) by (simp add: os_works_def os_fsync_def Let_def case_prod_unfold)
  then have "real_sync_all ops p fs = (Inr (), snd (os_fsync ops p fs1))" using f
    by (cases "os_fsync ops p fs1") (simp add: real_sync_all_def)
  then obtain fs' where "real_sync_all ops p fs = (Inr (), fs')" by blast
  with real_sync_all_outcome [OF assms(1,2) this] assms(3,4) show ?thesis by (auto simp: os_works_def fun_eq_iff)
qed

section \<open>The engine keeps the contracts\<close>

definition real_ok :: "'o os_ops \<Rightarrow> 'o real_fs \<Rightarrow> bool" where
  "real_ok ops fs \<longleftrightarrow> os_works ops \<and> real_wf fs \<and> (\<forall>p. \<not> sync_failed fs p)"

definition real_is_dir :: "'o real_fs \<Rightarrow> path \<Rightarrow> bool" where
  "real_is_dir fs p \<longleftrightarrow> p \<in> set (rf_dirs fs)"

lemma real_visible_file: "real_visible fs q \<noteq> None \<longleftrightarrow> q \<in> set (map fst (rf_files fs))"
  using map_of_eq_None_iff [of "rf_files fs" q] by (simp add: real_visible_def)

lemma real_read_dir_spec:
  assumes "distinct (map fst (rf_files fs))" "real_is_dir fs dir"
  shows "\<exists>ns. real_read_dir dir fs = Inr ns \<and> distinct ns \<and> set ns = {n. real_visible fs (dir @ [n]) \<noteq> None}"
  using assms last_filter_dir [of dir "map fst (rf_files fs)", OF refl] unfolding real_visible_file
  by (auto simp: real_read_dir_def real_is_dir_def)

lemma real_open_append_new:
  assumes wf: "real_wf fs" and dir: "real_is_dir fs dir" and new: "real_visible fs (dir @ [n]) = None"
  shows "\<exists>fs'. real_open_append (dir @ [n]) d fs = (Inr (), fs') \<and> real_wf fs' \<and> rf_dirs fs' = rf_dirs fs \<and>
    real_visible fs' = (real_visible fs)(dir @ [n] \<mapsto> []) \<and> real_durable fs' = (real_durable fs)(dir @ [n] \<mapsto> []) \<and>
    sync_failed fs' = (sync_failed fs)(dir @ [n] := False)"
proof -
  let ?p = "dir @ [n]"
  let ?fs' = "put_handle ?p \<lparr>rh_buffer = [], rh_size = 0\<rparr> (put_os_file ?p empty_file fs)"
  have none: "map_of (rf_files fs) ?p = None" using new by (simp add: real_visible_def)
  then have r: "real_open_append ?p d fs = (Inr (), ?fs')"
    using dir by (simp add: real_open_append_def parent_exists_def real_is_dir_def Let_def empty_file_def)
  have h: "handle_of q ?fs' = (if q = ?p then \<lparr>rh_buffer = [], rh_size = 0\<rparr> else handle_of q fs)" for q
    by (auto simp: handle_of_def split: option.splits)
  then have v: "real_visible ?fs' = (real_visible fs)(?p \<mapsto> [])" by (auto simp: fun_eq_iff real_visible_def empty_file_def)
  moreover have "real_durable ?fs' = (real_durable fs)(?p \<mapsto> [])" "sync_failed ?fs' = (sync_failed fs)(?p := False)"
    by (auto simp: fun_eq_iff real_durable_def sync_failed_def empty_file_def)
  moreover have "real_wf ?fs'" using wf h v by (simp add: real_wf_def)
  ultimately show ?thesis using r by auto
qed

interpretation real: durable_engine "real_engine ops" "real_ok ops" real_visible real_is_dir real_durable for ops
proof
  fix fs :: "'a real_fs" and dir p :: path and n d b x
  show "\<exists>ns. e_read_dir (real_engine ops) dir fs = Inr ns \<and> distinct ns \<and> set ns = {n. real_visible fs (dir @ [n]) \<noteq> None}"
    if "real_ok ops fs" "real_is_dir fs dir"
    using that real_read_dir_spec [of fs dir] by (simp add: real_engine_def real_ok_def real_wf_def)
  show "e_exists (real_engine ops) dir fs" if "real_ok ops fs" "real_is_dir fs dir"
    using that by (simp add: real_engine_def real_exists_def real_is_dir_def)
  show "\<exists>fs'. e_open_append (real_engine ops) (dir @ [n]) d fs = (Inr (), fs') \<and> real_ok ops fs' \<and> real_is_dir fs' = real_is_dir fs \<and>
      real_visible fs' = (real_visible fs)(dir @ [n] \<mapsto> []) \<and> real_durable fs' = (real_durable fs)(dir @ [n] \<mapsto> [])"
    if "real_ok ops fs" "real_is_dir fs dir" "real_visible fs (dir @ [n]) = None"
    using real_open_append_new [of fs dir n d] that by (auto simp: real_engine_def real_ok_def real_is_dir_def fun_eq_iff)
  show "e_metadata_len (real_engine ops) p fs = Inr (of_nat (length b))" if "real_ok ops fs" "real_visible fs p = Some b"
    using that by (simp add: real_engine_def real_metadata_len_def real_ok_def real_wf_def)
  show "\<exists>fs'. e_write_all (real_engine ops) p x fs = (Inr (), fs') \<and> real_ok ops fs' \<and> real_is_dir fs' = real_is_dir fs \<and>
      real_visible fs' = (real_visible fs)(p \<mapsto> b @ x) \<and> real_durable fs' = real_durable fs"
    if ok: "real_ok ops fs" and v: "real_visible fs p = Some b"
  proof -
    obtain fs' where w: "real_write_all ops p x fs = (Inr (), fs')" using real_write_all_works ok unfolding real_ok_def by blast
    with real_write_all_appends [OF _ v w] ok have e: "extends p x fs fs'" by (auto simp: real_ok_def)
    then have "real_visible fs' = (real_visible fs)(p \<mapsto> b @ x)" using v by (auto simp: extends_def moved_def fun_eq_iff)
    then show ?thesis using w ok e
      by (auto simp: real_engine_def real_ok_def real_is_dir_def extends_def moved_def fun_eq_iff)
  qed
  show "\<exists>fs'. e_sync_all (real_engine ops) p fs = (Inr (), fs') \<and> real_ok ops fs' \<and> real_is_dir fs' = real_is_dir fs \<and>
      real_visible fs' = real_visible fs \<and> real_durable fs' = (real_durable fs)(p \<mapsto> b)"
    if "real_ok ops fs" "real_visible fs p = Some b"
    using real_sync_all_works [of fs p b ops] that by (auto simp: real_engine_def real_ok_def real_is_dir_def fun_eq_iff)
  show "\<exists>fs'. e_create_dir_all (real_engine ops) dir fs = (Inr (), fs') \<and> real_ok ops fs' \<and> real_is_dir fs' dir \<and>
      real_visible fs' = real_visible fs \<and> real_durable fs' = real_durable fs"
    if "real_ok ops fs" "dir \<noteq> []"
  proof -
    have "dir \<in> (\<lambda>k. take k dir) ` {1..<Suc (length dir)}"
      using that(2) by (intro image_eqI [of _ _ "length dir"]) (auto simp: Suc_le_eq)
    moreover have "handle_of q (fs\<lparr>rf_dirs := ds\<rparr>) = handle_of q fs" for q ds by (simp add: handle_of_def split: option.splits)
    ultimately show ?thesis using that(1)
      by (auto simp: real_engine_def real_create_dir_all_def real_ok_def real_is_dir_def real_wf_def real_visible_def
          real_durable_def sync_failed_def fun_eq_iff)
  qed
qed

text \<open>After a crash nothing is buffered, so readers see all there is.\<close>

definition real_quiet :: "'o real_fs \<Rightarrow> bool" where
  "real_quiet fs \<longleftrightarrow> distinct (map fst (rf_files fs)) \<and> rf_handles fs = []"

interpretation real_recovery: log_reader "real_engine ops" real_quiet real_visible real_is_dir for ops
proof
  fix fs :: "'a real_fs" and dir p :: path and b
  show "\<exists>ns. e_read_dir (real_engine ops) dir fs = Inr ns \<and> distinct ns \<and> set ns = {n. real_visible fs (dir @ [n]) \<noteq> None}"
    if "real_quiet fs" "real_is_dir fs dir"
    using that real_read_dir_spec [of fs dir] by (simp add: real_engine_def real_quiet_def)
  show "e_exists (real_engine ops) dir fs" if "real_quiet fs" "real_is_dir fs dir"
    using that by (simp add: real_engine_def real_exists_def real_is_dir_def)
  show "e_open_read (real_engine ops) p fs = (Inr (of_nat (length b), b), fs)" if "real_quiet fs" "real_visible fs p = Some b"
    using that by (auto simp: real_engine_def real_open_read_def real_quiet_def real_visible_def handle_of_def)
qed

section \<open>Errors\<close>


text \<open>A system on which the first write fails and later ones accept two bytes at a time.\<close>

definition full_once :: "bool os_ops" where
  "full_once = \<lparr>os_write = (\<lambda>p n full. if full then (Inl Other, False) else (Inr (min n 2), False)), os_sync = (\<lambda>p f os. (Inr (), of_cache f, os))\<rparr>"

definition full_fs :: "bool real_fs" where
  "full_fs = \<lparr>rf_files = [([''f''], \<lparr>of_disk = [], of_cache = [1], of_sync_failed = False\<rparr>)], rf_dirs = [],
     rf_handles = [([''f''], \<lparr>rh_buffer = [2, 3, 4], rh_size = 4\<rparr>)], rf_os = True\<rparr>"


text \<open>\<open>write_file_bytes\<close> truncates in place: when the write fails, the old contents are gone.\<close>

lemma write_file_bytes_not_atomic:
  "real_read_file_bytes [''f''] full_fs = Inr [1]"
  "fst (real_write_file_bytes full_once [''f''] [5, 6] full_fs) = Inl Other"
  "real_read_file_bytes [''f''] (snd (real_write_file_bytes full_once [''f''] [5, 6] full_fs)) = Inr []"
  by (simp_all add: real_read_file_bytes_def real_write_file_bytes_def parent_exists_def flush_loop.simps os_append_def full_once_def
      full_fs_def put_os_file_def Let_def)

end
