(* ===== verification/Real_Wal.thy ===== *)
theory Real_Wal
  imports Real_Io Wal_System
begin

text \<open>
  The log on the production engine: what a crash leaves of it can be read again, so the lemmas about the
  flusher and the whole write path hold on it as they do on the simulated engine.
\<close>

section \<open>The crash\<close>

lemma map_of_map_key: "map_of (map (\<lambda>(p, f). (p, g p f)) xs) p = map_option (g p) (map_of xs p)"
  by (induction xs) auto

text \<open>How much of what is not durable a crash leaves, when the device keeps up to \<open>keep p\<close> more bytes of the cache.\<close>

definition bytes_kept :: "(path \<Rightarrow> nat) \<Rightarrow> 'o real_fs \<Rightarrow> path \<Rightarrow> nat" where
  "bytes_kept keep fs p =
     (case map_of (rf_files fs) p of
        None \<Rightarrow> 0
      | Some f \<Rightarrow> if take (length (of_disk f)) (of_cache f) = of_disk f then min (keep p) (length (of_cache f) - length (of_disk f)) else 0)"

lemma bytes_kept_none: "bytes_kept (\<lambda>_. 0) fs p = 0"
  by (simp add: bytes_kept_def split: option.splits)

text \<open>The directory entries of the log survive a crash.\<close>

definition keeps_entries :: "(path \<Rightarrow> bool) \<Rightarrow> path \<Rightarrow> bool" where
  "keeps_entries lost dir \<longleftrightarrow> \<not> lost dir \<and> (\<forall>n. \<not> lost (dir @ [n]))"

lemma map_of_survivors: "map_of (filter (\<lambda>(q, _). \<not> lost q) xs) p = (if lost p then None else map_of xs p)"
  by (induction xs) auto

lemma real_visible_crash:
  "real_visible (real_crash keep lost fs) p = (if lost p then None else map_option (\<lambda>f. of_cache (file_after_crash (keep p) f)) (map_of (rf_files fs) p))"
proof -
  have "map_of (rf_files (real_crash keep lost fs)) p = (if lost p then None else map_option (file_after_crash (keep p)) (map_of (rf_files fs) p))"
    by (simp add: real_crash_def map_of_map_key map_of_survivors)
  moreover have "rh_buffer (handle_of p (real_crash keep lost fs)) = []" by (simp add: handle_of_def real_crash_def)
  ultimately show ?thesis by (simp add: real_visible_def option.map_comp o_def)
qed

lemma file_after_crash_cut:
  assumes "of_cache f @ buf = of_disk f @ c"
  shows "of_cache (file_after_crash k f) =
    of_disk f @ take (if take (length (of_disk f)) (of_cache f) = of_disk f then min k (length (of_cache f) - length (of_disk f)) else 0) c"
proof (cases "take (length (of_disk f)) (of_cache f) = of_disk f")
  case True
  then obtain r where r: "of_cache f = of_disk f @ r" by (metis append_take_drop_id)
  then have "c = r @ buf" using assms by simp
  then show ?thesis using r by (simp add: file_after_crash_def Let_def min_def)
qed (simp add: file_after_crash_def Let_def)

lemma real_crash_keeps:
  assumes "keeps_entries lost dir"
  shows "crash_keeps dir (bytes_kept keep fs) (real_visible fs) (real_durable fs) (real_visible (real_crash keep lost fs))"
  unfolding crash_keeps_def
proof (intro conjI allI impI)
  have vis: "real_visible (real_crash keep lost fs) (dir @ [n]) =
      map_option (\<lambda>f. of_cache (file_after_crash (keep (dir @ [n])) f)) (map_of (rf_files fs) (dir @ [n]))" for n
    using assms by (simp add: real_visible_crash keeps_entries_def)
  then show "(real_visible (real_crash keep lost fs) (dir @ [n]) = None) = (real_visible fs (dir @ [n]) = None)" for n
    by (simp add: real_visible_def)
  fix n b c
  let ?p = "dir @ [n]"
  assume v: "real_visible fs ?p = Some (b @ c)" and d: "real_durable fs ?p = Some b"
  obtain f where f: "map_of (rf_files fs) ?p = Some f" "of_disk f = b" using d by (auto simp: real_durable_def)
  then have "of_cache f @ rh_buffer (handle_of ?p fs) = of_disk f @ c" using v by (simp add: real_visible_def)
  from file_after_crash_cut [OF this, of "keep ?p"]
  show "real_visible (real_crash keep lost fs) ?p = Some (b @ take (bytes_kept keep fs ?p) c)"
    unfolding vis using f by (simp add: bytes_kept_def)
qed

lemma real_crash_quiet:
  assumes "real_wf fs"
  shows "real_quiet (real_crash keep lost fs)"
proof -
  have "map fst (rf_files (real_crash keep lost fs)) = filter (\<lambda>p. \<not> lost p) (map fst (rf_files fs))"
    by (simp add: real_crash_def o_def case_prod_unfold filter_map)
  with assms show ?thesis by (simp add: real_quiet_def real_wf_def) (simp add: real_crash_def)
qed

lemma real_crash_dir: "keeps_entries lost dir \<Longrightarrow> real_is_dir (real_crash keep lost fs) dir = real_is_dir fs dir"
  by (simp add: real_crash_def real_is_dir_def keeps_entries_def)

section \<open>The contracts of the flusher\<close>

text \<open>The log on the production engine, in a directory whose entries a crash with \<open>lost\<close> leaves alone.\<close>

definition real_log_inv ::
    "'o os_ops \<Rightarrow> (path \<Rightarrow> bool) \<Rightarrow> (bytes \<Rightarrow> u32) \<Rightarrow> path \<Rightarrow> 'o real_fs log_state \<Rightarrow> bool" where
  "real_log_inv ops lost crc dir s \<longleftrightarrow>
     keeps_entries lost dir \<and> log_inv (real_ok ops) real_visible real_is_dir real_durable crc dir s"

lemma real_crash_read:
  assumes inv: "real_log_inv ops lost crc dir s" and small: "length (frames crc (lr_written s)) < 2 ^ 64"
    and dec: "list_all2 (\<lambda>d e. deser d = Some e) (lr_written s) es"
  shows "\<exists>found n st'. discover_segment_ids (real_engine ops) dir (real_crash keep lost (lr_fs s)) = Inr found \<and>
      read_segments crc deser (real_engine ops) dir (sort found) [] st (real_crash keep lost (lr_fs s)) =
        (Inr (take n es, st'), real_crash keep lost (lr_fs s)) \<and>
      lr_synced s \<le> n \<and> n \<le> length es \<and> (st' = st \<or> st' = note_partial st)"
proof -
  obtain sealed ds k where log: "manager_log crc (real_visible (lr_fs s)) (real_durable (lr_fs s)) sealed ds k (lr_manager s)"
    "log_data sealed ds = lr_written s" "lr_synced s \<le> durable_count sealed k"
    and ok: "real_wf (lr_fs s)" "real_is_dir (lr_fs s) dir" "sm_dir (lr_manager s) = dir" and keeps: "keeps_entries lost dir"
    using inv by (auto simp: real_log_inv_def log_inv_def real_ok_def)
  have "real_is_dir (real_crash keep lost (lr_fs s)) (sm_dir (lr_manager s))" using ok(2,3) real_crash_dir [OF keeps] by blast
  from real_recovery.read_crashed_log [OF log(1) _ _ real_crash_quiet [OF ok(1)] this real_crash_keeps [OF keeps [folded ok(3)]],
      of deser es ops st]
  show ?thesis using small dec log(2,3) ok(3) by (auto intro: order.trans)
qed

interpretation real_log: synced_log "real_engine ops" "real_log_inv ops lost" for ops lost
proof
  show "manager_fsync_data (real_engine ops) = manager_fsync (real_engine ops)"
    by (simp add: fun_eq_iff manager_fsync_data_def manager_fsync_def segment_fsync_data_def segment_fsync_def real_engine_def real_sync_data_all)
qed (unfold real_log_inv_def, use real.log_step_ok in blast)

interpretation real_restart: recoverable_log "real_engine ops" "real_log_inv ops lost" "real_crash keep lost" deser for ops lost keep deser
  by unfold_locales (use real_crash_read in blast)

lemma real_new_ok: "os_works ops \<Longrightarrow> real_ok ops (real_new os)" "real_visible (real_new os) p = None"
  by (simp_all add: real_ok_def real_wf_def real_new_def real_visible_def sync_failed_def)

section \<open>Crash safety\<close>


text \<open>A system that accepts at most forty bytes at a time.\<close>

definition forty_bytes :: "unit os_ops" where
  "forty_bytes = \<lparr>os_write = (\<lambda>p n os. (Inr (min n 40), os)), os_sync = (\<lambda>p f os. (Inr (), of_cache f, os))\<rparr>"

lemma forty_bytes_works: "os_works forty_bytes"
  by (simp add: os_works_def sync_reaches_device_def forty_bytes_def)

text \<open>A crash that loses no entry.\<close>

lemma keeps_all: "keeps_entries (\<lambda>_. False) dir"
  by (simp add: keeps_entries_def)


text \<open>Opening the log and the write path.\<close>

lemma real_sys_open:
  assumes "os_works ops" "wc_dir c \<noteq> []" "config_new (wc_ring_bits c) (wc_max_writers c) (wc_enable_metrics c) = Inr rc"
    and keeps: "keeps_entries lost (wc_dir c)"
  shows "\<exists>s fs. sys_open (real_engine ops) c n (real_new os) = Inr (Inr s, fs) \<and>
           sys_log_inv (real_log_inv ops lost) P (wc_dir c) n s \<and> sy_tasks s = [] \<and> sr_yielded (sy_stream s) = []"
proof -
  obtain l where "log_open (real_engine ops) (wc_dir c) (wc_max_segment_size c) (wc_direct_io c) (real_new os) = Inr l"
    "log_inv (real_ok ops) real_visible real_is_dir real_durable (fe_crc P) (wc_dir c) l" "lr_written l = []" "lr_synced l = 0"
    "unat (sm_next_segment_id (lr_manager l)) = 2"
    using real.log_open_ok [OF real_new_ok(1) [OF assms(1)] assms(2) allI [OF real_new_ok(2)], where max_size = "wc_max_segment_size c"
        and d = "wc_direct_io c" and crc = "fe_crc P"] by blast
  moreover from this(2) keeps have "real_log_inv ops lost (fe_crc P) (wc_dir c) l" by (simp add: real_log_inv_def)
  ultimately obtain sm fs where
    "manager_open (real_engine ops) (wc_dir c) (wc_max_segment_size c) (wc_direct_io c) (real_new os) = (Inr sm, fs)"
    "flusher_log_inv (real_log_inv ops lost) P (wc_dir c) [] (flusher_start sm fs)"
    using flusher_start_log [where L = "real_log_inv ops lost"] by blast
  from sys_open_start [OF assms(3) this] show ?thesis by blast
qed


definition real_demo_end :: "(u8, u8, unit real_fs) wal_system option" where
  "real_demo_end =
     (case sys_open (real_engine forty_bytes) demo_wal 7 (real_new ()) of
        Inr (Inr s0, _) \<Rightarrow>
          (case sys_run (wal_env sum_crc wire_encode (real_engine forty_bytes) (real_fd_sync forty_bytes) demo_wal) demo_acts s0 of
             Inr s \<Rightarrow> Some s | Inl _ \<Rightarrow> None)
      | _ \<Rightarrow> None)"

lemma real_demo_end_notified:
  "map_option (\<lambda>s. (fl_notified (sy_flusher s), map snd (sr_yielded (sy_stream s)))) real_demo_end =
     Some ([0], [Entry (Insert 7 1 9 4), CommitBarrier (Commit 7 5) 0])"
  by code_simp


text \<open>
  The hypothesis on the directory entries is needed: the same run, and a crash that loses the entry of the
  segment with the acknowledged commit.  Recovery succeeds and finds nothing.
\<close>

lemma lost_entry_loses_commit:
  "map_option (\<lambda>s. map_sum id (\<lambda>(rs, _). map rt_tx_id rs)
       (fst (recover sum_crc wire_decode (\<lambda>xs. xs) (real_engine forty_bytes) [''wal'']
          (real_crash (\<lambda>_. 0) (\<lambda>p. p = segment_path [''wal''] 1) (fl_fs (sy_flusher s)))))) real_demo_end =
     Some (Inr [])"
  by code_simp

end
