(* ===== verification/Store_Props.thy ===== *)
theory Store_Props
  imports Wal_Sim
begin

text \<open>Properties of the store that recovery fills, and of the order in which it is filled.\<close>

definition writes :: "('k, 'v) wal_entry list \<Rightarrow> u64 \<Rightarrow> 'k set" where
  "writes es i = fst ` set (effects (data_of es i))"

text \<open>
  C13. Rebuilding a store.  Let the segments of a directory hold the entries \<open>es\<close>.  Replaying them into an
  empty in-memory store succeeds, and when no two committed transactions write the same key, each
  key a committed transaction writes has the value of that transaction's last entry for it (none when
  that entry deletes it), whatever the order of the recovered transactions; a key that only aborted or
  incomplete transactions write is absent.
\<close>

theorem store_holds_committed_data:
  assumes "discover_segment_ids eng dir fs = Inr found"
    and "read_segments crc deser eng dir (sort found) [] stats_default fs = (Inr (es, st), fs1)"
    and "hash_set_order ho"
    and "\<forall>i j. i \<noteq> j \<longrightarrow> outcome es i = Act_Commit \<longrightarrow> outcome es j = Act_Commit \<longrightarrow> writes es i \<inter> writes es j = {}"
  shows "\<exists>st' m. recover_into_store mem_apply crc deser ho eng dir mem_new fs = (Inr st', m, fs1) \<and>
           (\<forall>i key. outcome es i = Act_Commit \<longrightarrow> key \<in> writes es i \<longrightarrow> mem_get key m = final_value (data_of es i) key None) \<and>
           (\<forall>key. (\<forall>i. outcome es i = Act_Commit \<longrightarrow> key \<notin> writes es i) \<longrightarrow> mem_get key m = None)"
proof -
  from recover_spec [OF assms(1-3)] obtain rs st' reset where
    r: "recover crc deser ho eng dir fs = (Inr (rs, st', reset), fs1)" "distinct (map rt_tx_id rs)"
      "set (map rt_tx_id rs) = set (map tx_id es)"
      "\<forall>r\<in>set rs. rt_action r = outcome es (rt_tx_id r) \<and> rt_entries r = data_of es (rt_tx_id r)" by blast
  define m where "m = (\<lambda>key. final_value (committed_entries rs) key None)"
  have "recover_into_store mem_apply crc deser ho eng dir mem_new fs = (Inr st', m, fs1)"
    by (simp add: recover_into_store_def r(1) apply_transactions_final m_def mem_new_def)
  moreover have keys: "keys_of r = writes es (rt_tx_id r)" if "r \<in> set rs" for r
    using r(4) that by (simp add: keys_of_def writes_def)
  moreover have "mem_get key m = final_value (data_of es i) key None"
    if i: "outcome es i = Act_Commit" "key \<in> writes es i" for i key
  proof -
    from i(2) have "data_of es i \<noteq> []" by (auto simp: writes_def)
    then have "i \<in> set (map tx_id es)" by (auto simp: data_of_def filter_empty_conv)
    then obtain q where q: "q \<in> set rs" "rt_tx_id q = i" unfolding r(3) [symmetric] by auto
    have inj: "rt_tx_id r1 = rt_tx_id r2 \<Longrightarrow> r1 = r2" if "r1 \<in> set rs" "r2 \<in> set rs" for r1 r2
      using r(2) that by (auto simp: distinct_map inj_on_def)
    have "final_value (committed_entries rs) key None = final_value (rt_entries q) key None"
    proof (rule final_value_one)
      show "distinct rs" using r(2) by (simp add: distinct_map)
      show "key \<in> keys_of q" using keys [OF q(1)] i(2) q(2) by simp
      show "\<forall>r1\<in>set rs. \<forall>r2\<in>set rs. r1 \<noteq> r2 \<longrightarrow> rt_action r1 = Act_Commit \<longrightarrow> rt_action r2 = Act_Commit \<longrightarrow>
          keys_of r1 \<inter> keys_of r2 = {}"
        using assms(4) r(4) keys inj by metis
    qed (use q i r(4) in auto)
    with q r(4) show ?thesis by (simp add: mem_get_def m_def)
  qed
  moreover have "mem_get key m = None" if "\<forall>i. outcome es i = Act_Commit \<longrightarrow> key \<notin> writes es i" for key
  proof -
    have "key \<notin> fst ` set (effects (committed_entries rs))"
      by (rule uncommitted_key) (use that keys r(4) in auto)
    then show ?thesis by (simp add: mem_get_def m_def final_value_absent)
  qed
  ultimately show ?thesis by blast
qed

text \<open>One segment with two transactions that write the same key.\<close>

definition two_commits :: "unit sim_fs" where
  "two_commits = (fs_new () fault_none clock_default)\<lparr>fs_dirs := [[''wal'']],
     fs_files := [(segment_path [''wal''] 1, file_new_with_data (frames sum_crc [[7, 9], [7, 0], [8, 5], [8, 0]]))]\<rparr>"

definition two_entries :: "(string, bytes) wal_entry list" where
  "two_entries = [Insert 7 0 ''k'' [9], Commit 7 0, Insert 8 0 ''k'' [5], Commit 8 0]"

lemma two_commits_read:
  "discover_segment_ids (sim_engine unit_rng) [''wal''] two_commits = Inr [1]"
  "read_segments sum_crc name_deser (sim_engine unit_rng) [''wal''] (sort [1]) [] stats_default two_commits =
     (Inr (two_entries, stats_default), two_commits)"
proof -
  let ?bytes = "frames sum_crc [[7, 9], [7, 0], [8, 5], [8, 0]]"
  show "discover_segment_ids (sim_engine unit_rng) [''wal''] two_commits = Inr [1]"
    by (simp add: discover_segment_ids_def sim_engine_def sim_exists_def sim_read_dir_def two_commits_def segment_path_def)
  have "e_open_read (sim_engine unit_rng) (segment_path [''wal''] 1) two_commits =
      (Inr (of_nat (length (?bytes @ [])), ?bytes @ []), two_commits)"
    by (simp add: sim_engine_def sim_open_read_def two_commits_def fs_new_def fault_none_def should_fault_def
        file_new_with_data_def file_all_bytes_def file_visible_len_def Let_def)
  from read_segment_tail [where deser = name_deser and es = two_entries, OF _ _ this, of "[]" stats_default]
  show "read_segments sum_crc name_deser (sim_engine unit_rng) [''wal''] (sort [1]) [] stats_default two_commits =
      (Inr (two_entries, stats_default), two_commits)"
    by (simp add: read_end frames_def HEADER_SIZE_def two_entries_def)
qed

theorem store_holds_committed_data_witness:
  "\<exists>st' m. recover_into_store mem_apply sum_crc small_deser (\<lambda>xs. xs) (sim_engine unit_rng) [''wal''] mem_new one_segment = (Inr st', m, one_segment) \<and>
     mem_get 7 m = Some [9] \<and> mem_get 8 m = None"
proof -
  let ?es = "[Insert 7 0 7 [9], Commit 7 0] :: (u8, bytes) wal_entry list"
  have out: "outcome ?es i = Act_Commit \<longleftrightarrow> i = 7" for i by (auto simp: outcome_def is_marker_def)
  have w: "writes ?es 7 = {7}" "data_of ?es 7 = [Insert 7 0 7 [9]]" by (simp_all add: writes_def data_of_def is_marker_def)
  then have "\<forall>i j. i \<noteq> j \<longrightarrow> outcome ?es i = Act_Commit \<longrightarrow> outcome ?es j = Act_Commit \<longrightarrow> writes ?es i \<inter> writes ?es j = {}"
    using out by auto
  from store_holds_committed_data [OF one_segment_read hash_set_order_id this] obtain st' m where
    m: "recover_into_store mem_apply sum_crc small_deser (\<lambda>xs. xs) (sim_engine unit_rng) [''wal''] mem_new one_segment = (Inr st', m, one_segment)"
      "\<forall>i key. outcome ?es i = Act_Commit \<longrightarrow> key \<in> writes ?es i \<longrightarrow> mem_get key m = final_value (data_of ?es i) key None"
      "\<forall>key. (\<forall>i. outcome ?es i = Act_Commit \<longrightarrow> key \<notin> writes ?es i) \<longrightarrow> mem_get key m = None" by blast
  have "mem_get 7 m = Some [9]" using m(2) w by (auto simp: out final_value_def)
  moreover have "mem_get 8 m = None" using m(3) w by (simp add: out)
  ultimately show ?thesis using m(1) by blast
qed

text \<open>
  The order in which transactions are replayed is that of a hash set, not that of the log.  For one
  directory, in which transaction 8 overwrites what transaction 7 wrote, one iteration order gives the
  newer value and another the older one.
\<close>

theorem store_depends_on_hash_order:
  "\<exists>ho1 ho2 st1 st2 m1 m2. hash_set_order ho1 \<and> hash_set_order ho2 \<and>
     recover_into_store mem_apply sum_crc name_deser ho1 (sim_engine unit_rng) [''wal''] mem_new two_commits = (Inr st1, m1, two_commits) \<and>
     recover_into_store mem_apply sum_crc name_deser ho2 (sim_engine unit_rng) [''wal''] mem_new two_commits = (Inr st2, m2, two_commits) \<and>
     mem_get ''k'' m1 = Some [5] \<and> mem_get ''k'' m2 = Some [9]"
proof -
  have rev: "hash_set_order rev" by (simp add: hash_set_order_def)
  define t where "t = classify two_entries"
  have t: "t = \<lparr>tt_entries = [(7, [Insert 7 0 ''k'' [9]]), (8, [Insert 8 0 ''k'' [5]])], tt_status = [(7, Act_Commit), (8, Act_Commit)], tt_max = 8\<rparr>"
    by (simp add: t_def two_entries_def classify_def classify_entry_def)
  have run: "\<exists>st m. recover_into_store mem_apply sum_crc name_deser ho (sim_engine unit_rng) [''wal''] mem_new two_commits = (Inr st, m, two_commits) \<and>
      mem_get ''k'' m = final_value (committed_entries (map (build_transaction t) (ho [7, 8]))) ''k'' None" for ho
    unfolding recover_into_store_def recover_def two_commits_read sum.case prod.case Let_def t_def [symmetric]
    by (simp add: apply_transactions_final mem_get_def mem_new_def t)
  have "final_value (committed_entries (map (build_transaction t) [7, 8])) ''k'' None = Some [5]"
    "final_value (committed_entries (map (build_transaction t) (rev [7, 8]))) ''k'' None = Some [9]"
    by (simp_all add: committed_entries_def build_transaction_def t final_value_def)
  with run [of "\<lambda>xs. xs"] run [of rev] hash_set_order_id rev show ?thesis by metis
qed

end
