(* ===== verification/Spans.thy ===== *)
theory Spans
  imports Complex_Main Prelude
begin

text \<open>
  The data of crate \<open>span_collector\<close>: spans and batches (\<open>span.rs\<close>), export errors and the simple
  exporters (\<open>exporter.rs\<close>).  A \<open>SystemTime\<close> is a number of nanoseconds relative to the epoch, a
  \<open>Duration\<close> and an \<open>Instant\<close> a natural number of nanoseconds; an \<open>f64\<close> attribute is its bit pattern.
\<close>

type_synonym u128 = "128 word"
type_synonym system_time = int
type_synonym duration = nat
type_synonym instant = nat

section \<open>Spans\<close>

datatype attribute_value = Attr_String string | Attr_Int u64 | Attr_Float u64 | Attr_Bool bool | Attr_Array "string list"

datatype span_status = Status_Ok | Status_Error | Status_Unset

datatype span_kind = Kind_Internal | Kind_Server | Kind_Client | Kind_Producer | Kind_Consumer

record span =
  trace_id :: u128
  span_id :: u64
  parent_span_id :: u64
  start_time :: u64
  end_time :: u64
  span_name :: string
  attributes :: "string \<rightharpoonup> attribute_value"
  status :: span_status
  kind :: span_kind

text \<open>\<open>duration_since(UNIX_EPOCH).unwrap().as_nanos() as u64\<close>: panics before the epoch, else keeps 64 bits.\<close>

definition now_nanos :: "system_time \<Rightarrow> fault + u64" where
  "now_nanos now = (if now < 0 then Inl Panicked else Inr (word_of_int now))"

definition span_new :: "system_time \<Rightarrow> u128 \<Rightarrow> u64 \<Rightarrow> u64 \<Rightarrow> string \<Rightarrow> span_kind \<Rightarrow> fault + span" where
  "span_new now trace sid parent nm knd =
     try_bind (now_nanos now) (\<lambda>t.
       Inr \<lparr>trace_id = trace, span_id = sid, parent_span_id = parent, start_time = t, end_time = t, span_name = nm,
            attributes = Map.empty, status = Status_Unset, kind = knd\<rparr>)"

text \<open>\<open>finish\<close>: a debug build asserts that the end is not before the start.\<close>

definition finish :: "bool \<Rightarrow> system_time \<Rightarrow> span_status \<Rightarrow> span \<Rightarrow> fault + span" where
  "finish debug now stat s =
     try_bind (now_nanos now) (\<lambda>t.
       let s1 = s\<lparr>end_time := t, status := stat\<rparr>
       in if debug \<and> \<not> start_time s1 \<le> end_time s1 then Inl Panicked else Inr s1)"

definition set_attribute :: "string \<Rightarrow> attribute_value \<Rightarrow> span \<Rightarrow> span" where
  "set_attribute key v s = s\<lparr>attributes := (attributes s)(key \<mapsto> v)\<rparr>"

definition duration_nanos :: "span \<Rightarrow> u64" where
  "duration_nanos s = saturating_sub (end_time s) (start_time s)"

lemma finish_duration:
  assumes "span_new t0 trace sid parent nm knd = Inr s" "t0 \<le> t1" "t1 < 2 ^ 64"
  shows "\<exists>s'. finish debug t1 stat s = Inr s' \<and> uint (duration_nanos s') = t1 - t0 \<and> status s' = stat"
proof -
  have t0: "0 \<le> t0" and s: "start_time s = word_of_int t0"
    using assms(1) by (auto simp: span_new_def now_nanos_def split: if_splits)
  have u: "uint (word_of_int t0 :: u64) = t0" "uint (word_of_int t1 :: u64) = t1"
    using t0 assms(2,3) by (simp_all add: uint_word_of_int)
  then have le: "(word_of_int t0 :: u64) \<le> word_of_int t1" using assms(2) by (simp add: word_le_def)
  then have "uint (word_of_int t1 - word_of_int t0 :: u64) = t1 - t0" using u by (simp add: uint_minus_simple_alt)
  with le show ?thesis using t0 assms(2) s by (simp add: finish_def now_nanos_def duration_nanos_def saturating_sub_def Let_def)
qed

section \<open>Batches\<close>

record span_batch =
  spans :: "span list"
  timestamp :: system_time

definition batch_new :: "system_time \<Rightarrow> span_batch" where
  "batch_new now = \<lparr>spans = [], timestamp = now\<rparr>"

definition with_spans :: "system_time \<Rightarrow> span list \<Rightarrow> span_batch" where
  "with_spans now ss = \<lparr>spans = ss, timestamp = now\<rparr>"

definition batch_add :: "span \<Rightarrow> span_batch \<Rightarrow> span_batch" where
  "batch_add s b = b\<lparr>spans := spans b @ [s]\<rparr>"

definition batch_len :: "span_batch \<Rightarrow> nat" where
  "batch_len b = length (spans b)"

definition batch_is_empty :: "span_batch \<Rightarrow> bool" where
  "batch_is_empty b \<longleftrightarrow> spans b = []"

section \<open>Exporters\<close>

datatype export_error =
    Transport string
  | Serialization string
  | RetriesExhausted u32
  | Timeout
  | CircuitOpen

text \<open>
  A \<open>SpanExporter\<close> over a state \<open>'s\<close>: given the batch, the time at which it is called and its state, it
  answers at some time with a result and a new state, or panics.
\<close>

type_synonym 's exporter = "span_batch \<Rightarrow> instant \<Rightarrow> 's \<Rightarrow> fault + (export_error + unit) \<times> instant \<times> 's"

definition null_export :: "'s exporter" where
  "null_export batch t s = Inr (Inr (), t, s)"

text \<open>\<open>JsonFileExporter\<close>: \<open>to_json\<close> is \<open>serde_json\<close>, \<open>write_file\<close> the file system's write of the whole file.\<close>

definition json_export ::
    "(span list \<Rightarrow> string + string) \<Rightarrow> (string \<Rightarrow> string \<Rightarrow> instant \<Rightarrow> 's \<Rightarrow> (string + unit) \<times> instant \<times> 's) \<Rightarrow> string \<Rightarrow> 's exporter" where
  "json_export to_json write_file file_path batch t s =
     (case to_json (spans batch) of
        Inl e \<Rightarrow> Inr (Inl (Serialization e), t, s)
      | Inr json \<Rightarrow>
          (case write_file file_path json t s of
             (Inl e, t1, s1) \<Rightarrow> Inr (Inl (Transport e), t1, s1)
           | (Inr _, t1, s1) \<Rightarrow> Inr (Inr (), t1, s1)))"

end
