(* ===== verification/Resilient.thy ===== *)
theory Resilient
  imports Spans
begin

text \<open>
  The wrappers of \<open>resilient_exporter.rs\<close>: retries with exponential backoff, the circuit breaker and
  their composition.  Time is explicit: an exporter is called at an instant and answers at one.
  \<open>wake\<close> is the runtime's timer, which resumes a task at or after its deadline.  Floating-point numbers
  are rationals; a delay is truncated to whole milliseconds, so rounding can only show there.
  \<open>debug\<close> is whether the build has debug assertions and overflow checks.
\<close>

section \<open>Retry configuration\<close>

record retry_config =
  max_retries :: u32
  initial_delay :: duration
  max_delay :: duration
  backoff_multiplier :: rat

definition from_millis :: "nat \<Rightarrow> duration" where
  "from_millis ms = ms * 1000000"

definition as_millis :: "duration \<Rightarrow> nat" where
  "as_millis d = d div 1000000"

definition retry_config_default :: retry_config where
  "retry_config_default =
     \<lparr>max_retries = 3, initial_delay = from_millis 100, max_delay = from_millis 10000, backoff_multiplier = 2\<rparr>"

text \<open>\<open>x as u64\<close> truncates and saturates.\<close>

definition f64_as_u64 :: "rat \<Rightarrow> nat" where
  "f64_as_u64 x = (if x \<le> 0 then 0 else min (nat \<lfloor>x\<rfloor>) (2 ^ 64 - 1))"

text \<open>
  \<open>initial * multiplier.powi((attempt - 1) as i32)\<close>.  Above \<open>2^31\<close> attempts the exponent is negative; a
  zero multiplier then gives infinity, or no number when the initial delay is zero too.
\<close>

definition delay_millis :: "retry_config \<Rightarrow> u32 \<Rightarrow> nat" where
  "delay_millis c attempt =
     (let ini = of_nat (as_millis (initial_delay c)); m = backoff_multiplier c; k = sint (attempt - 1)
      in if 0 \<le> k then f64_as_u64 (ini * m ^ nat k)
         else if m = 0 then (if ini = 0 then 0 else 2 ^ 64 - 1)
         else f64_as_u64 (ini * inverse m ^ nat (- k)))"

definition delay_for_attempt :: "retry_config \<Rightarrow> u32 \<Rightarrow> duration" where
  "delay_for_attempt c attempt = (if attempt = 0 then 0 else min (from_millis (delay_millis c attempt)) (max_delay c))"

lemma delay_for_attempt_le: "delay_for_attempt c attempt \<le> max_delay c"
  by (simp add: delay_for_attempt_def)

lemma f64_as_u64_mono: "x \<le> y \<Longrightarrow> f64_as_u64 x \<le> f64_as_u64 y"
proof -
  assume "x \<le> y"
  then have "nat \<lfloor>x\<rfloor> \<le> nat \<lfloor>y\<rfloor>" by (intro nat_mono floor_mono)
  then have "min (nat \<lfloor>x\<rfloor>) (2 ^ 64 - 1) \<le> min (nat \<lfloor>y\<rfloor>) (2 ^ 64 - 1)" by (rule min.mono) simp
  with \<open>x \<le> y\<close> show ?thesis unfolding f64_as_u64_def by auto
qed

text \<open>With a multiplier of at least one the delays never shrink.\<close>

lemma delay_mono:
  assumes "1 \<le> backoff_multiplier c" "a \<le> b" "unat b \<le> 2 ^ 31"
  shows "delay_for_attempt c a \<le> delay_for_attempt c b"
proof (cases "a = 0")
  case False
  then have b: "b \<noteq> 0" using assms(2) by auto
  have s: "sint (x - 1) = int (unat x - 1)" if "x \<noteq> 0" "unat x \<le> 2 ^ 31" for x :: u32
  proof -
    have "unat (x - 1) = unat x - 1" using that(1) by (simp add: unat_minus_one)
    then have "uint (x - 1) = int (unat x - 1)" by (metis uint_nat)
    with that(2) show ?thesis by (simp add: sint_uint signed_take_bit_int_eq_self)
  qed
  have ab: "unat a \<le> unat b" using assms(2) by (simp add: word_le_nat_alt)
  have "backoff_multiplier c ^ (unat a - 1) \<le> backoff_multiplier c ^ (unat b - 1)"
    using assms(1) ab by (intro power_increasing) auto
  then have "delay_millis c a \<le> delay_millis c b"
    using s [OF False] s [OF b assms(3)] ab assms(3)
    by (simp add: delay_millis_def Let_def f64_as_u64_mono mult_left_mono)
  then show ?thesis using False b by (simp add: delay_for_attempt_def from_millis_def min_le_iff_disj)
qed (simp add: delay_for_attempt_def)

section \<open>Retrying exporter\<close>

record 's retrying =
  ry_total_retries :: u64
  ry_recovered_exports :: u64
  ry_inner :: 's

definition retrying_new :: "'s \<Rightarrow> 's retrying" where
  "retrying_new s = \<lparr>ry_total_retries = 0, ry_recovered_exports = 0, ry_inner = s\<rparr>"

text \<open>The loop over the attempts that are left.\<close>

fun retry_loop ::
    "bool \<Rightarrow> (instant \<Rightarrow> instant) \<Rightarrow> retry_config \<Rightarrow> 's exporter \<Rightarrow> span_batch \<Rightarrow> u32 \<Rightarrow> u32 list \<Rightarrow> instant \<Rightarrow> 's retrying \<Rightarrow>
     fault + (export_error + unit) \<times> instant \<times> 's retrying" where
  "retry_loop debug wake c inner batch max_attempts [] t r = Inr (Inl (RetriesExhausted max_attempts), t, r)"
| "retry_loop debug wake c inner batch max_attempts (attempt # rest) t r =
     (if debug \<and> \<not> attempt < max_attempts then Inl Panicked
      else
        (let delay = delay_for_attempt c attempt
         in if delay \<noteq> 0 \<and> debug \<and> \<not> delay \<le> max_delay c then Inl Panicked
            else
              (let (t1, r1) = (if delay \<noteq> 0 then (wake (t + delay), r\<lparr>ry_total_retries := ry_total_retries r + 1\<rparr>) else (t, r))
               in try_bind (inner batch t1 (ry_inner r1)) (\<lambda>(res, t2, s).
                    let r2 = r1\<lparr>ry_inner := s\<rparr>
                    in case res of
                         Inr _ \<Rightarrow> Inr (Inr (), t2, if 0 < attempt then r2\<lparr>ry_recovered_exports := ry_recovered_exports r2 + 1\<rparr> else r2)
                       | Inl e \<Rightarrow> if e = CircuitOpen then Inr (Inl e, t2, r2)
                                  else retry_loop debug wake c inner batch max_attempts rest t2 r2))))"

definition attempts_below :: "u32 \<Rightarrow> u32 list" where
  "attempts_below n = map of_nat [0..<unat n]"

definition retry_export :: "bool \<Rightarrow> (instant \<Rightarrow> instant) \<Rightarrow> retry_config \<Rightarrow> 's exporter \<Rightarrow> 's retrying exporter" where
  "retry_export debug wake c inner batch t r =
     (if debug \<and> max_retries c = - 1 then Inl Panicked
      else (let max_attempts = max_retries c + 1
            in retry_loop debug wake c inner batch max_attempts (attempts_below max_attempts) t r))"

section \<open>Circuit breaker\<close>

datatype circuit_state = Cb_Closed | Cb_Open | Cb_HalfOpen

record circuit_breaker_config =
  failure_threshold :: u32
  reset_timeout :: duration
  success_threshold :: u32

definition circuit_breaker_config_default :: circuit_breaker_config where
  "circuit_breaker_config_default =
     \<lparr>failure_threshold = 5, reset_timeout = from_millis 30000, success_threshold = 2\<rparr>"

text \<open>\<open>CircuitBreakerState\<close> and the counter beside it.\<close>

record breaker =
  cb_state :: circuit_state
  cb_failures :: u32
  cb_successes :: u32
  cb_last_failure :: "instant option"
  cb_times_opened :: u32

definition breaker_new :: breaker where
  "breaker_new = \<lparr>cb_state = Cb_Closed, cb_failures = 0, cb_successes = 0, cb_last_failure = None, cb_times_opened = 0\<rparr>"

definition should_allow_request :: "circuit_breaker_config \<Rightarrow> instant \<Rightarrow> breaker \<Rightarrow> bool \<times> breaker" where
  "should_allow_request c now b =
     (case cb_state b of
        Cb_Closed \<Rightarrow> (True, b)
      | Cb_Open \<Rightarrow>
          (case cb_last_failure b of
             Some last_failure \<Rightarrow>
               if reset_timeout c \<le> now - last_failure then (True, b\<lparr>cb_state := Cb_HalfOpen, cb_successes := 0\<rparr>)
               else (False, b)
           | None \<Rightarrow> (False, b))
      | Cb_HalfOpen \<Rightarrow> (True, b))"

text \<open>\<open>x += 1\<close> on a 32-bit counter.\<close>

definition u32_inc :: "bool \<Rightarrow> u32 \<Rightarrow> fault + u32" where
  "u32_inc debug x = (if debug \<and> x = - 1 then Inl Panicked else Inr (x + 1))"

definition valid_on_success :: "circuit_state \<Rightarrow> circuit_state \<Rightarrow> bool" where
  "valid_on_success old_state new_state \<longleftrightarrow> new_state = Cb_Closed \<or> old_state = Cb_HalfOpen \<and> new_state = Cb_HalfOpen"

definition record_success :: "bool \<Rightarrow> circuit_breaker_config \<Rightarrow> breaker \<Rightarrow> fault + breaker" where
  "record_success debug c b =
     try_bind
       (case cb_state b of
          Cb_Closed \<Rightarrow> Inr (b\<lparr>cb_failures := 0\<rparr>)
        | Cb_HalfOpen \<Rightarrow>
            try_bind (u32_inc debug (cb_successes b)) (\<lambda>n.
              Inr (if success_threshold c \<le> n then b\<lparr>cb_successes := n, cb_state := Cb_Closed, cb_failures := 0\<rparr>
                   else b\<lparr>cb_successes := n\<rparr>))
        | Cb_Open \<Rightarrow> Inr (b\<lparr>cb_state := Cb_Closed, cb_failures := 0\<rparr>))
       (\<lambda>b1. if debug \<and> \<not> valid_on_success (cb_state b) (cb_state b1) then Inl Panicked else Inr b1)"

definition valid_on_failure :: "circuit_state \<Rightarrow> circuit_state \<Rightarrow> bool" where
  "valid_on_failure old_state new_state \<longleftrightarrow>
     old_state = Cb_Closed \<and> new_state \<in> {Cb_Closed, Cb_Open} \<or> old_state \<in> {Cb_HalfOpen, Cb_Open} \<and> new_state = Cb_Open"

definition record_failure :: "bool \<Rightarrow> circuit_breaker_config \<Rightarrow> instant \<Rightarrow> breaker \<Rightarrow> fault + breaker" where
  "record_failure debug c now b =
     (let b1 = b\<lparr>cb_last_failure := Some now, cb_successes := 0\<rparr>
      in try_bind
           (case cb_state b1 of
              Cb_Closed \<Rightarrow>
                try_bind (u32_inc debug (cb_failures b1)) (\<lambda>n.
                  Inr (if failure_threshold c \<le> n
                       then b1\<lparr>cb_failures := n, cb_state := Cb_Open, cb_times_opened := cb_times_opened b1 + 1\<rparr>
                       else b1\<lparr>cb_failures := n\<rparr>))
            | Cb_HalfOpen \<Rightarrow> Inr (b1\<lparr>cb_state := Cb_Open, cb_times_opened := cb_times_opened b1 + 1\<rparr>)
            | Cb_Open \<Rightarrow> Inr b1)
           (\<lambda>b2. if debug \<and> \<not> valid_on_failure (cb_state b) (cb_state b2) then Inl Panicked else Inr b2))"

record 's circuit =
  cx_breaker :: breaker
  cx_inner :: 's

definition circuit_new :: "'s \<Rightarrow> 's circuit" where
  "circuit_new s = \<lparr>cx_breaker = breaker_new, cx_inner = s\<rparr>"

definition circuit_export :: "bool \<Rightarrow> circuit_breaker_config \<Rightarrow> 's exporter \<Rightarrow> 's circuit exporter" where
  "circuit_export debug c inner batch t x =
     (case should_allow_request c t (cx_breaker x) of
        (False, b) \<Rightarrow> Inr (Inl CircuitOpen, t, x\<lparr>cx_breaker := b\<rparr>)
      | (True, b) \<Rightarrow>
          try_bind (inner batch t (cx_inner x)) (\<lambda>(res, t1, s).
            case res of
              Inr _ \<Rightarrow> try_bind (record_success debug c b) (\<lambda>b1. Inr (Inr (), t1, \<lparr>cx_breaker = b1, cx_inner = s\<rparr>))
            | Inl e \<Rightarrow> try_bind (record_failure debug c t1 b) (\<lambda>b1. Inr (Inl e, t1, \<lparr>cx_breaker = b1, cx_inner = s\<rparr>))))"

section \<open>Builder\<close>

record resilient_builder =
  rb_retry_config :: "retry_config option"
  rb_circuit_config :: "circuit_breaker_config option"

definition builder_new :: resilient_builder where
  "builder_new = \<lparr>rb_retry_config = None, rb_circuit_config = None\<rparr>"

definition with_retry :: "retry_config \<Rightarrow> resilient_builder \<Rightarrow> resilient_builder" where
  "with_retry c b = b\<lparr>rb_retry_config := Some c\<rparr>"

definition with_circuit_breaker :: "circuit_breaker_config \<Rightarrow> resilient_builder \<Rightarrow> resilient_builder" where
  "with_circuit_breaker c b = b\<lparr>rb_circuit_config := Some c\<rparr>"

text \<open>\<open>unwrap_or_default\<close>.\<close>

definition the_retry :: "resilient_builder \<Rightarrow> retry_config" where
  "the_retry b = (case rb_retry_config b of None \<Rightarrow> retry_config_default | Some c \<Rightarrow> c)"

definition the_circuit :: "resilient_builder \<Rightarrow> circuit_breaker_config" where
  "the_circuit b = (case rb_circuit_config b of None \<Rightarrow> circuit_breaker_config_default | Some c \<Rightarrow> c)"

definition build_retry_only :: "bool \<Rightarrow> (instant \<Rightarrow> instant) \<Rightarrow> 's exporter \<Rightarrow> resilient_builder \<Rightarrow> 's retrying exporter" where
  "build_retry_only debug wake inner b = retry_export debug wake (the_retry b) inner"

definition build_circuit_breaker_only :: "bool \<Rightarrow> 's exporter \<Rightarrow> resilient_builder \<Rightarrow> 's circuit exporter" where
  "build_circuit_breaker_only debug inner b = circuit_export debug (the_circuit b) inner"

definition build_with_retry_and_circuit_breaker ::
    "bool \<Rightarrow> (instant \<Rightarrow> instant) \<Rightarrow> 's exporter \<Rightarrow> resilient_builder \<Rightarrow> 's retrying circuit exporter" where
  "build_with_retry_and_circuit_breaker debug wake inner b =
     circuit_export debug (the_circuit b) (retry_export debug wake (the_retry b) inner)"

section \<open>Rate limiting\<close>

text \<open>
  \<open>IntervalRateLimiter\<close>: an interval of the runtime, or none when unlimited, and the rate it reports
  (\<open>None\<close> stands for the infinite rate).  The interval is the runtime's: \<open>interval\<close> makes one that skips
  missed ticks, \<open>tick\<close> waits for it, \<open>yield_now\<close> gives way to other tasks; \<open>secs_to_duration\<close> is
  \<open>Duration::from_secs_f64\<close>, which panics on what no duration holds.
\<close>

record 'i interval_rate_limiter =
  il_interval :: "'i option"
  il_rate :: "rat option"

definition interval_new :: "(duration \<Rightarrow> 'i) \<Rightarrow> duration \<Rightarrow> 'i interval_rate_limiter" where
  "interval_new interval period =
     (if period = 0 then \<lparr>il_interval = None, il_rate = None\<rparr>
      else \<lparr>il_interval = Some (interval period), il_rate = Some (1 / (of_nat period / 1000000000))\<rparr>)"

definition interval_from_rate ::
    "(duration \<Rightarrow> 'i) \<Rightarrow> (rat \<Rightarrow> fault + duration) \<Rightarrow> rat \<Rightarrow> fault + 'i interval_rate_limiter" where
  "interval_from_rate interval secs_to_duration rate =
     (if \<not> 0 < rate then Inl Panicked
      else try_bind (secs_to_duration (1 / rate)) (\<lambda>period. Inr ((interval_new interval period)\<lparr>il_rate := Some rate\<rparr>)))"

definition interval_unlimited :: "(duration \<Rightarrow> 'i) \<Rightarrow> 'i interval_rate_limiter" where
  "interval_unlimited interval = interval_new interval 0"

definition interval_target_rate :: "'i interval_rate_limiter \<Rightarrow> rat option" where
  "interval_target_rate l = il_rate l"

definition interval_wait ::
    "('i \<Rightarrow> instant \<Rightarrow> instant \<times> 'i) \<Rightarrow> (instant \<Rightarrow> instant) \<Rightarrow> 'i interval_rate_limiter \<Rightarrow> instant \<Rightarrow>
     instant \<times> 'i interval_rate_limiter" where
  "interval_wait tick yield_now l t =
     (case il_interval l of
        Some i \<Rightarrow> (let (t1, i1) = tick i t in (t1, l\<lparr>il_interval := Some i1\<rparr>))
      | None \<Rightarrow> (yield_now t, l))"

text \<open>\<open>RateLimitedExporter\<close> over any limiter's \<open>wait\<close>.\<close>

record ('l, 's) rate_limited =
  rl_limiter :: 'l
  rl_inner :: 's

definition rate_limited_export :: "('l \<Rightarrow> instant \<Rightarrow> instant \<times> 'l) \<Rightarrow> 's exporter \<Rightarrow> ('l, 's) rate_limited exporter" where
  "rate_limited_export limiter_wait inner batch t x =
     (let (t1, l) = limiter_wait (rl_limiter x) t
      in try_bind (inner batch t1 (rl_inner x)) (\<lambda>(res, t2, s). Inr (res, t2, \<lparr>rl_limiter = l, rl_inner = s\<rparr>)))"

end
