(* ===== verification/Resilient_Props.thy ===== *)
theory Resilient_Props
  imports Resilient
begin

text \<open>
  Correctness of the resilience wrappers.  The contract of an exporter is the locale \<open>span_exporter\<close>: it
  answers without a panic, not before it was called, and keeps its invariant.  Each wrapper turns such
  an exporter into another, with a bounded and spaced number of calls to the wrapped one.
\<close>

section \<open>The contract of an exporter\<close>

locale span_exporter =
  fixes inner :: "'s exporter" and inv :: "'s \<Rightarrow> bool"
  assumes answers: "inv s \<Longrightarrow> \<exists>res t1 s1. inner batch t s = Inr (res, t1, s1) \<and> t \<le> t1 \<and> inv s1"

interpretation null: span_exporter null_export "\<lambda>_. True"
  by unfold_locales (simp add: null_export_def)

definition possible_answer :: "'s exporter \<Rightarrow> ('s \<Rightarrow> bool) \<Rightarrow> span_batch \<Rightarrow> export_error + unit \<Rightarrow> bool" where
  "possible_answer inner ok batch res \<longleftrightarrow> (\<exists>t s t1 s1. ok s \<and> inner batch t s = Inr (res, t1, s1))"

section \<open>Retries\<close>

text \<open>The same exporter with a log of its calls: when, and with which result.\<close>

definition recorded :: "'s exporter \<Rightarrow> ((instant \<times> (export_error + unit)) list \<times> 's) exporter" where
  "recorded inner batch t x =
     try_bind (inner batch t (snd x)) (\<lambda>(res, t1, s1). Inr (res, t1, fst x @ [(t, res)], s1))"

lemma recorded_call [simp]:
  "inner batch t (snd x) = Inr (res, t1, s1) \<Longrightarrow> recorded inner batch t x = Inr (res, t1, fst x @ [(t, res)], s1)"
  "inner batch t (snd x) = Inl f \<Longrightarrow> recorded inner batch t x = Inl f"
  by (simp_all add: recorded_def)

definition retryable :: "export_error + unit \<Rightarrow> bool" where
  "retryable res \<longleftrightarrow> (\<exists>e. res = Inl e \<and> e \<noteq> CircuitOpen)"

text \<open>The calls from attempt \<open>k\<close> on, the first not before \<open>t\<close> plus its delay.\<close>

fun spaced :: "retry_config \<Rightarrow> nat \<Rightarrow> instant \<Rightarrow> (instant \<times> (export_error + unit)) list \<Rightarrow> bool" where
  "spaced c k t [] \<longleftrightarrow> True"
| "spaced c k t ((t1, _) # calls) \<longleftrightarrow> t + delay_for_attempt c (of_nat k) \<le> t1 \<and> spaced c (Suc k) t1 calls"

lemma spaced_earlier: "spaced c k t calls \<Longrightarrow> t0 \<le> t \<Longrightarrow> spaced c k t0 calls"
  by (cases calls) auto

text \<open>How \<open>n\<close> attempts end: in a success, in an open circuit, or in \<open>n\<close> failures.\<close>

definition retry_outcome :: "nat \<Rightarrow> u32 \<Rightarrow> (instant \<times> (export_error + unit)) list \<Rightarrow> export_error + unit \<Rightarrow> bool" where
  "retry_outcome n max_attempts calls res \<longleftrightarrow>
     (\<exists>before t final. calls = before @ [(t, final)] \<and> \<not> retryable final \<and> res = final \<and> length calls \<le> n \<and>
        (\<forall>x\<in>set before. retryable (snd x))) \<or>
     length calls = n \<and> (\<forall>x\<in>set calls. retryable (snd x)) \<and> res = Inl (RetriesExhausted max_attempts)"

lemma retry_outcome_Cons:
  "retryable x \<Longrightarrow> retry_outcome n m calls res \<Longrightarrow> retry_outcome (Suc n) m ((t, x) # calls) res"
  unfolding retry_outcome_def by (elim disjE exE conjE) (rule disjI1, force, simp)

lemma retry_outcome_stop: "\<not> retryable x \<Longrightarrow> retry_outcome (Suc n) m [(t, x)] x"
  unfolding retry_outcome_def by force

text \<open>The log does not influence the run.\<close>

definition unlogged :: "('l \<times> 's) retrying \<Rightarrow> 's retrying" where
  "unlogged r = \<lparr>ry_total_retries = ry_total_retries r, ry_recovered_exports = ry_recovered_exports r, ry_inner = snd (ry_inner r)\<rparr>"

lemma unlogged_update [simp]:
  "unlogged (r\<lparr>ry_total_retries := n\<rparr>) = (unlogged r)\<lparr>ry_total_retries := n\<rparr>"
  "unlogged (r\<lparr>ry_recovered_exports := n\<rparr>) = (unlogged r)\<lparr>ry_recovered_exports := n\<rparr>"
  "unlogged (r\<lparr>ry_inner := x\<rparr>) = (unlogged r)\<lparr>ry_inner := snd x\<rparr>"
  "ry_total_retries (unlogged r) = ry_total_retries r" "ry_recovered_exports (unlogged r) = ry_recovered_exports r"
  "ry_inner (unlogged r) = snd (ry_inner r)"
  by (simp_all add: unlogged_def)

lemma retry_loop_unlogged:
  "retry_loop debug wake c (recorded inner) batch m attempts t r = Inr (res, t', r') \<Longrightarrow>
   retry_loop debug wake c inner batch m attempts t (unlogged r) = Inr (res, t', unlogged r')"
proof (induction attempts arbitrary: t r)
  case (Cons a attempts)
  define delay where "delay = delay_for_attempt c a"
  define t1 where "t1 = (if delay \<noteq> 0 then wake (t + delay) else t)"
  obtain out t2 s where call: "inner batch t1 (snd (ry_inner r)) = Inr (out, t2, s)"
    using Cons.prems
    by (cases "inner batch t1 (snd (ry_inner r))") (auto simp: t1_def Let_def simp flip: delay_def split: if_splits)
  show ?case
    using Cons.prems call
    by (cases "delay = 0"; cases out) (auto simp: t1_def Let_def simp flip: delay_def split: if_splits dest!: Cons.IH)
qed simp

lemma retry_export_unlogged:
  "retry_export debug wake c (recorded inner) batch t r = Inr (res, t', r') \<Longrightarrow>
   retry_export debug wake c inner batch t (unlogged r) = Inr (res, t', unlogged r')"
  by (auto simp: retry_export_def Let_def split: if_splits intro: retry_loop_unlogged)

locale retry_setting = span_exporter +
  fixes debug :: bool and wake :: "instant \<Rightarrow> instant" and c :: retry_config
  assumes wakes_late: "t \<le> wake t" and attempts_fit: "max_retries c \<noteq> - 1"
begin

lemma recorded_answers:
  assumes "inv (snd x)"
  shows "\<exists>res t1 s1. recorded inner batch t x = Inr (res, t1, fst x @ [(t, res)], s1) \<and> t \<le> t1 \<and> inv s1 \<and>
           inner batch t (snd x) = Inr (res, t1, s1)"
  using answers [OF assms, of batch t] by (force simp: recorded_def)

lemma retry_loop_spec:
  assumes "inv (snd (ry_inner r))" "k \<le> n" "n \<le> unat m"
  shows "\<exists>res t' calls r'. retry_loop debug wake c (recorded inner) batch m (map of_nat [k..<n]) t r = Inr (res, t', r') \<and>
           fst (ry_inner r') = fst (ry_inner r) @ calls \<and> inv (snd (ry_inner r')) \<and> t \<le> t' \<and>
           retry_outcome (n - k) m calls res \<and> spaced c k t calls \<and> (\<forall>x\<in>set calls. possible_answer inner inv batch (snd x))"
  using assms
proof (induction "n - k" arbitrary: k t r)
  case 0
  then show ?case by (force simp: retry_outcome_def)
next
  case (Suc j)
  then have k: "k < n" "n - Suc k = j" by auto
  define delay where "delay = delay_for_attempt c (of_nat k)"
  define t1 where "t1 = (if delay \<noteq> 0 then wake (t + delay) else t)"
  define r1 where "r1 = (if delay \<noteq> 0 then r\<lparr>ry_total_retries := ry_total_retries r + 1\<rparr> else r)"
  have r1: "ry_inner r1 = ry_inner r" by (simp add: r1_def)
  have t1: "t + delay \<le> t1" "t \<le> t1" using wakes_late [of "t + delay"] by (auto simp: t1_def)
  have "of_nat k < m"
  proof -
    have "k < unat m" using k(1) Suc.prems(3) by simp
    then show ?thesis by (simp add: word_less_nat_alt take_bit_nat_eq_self unat_of_nat order.strict_trans1)
  qed
  note unfold_loop = this delay_for_attempt_le [of c "of_nat k"]
  from recorded_answers [of "ry_inner r" batch t1] Suc.prems(1) obtain res t2 s1 where
    call: "recorded inner batch t1 (ry_inner r) = Inr (res, t2, fst (ry_inner r) @ [(t1, res)], s1)" "t1 \<le> t2" "inv s1"
      "inner batch t1 (snd (ry_inner r)) = Inr (res, t2, s1)"
    by blast
  have real: "possible_answer inner inv batch res" using call(4) Suc.prems(1) unfolding possible_answer_def by blast
  define r2 where "r2 = r1\<lparr>ry_inner := (fst (ry_inner r) @ [(t1, res)], s1)\<rparr>"
  have step: "retry_loop debug wake c (recorded inner) batch m (map of_nat [k..<n]) t r =
      (case res of
         Inr _ \<Rightarrow> Inr (Inr (), t2, if 0 < (of_nat k :: u32) then r2\<lparr>ry_recovered_exports := ry_recovered_exports r2 + 1\<rparr> else r2)
       | Inl e \<Rightarrow> if e = CircuitOpen then Inr (Inl e, t2, r2)
                  else retry_loop debug wake c (recorded inner) batch m (map of_nat [Suc k..<n]) t2 r2)"
    using unfold_loop call(1)
    by (cases "delay = 0"; cases res) (simp_all add: upt_conv_Cons [OF k(1)] Let_def r2_def r1_def t1_def flip: delay_def)
  show ?case
  proof (cases "retryable res")
    case False
    then have "retry_outcome (n - k) m [(t1, res)] res" using retry_outcome_stop [of res j m t1] k by (metis Suc.hyps(2))
    moreover have "res = Inr () \<or> res = Inl CircuitOpen" using False by (cases res) (auto simp: retryable_def)
    ultimately show ?thesis using step call t1 real by (auto simp: r2_def r1 delay_def)
  next
    case True
    then obtain e where e: "res = Inl e" "e \<noteq> CircuitOpen" by (auto simp: retryable_def)
    have "inv (snd (ry_inner r2))" "Suc k \<le> n" using call(3) k by (simp_all add: r2_def)
    from Suc.hyps(1) [OF k(2) [symmetric] this Suc.prems(3), of t2] obtain res' t' calls r' where
      ih: "retry_loop debug wake c (recorded inner) batch m (map of_nat [Suc k..<n]) t2 r2 = Inr (res', t', r')"
        "fst (ry_inner r') = fst (ry_inner r2) @ calls" "inv (snd (ry_inner r'))" "t2 \<le> t'"
        "retry_outcome (n - Suc k) m calls res'" "spaced c (Suc k) t2 calls"
        "\<forall>x\<in>set calls. possible_answer inner inv batch (snd x)" by blast
    have "retry_outcome (n - k) m ((t1, res) # calls) res'"
      using retry_outcome_Cons [OF True ih(5), of t1] k(2) by (simp flip: Suc.hyps(2))
    moreover have "spaced c k t ((t1, res) # calls)"
      using spaced_earlier [OF ih(6) call(2)] t1(1) by (simp add: delay_def)
    moreover have "fst (ry_inner r') = fst (ry_inner r) @ (t1, res) # calls" using ih(2) by (simp add: r2_def)
    moreover have "\<forall>x\<in>set ((t1, res) # calls). possible_answer inner inv batch (snd x)" using ih(7) real by simp
    moreover have "t \<le> t'" using ih(4) call(2) t1(2) by simp
    ultimately show ?thesis using step e ih(1,3) by fastforce
  qed
qed

lemma retry_export_spec:
  assumes "inv (snd (ry_inner r))"
  shows "\<exists>res t' calls r'. retry_export debug wake c (recorded inner) batch t r = Inr (res, t', r') \<and>
           fst (ry_inner r') = fst (ry_inner r) @ calls \<and> inv (snd (ry_inner r')) \<and> t \<le> t' \<and>
           retry_outcome (Suc (unat (max_retries c))) (max_retries c + 1) calls res \<and> spaced c 0 t calls \<and>
           (\<forall>x\<in>set calls. possible_answer inner inv batch (snd x))"
proof -
  have "unat (max_retries c + 1) = Suc (unat (max_retries c))"
    using attempts_fit by (intro unat_Suc_bounded [of _ "- 1"]) (simp add: word_order.not_eq_extremum)
  then show ?thesis
    using retry_loop_spec [OF assms, of 0 "Suc (unat (max_retries c))" "max_retries c + 1" batch t] attempts_fit
    by (simp add: retry_export_def attempts_below_def Let_def)
qed

end

sublocale retry_setting \<subseteq> retried: span_exporter "retry_export debug wake c inner" "\<lambda>r. inv (ry_inner r)"
proof unfold_locales
  fix r :: "_ retrying" and batch t assume "inv (ry_inner r)"
  define r0 where "r0 = \<lparr>ry_total_retries = ry_total_retries r, ry_recovered_exports = ry_recovered_exports r,
    ry_inner = ([] :: (instant \<times> (export_error + unit)) list, ry_inner r)\<rparr>"
  have "unlogged r0 = r" "inv (snd (ry_inner r0))" using \<open>inv (ry_inner r)\<close> by (simp_all add: r0_def unlogged_def)
  with retry_export_spec [of r0 batch t] retry_export_unlogged
  show "\<exists>res t1 s1. retry_export debug wake c inner batch t r = Inr (res, t1, s1) \<and> t \<le> t1 \<and> inv (ry_inner s1)"
    by (metis unlogged_update(6))
qed

section \<open>Circuit breaker\<close>

text \<open>No counter has reached its threshold; an open circuit knows when it failed.\<close>

definition breaker_inv :: "circuit_breaker_config \<Rightarrow> breaker \<Rightarrow> bool" where
  "breaker_inv c b \<longleftrightarrow>
     (case cb_state b of
        Cb_Closed \<Rightarrow> unat (cb_failures b) < max 1 (unat (failure_threshold c))
      | Cb_HalfOpen \<Rightarrow> unat (cb_successes b) < max 1 (unat (success_threshold c))
      | Cb_Open \<Rightarrow> cb_last_failure b \<noteq> None)"

lemma breaker_new_inv: "breaker_inv c breaker_new"
  by (simp add: breaker_inv_def breaker_new_def)

lemma u32_inc_below:
  fixes x n :: u32
  assumes "unat x < max 1 (unat n)"
  shows "u32_inc debug x = Inr (x + 1)" "unat (x + 1) = Suc (unat x)" "n \<le> x + 1 \<longleftrightarrow> Suc (unat x) = max 1 (unat n)"
proof -
  have "unat n < 2 ^ 32" using unsigned_less [of n] by simp
  moreover have "unat (- 1 :: u32) = 2 ^ 32 - 1" by (simp add: unsigned_minus_1_eq_mask mask_eq_exp_minus_1)
  ultimately have "x \<noteq> - 1" using assms by (auto simp: max_def split: if_splits)
  then show "u32_inc debug x = Inr (x + 1)" and u: "unat (x + 1) = Suc (unat x)"
    by (simp_all add: u32_inc_def unat_Suc_bounded [of _ "- 1"] word_order.not_eq_extremum)
  show "n \<le> x + 1 \<longleftrightarrow> Suc (unat x) = max 1 (unat n)" using assms u by (auto simp: word_le_nat_alt max_def split: if_splits)
qed

lemma should_allow_inv: "breaker_inv c b \<Longrightarrow> should_allow_request c now b = (ok, b1) \<Longrightarrow> breaker_inv c b1"
  by (auto simp: should_allow_request_def breaker_inv_def split: circuit_state.splits option.splits if_splits)

lemma record_success_spec:
  assumes "breaker_inv c b"
  shows "\<exists>b1. record_success debug c b = Inr b1 \<and> breaker_inv c b1 \<and>
     (case cb_state b of
        Cb_HalfOpen \<Rightarrow> (if Suc (unat (cb_successes b)) = max 1 (unat (success_threshold c))
                        then cb_state b1 = Cb_Closed \<and> cb_failures b1 = 0
                        else cb_state b1 = Cb_HalfOpen \<and> unat (cb_successes b1) = Suc (unat (cb_successes b)))
      | _ \<Rightarrow> cb_state b1 = Cb_Closed \<and> cb_failures b1 = 0)"
proof (cases "cb_state b")
  case Cb_HalfOpen
  with assms have "unat (cb_successes b) < max 1 (unat (success_threshold c))" by (simp add: breaker_inv_def)
  with Cb_HalfOpen u32_inc_below [OF this] show ?thesis
    by (auto simp: record_success_def breaker_inv_def valid_on_success_def)
qed (auto simp: record_success_def breaker_inv_def valid_on_success_def)

lemma record_failure_spec:
  assumes "breaker_inv c b"
  shows "\<exists>b1. record_failure debug c now b = Inr b1 \<and> breaker_inv c b1 \<and> cb_last_failure b1 = Some now \<and>
     (case cb_state b of
        Cb_Closed \<Rightarrow> (if Suc (unat (cb_failures b)) = max 1 (unat (failure_threshold c)) then cb_state b1 = Cb_Open
                      else cb_state b1 = Cb_Closed \<and> unat (cb_failures b1) = Suc (unat (cb_failures b)))
      | _ \<Rightarrow> cb_state b1 = Cb_Open)"
proof (cases "cb_state b")
  case Cb_Closed
  with assms have "unat (cb_failures b) < max 1 (unat (failure_threshold c))" by (simp add: breaker_inv_def)
  with Cb_Closed u32_inc_below [OF this] show ?thesis
    by (auto simp: record_failure_def breaker_inv_def valid_on_failure_def Let_def)
qed (auto simp: record_failure_def breaker_inv_def valid_on_failure_def Let_def)

text \<open>Wrapping keeps the contract.\<close>

locale circuit_setting = span_exporter +
  fixes debug :: bool and c :: circuit_breaker_config

sublocale circuit_setting \<subseteq> guarded: span_exporter "circuit_export debug c inner"
  "\<lambda>x. breaker_inv c (cx_breaker x) \<and> inv (cx_inner x)"
proof unfold_locales
  fix x :: "_ circuit" and batch t assume x: "breaker_inv c (cx_breaker x) \<and> inv (cx_inner x)"
  obtain ok b where ok: "should_allow_request c t (cx_breaker x) = (ok, b)" by fastforce
  with x have b: "breaker_inv c b" by (auto intro: should_allow_inv)
  show "\<exists>res t1 s1. circuit_export debug c inner batch t x = Inr (res, t1, s1) \<and> t \<le> t1 \<and>
      breaker_inv c (cx_breaker s1) \<and> inv (cx_inner s1)"
  proof (cases ok)
    case True
    from x answers [of "cx_inner x" batch t] obtain res t1 s1 where
      i: "inner batch t (cx_inner x) = Inr (res, t1, s1)" "t \<le> t1" "inv s1" by blast
    with True ok record_success_spec [OF b, of debug] record_failure_spec [OF b, of debug t1] show ?thesis
      by (cases res) (auto simp: circuit_export_def)
  qed (use x ok b in \<open>auto simp: circuit_export_def\<close>)
qed

interpretation null_retry: retry_setting null_export "\<lambda>_. True" debug "\<lambda>t. t" retry_config_default for debug
  by unfold_locales (simp_all add: retry_config_default_def)

interpretation null_resilient: circuit_setting "retry_export debug (\<lambda>t. t) retry_config_default null_export" "\<lambda>_. True"
    debug circuit_breaker_config_default for debug
  by unfold_locales (use null_retry.retried.answers in auto)

section \<open>Overlapping exports\<close>

text \<open>
  \<open>export\<close> takes the lock only to admit a request and to record its result, so exports overlap.  The
  steps of the system: a request is admitted or rejected, an admitted one succeeds or fails, time
  passes.  \<open>sy_outcomes\<close> lists the results in the order in which they were recorded.
\<close>

datatype circuit_event = Admit | Reject | Succeed | Fail | Elapse duration

record circuit_system =
  sy_breaker :: breaker
  sy_inflight :: nat
  sy_now :: instant
  sy_outcomes :: "circuit_event list"

inductive circuit_step :: "bool \<Rightarrow> circuit_breaker_config \<Rightarrow> circuit_system \<Rightarrow> circuit_event \<Rightarrow> circuit_system \<Rightarrow> bool"
  for debug c where
  admit: "should_allow_request c (sy_now y) (sy_breaker y) = (True, b) \<Longrightarrow>
     circuit_step debug c y Admit (y\<lparr>sy_breaker := b, sy_inflight := Suc (sy_inflight y)\<rparr>)"
| reject: "should_allow_request c (sy_now y) (sy_breaker y) = (False, b) \<Longrightarrow>
     circuit_step debug c y Reject (y\<lparr>sy_breaker := b\<rparr>)"
| succeed: "sy_inflight y = Suc n \<Longrightarrow> record_success debug c (sy_breaker y) = Inr b \<Longrightarrow>
     circuit_step debug c y Succeed (y\<lparr>sy_breaker := b, sy_inflight := n, sy_outcomes := sy_outcomes y @ [Succeed]\<rparr>)"
| fail: "sy_inflight y = Suc n \<Longrightarrow> record_failure debug c (sy_now y) (sy_breaker y) = Inr b \<Longrightarrow>
     circuit_step debug c y Fail (y\<lparr>sy_breaker := b, sy_inflight := n, sy_outcomes := sy_outcomes y @ [Fail]\<rparr>)"
| elapse: "circuit_step debug c y (Elapse d) (y\<lparr>sy_now := sy_now y + d\<rparr>)"

inductive circuit_reach :: "bool \<Rightarrow> circuit_breaker_config \<Rightarrow> circuit_system \<Rightarrow> bool" for debug c where
  start: "circuit_reach debug c \<lparr>sy_breaker = breaker_new, sy_inflight = 0, sy_now = t, sy_outcomes = []\<rparr>"
| step: "circuit_reach debug c y \<Longrightarrow> circuit_step debug c y e y' \<Longrightarrow> circuit_reach debug c y'"

inductive_cases circuit_stepE: "circuit_step debug c y e y'"

text \<open>The counters count the results at the end of the list.\<close>

definition ends_in :: "circuit_event \<Rightarrow> nat \<Rightarrow> circuit_event list \<Rightarrow> bool" where
  "ends_in e n es \<longleftrightarrow> (\<exists>es0. es = es0 @ replicate n e)"

lemma ends_in_0 [simp]: "ends_in e 0 es" by (simp add: ends_in_def)

lemma ends_in_Suc [simp]: "ends_in e (Suc n) (es @ [e]) \<longleftrightarrow> ends_in e n es"
  by (simp add: ends_in_def replicate_append_same [symmetric] del: replicate_append_same)

definition counters_ok :: "circuit_system \<Rightarrow> bool" where
  "counters_ok y \<longleftrightarrow>
     (cb_state (sy_breaker y) = Cb_Closed \<longrightarrow> ends_in Fail (unat (cb_failures (sy_breaker y))) (sy_outcomes y)) \<and>
     (cb_state (sy_breaker y) = Cb_HalfOpen \<longrightarrow> ends_in Succeed (unat (cb_successes (sy_breaker y))) (sy_outcomes y))"

lemma circuit_step_inv:
  assumes "circuit_step debug c y e y'" "breaker_inv c (sy_breaker y)" "counters_ok y"
  shows "breaker_inv c (sy_breaker y')" "counters_ok y'"
proof -
  note rs = record_success_spec [OF assms(2), of debug] record_failure_spec [OF assms(2), of debug "sy_now y"]
  from assms(1) show "breaker_inv c (sy_breaker y')"
    by (cases rule: circuit_step.cases) (use assms(2) rs in \<open>auto intro: should_allow_inv\<close>)
  from assms(1) show "counters_ok y'"
    by (cases rule: circuit_step.cases)
      (use assms(3) rs in \<open>auto simp: counters_ok_def should_allow_request_def
         split: circuit_state.splits option.splits if_splits\<close>)
qed

lemma circuit_reach_inv:
  "circuit_reach debug c y \<Longrightarrow> breaker_inv c (sy_breaker y) \<and> counters_ok y"
proof (induction rule: circuit_reach.induct)
  case (start t)
  then show ?case by (simp add: breaker_new_inv counters_ok_def) (simp add: breaker_new_def)
qed (use circuit_step_inv in blast)

section \<open>Properties\<close>

text \<open>
  C18. The retrying exporter around any exporter that answers: it returns, after at least one and at most
  \<open>max_retries + 1\<close> calls; before each further call it waits at least the delay of that attempt; it stops at
  the first success or open circuit and returns that answer, and only after \<open>max_retries + 1\<close> failures
  reports \<open>RetriesExhausted\<close>.  The log of the calls is a ghost: without it the run is the same.
\<close>

theorem retry_bounded:
  assumes "span_exporter inner ok" "\<forall>t. t \<le> wake t" "max_retries c \<noteq> - 1" "ok s"
  shows "\<exists>res t' r' calls. retry_export debug wake c (recorded inner) batch t (retrying_new ([], s)) = Inr (res, t', r') \<and>
           retry_export debug wake c inner batch t (retrying_new s) = Inr (res, t', unlogged r') \<and>
           fst (ry_inner r') = calls \<and> t \<le> t' \<and> calls \<noteq> [] \<and> length calls \<le> Suc (unat (max_retries c)) \<and>
           retry_outcome (Suc (unat (max_retries c))) (max_retries c + 1) calls res \<and> spaced c 0 t calls"
proof -
  have "retry_setting inner ok wake c"
    using assms(1-3) by (simp add: retry_setting_def retry_setting_axioms_def)
  moreover have "ok (snd (ry_inner (retrying_new ([], s))))" using assms(4) by (simp add: retrying_new_def)
  ultimately obtain res t' calls r' where
    r: "retry_export debug wake c (recorded inner) batch t (retrying_new ([], s)) = Inr (res, t', r')"
      "fst (ry_inner r') = fst (ry_inner (retrying_new ([] :: (instant \<times> (export_error + unit)) list, s))) @ calls" "t \<le> t'"
      "retry_outcome (Suc (unat (max_retries c))) (max_retries c + 1) calls res" "spaced c 0 t calls"
    using retry_setting.retry_export_spec by blast
  have "unlogged (retrying_new ([] :: (instant \<times> (export_error + unit)) list, s)) = retrying_new s"
    by (simp add: unlogged_def retrying_new_def)
  with retry_export_unlogged [OF r(1)]
  have "retry_export debug wake c inner batch t (retrying_new s) = Inr (res, t', unlogged r')" by simp
  moreover have "calls \<noteq> []" "length calls \<le> Suc (unat (max_retries c))" using r(4) by (auto simp: retry_outcome_def)
  ultimately show ?thesis using r by (simp add: retrying_new_def)
qed

text \<open>A backend that fails until it has been called twice.\<close>

definition flaky :: "nat exporter" where
  "flaky batch t n = Inr (if n < 2 then Inl Timeout else Inr (), t + 1, Suc n)"

theorem retry_bounded_witness:
  "\<exists>res t' r' calls. retry_export True (\<lambda>t. t) retry_config_default (recorded flaky) (batch_new 0) 0 (retrying_new ([], 0)) = Inr (res, t', r') \<and>
     fst (ry_inner r') = calls \<and> calls \<noteq> [] \<and> length calls \<le> 4 \<and> retry_outcome 4 4 calls res \<and> spaced retry_config_default 0 0 calls"
proof -
  have "span_exporter flaky (\<lambda>_. True)" by unfold_locales (simp add: flaky_def)
  moreover have "max_retries retry_config_default = 3" by (simp add: retry_config_default_def)
  ultimately show ?thesis
    using retry_bounded [of flaky "\<lambda>_. True" "\<lambda>t. t" retry_config_default 0 True "batch_new 0" 0] by simp blast
qed


text \<open>Two requests are admitted; the first to answer fails and opens the circuit.\<close>

definition quick_breaker :: circuit_breaker_config where
  "quick_breaker = \<lparr>failure_threshold = 1, reset_timeout = 5, success_threshold = 2\<rparr>"

definition two_admitted :: circuit_system where
  "two_admitted = \<lparr>sy_breaker = breaker_new, sy_inflight = 2, sy_now = 0, sy_outcomes = []\<rparr>"

definition one_failed :: circuit_system where
  "one_failed = \<lparr>sy_breaker = \<lparr>cb_state = Cb_Open, cb_failures = 1, cb_successes = 0, cb_last_failure = Some 0, cb_times_opened = 1\<rparr>,
     sy_inflight = 1, sy_now = 0, sy_outcomes = [Fail]\<rparr>"

lemma quick_steps:
  "circuit_reach debug quick_breaker two_admitted" "circuit_step debug quick_breaker two_admitted Fail one_failed"
proof -
  have admit: "circuit_step debug quick_breaker y Admit (y\<lparr>sy_inflight := Suc (sy_inflight y)\<rparr>)" if "sy_breaker y = breaker_new" for y
    using circuit_step.admit [of quick_breaker y breaker_new debug] that
    by (simp add: should_allow_request_def breaker_new_def) (metis circuit_system.surjective circuit_system.update_convs(1))
  show "circuit_reach debug quick_breaker two_admitted"
    using circuit_reach.step [OF circuit_reach.step [OF circuit_reach.start [of debug quick_breaker 0] admit] admit]
    by (simp add: two_admitted_def numeral_2_eq_2)
  show "circuit_step debug quick_breaker two_admitted Fail one_failed"
    using circuit_step.fail [of two_admitted 1 debug quick_breaker "sy_breaker one_failed"]
    by (simp add: two_admitted_def one_failed_def record_failure_def breaker_new_def quick_breaker_def u32_inc_def
        valid_on_failure_def Let_def)
qed


text \<open>
  A late success closes an open circuit: the second of the two requests was admitted before the circuit
  opened, and its success closes the circuit at once, without the timeout and without the half-open
  state.
\<close>

theorem late_success_closes_circuit:
  "\<exists>y'. circuit_reach debug quick_breaker one_failed \<and> circuit_step debug quick_breaker one_failed Succeed y' \<and>
     cb_state (sy_breaker one_failed) = Cb_Open \<and> cb_state (sy_breaker y') = Cb_Closed \<and> sy_now y' = 0"
proof -
  have "circuit_reach debug quick_breaker one_failed" by (rule circuit_reach.step [OF quick_steps])
  moreover have "circuit_step debug quick_breaker one_failed Succeed
      (one_failed\<lparr>sy_breaker := (sy_breaker one_failed)\<lparr>cb_state := Cb_Closed, cb_failures := 0\<rparr>, sy_inflight := 0,
         sy_outcomes := [Fail, Succeed]\<rparr>)"
    using circuit_step.succeed [of one_failed 0 debug quick_breaker]
    by (simp add: one_failed_def record_success_def valid_on_success_def)
  ultimately show ?thesis by (force simp: one_failed_def)
qed

section \<open>Both wrappers together\<close>

text \<open>A sequence of exports, each some time after the last answer.\<close>

fun export_run ::
    "'s exporter \<Rightarrow> (duration \<times> span_batch) list \<Rightarrow> instant \<Rightarrow> 's \<Rightarrow> fault + (export_error + unit) list \<times> instant \<times> 's" where
  "export_run ex [] t s = Inr ([], t, s)"
| "export_run ex ((d, batch) # jobs) t s =
     try_bind (ex batch (t + d) s) (\<lambda>(res, t1, s1).
       try_bind (export_run ex jobs t1 s1) (\<lambda>(rs, t2, s2). Inr (res # rs, t2, s2)))"

definition always_fails :: "'s exporter \<Rightarrow> ('s \<Rightarrow> bool) \<Rightarrow> bool" where
  "always_fails inner ok \<longleftrightarrow> (\<forall>batch res. possible_answer inner ok batch res \<longrightarrow> retryable res)"

context retry_setting
begin

lemma retry_export_fails:
  assumes "always_fails inner inv" "inv (snd (ry_inner r))"
  shows "\<exists>t' r'. retry_export debug wake c (recorded inner) batch t r = Inr (Inl (RetriesExhausted (max_retries c + 1)), t', r') \<and>
           inv (snd (ry_inner r')) \<and>
           length (fst (ry_inner r')) = length (fst (ry_inner r)) + Suc (unat (max_retries c))"
proof -
  from retry_export_spec [OF assms(2), of batch t] obtain res t' calls r' where
    r: "retry_export debug wake c (recorded inner) batch t r = Inr (res, t', r')" "fst (ry_inner r') = fst (ry_inner r) @ calls"
      "inv (snd (ry_inner r'))" "retry_outcome (Suc (unat (max_retries c))) (max_retries c + 1) calls res"
      "\<forall>x\<in>set calls. possible_answer inner inv batch (snd x)" by blast
  have "\<forall>x\<in>set calls. retryable (snd x)" using r(5) assms(1) by (auto simp: always_fails_def)
  then have "length calls = Suc (unat (max_retries c))" "res = Inl (RetriesExhausted (max_retries c + 1))"
    using r(4) by (auto simp: retry_outcome_def)
  with r show ?thesis by auto
qed

lemma failing_run:
  assumes fails: "always_fails inner inv"
    and "cb_state (cx_breaker x) = Cb_Closed" "breaker_inv cfg (cx_breaker x)" "inv (snd (ry_inner (cx_inner x)))"
    and "unat (cb_failures (cx_breaker x)) + length jobs = max 1 (unat (failure_threshold cfg))"
  shows "\<exists>rs t' x'. export_run (circuit_export debug cfg (retry_export debug wake c (recorded inner))) jobs t x = Inr (rs, t', x') \<and>
           rs = replicate (length jobs) (Inl (RetriesExhausted (max_retries c + 1))) \<and>
           length (fst (ry_inner (cx_inner x'))) = length (fst (ry_inner (cx_inner x))) + length jobs * Suc (unat (max_retries c)) \<and>
           cb_state (cx_breaker x') = Cb_Open \<and> cb_last_failure (cx_breaker x') = Some t'"
  using assms(2-)
proof (induction jobs arbitrary: t x)
  case Nil
  then show ?case by (simp add: breaker_inv_def)
next
  case (Cons job jobs)
  obtain d batch where job: "job = (d, batch)" by (cases job)
  from retry_export_fails [OF fails Cons.prems(3), of batch "t + d"] obtain t1 r1 where
    r: "retry_export debug wake c (recorded inner) batch (t + d) (cx_inner x) = Inr (Inl (RetriesExhausted (max_retries c + 1)), t1, r1)"
      "inv (snd (ry_inner r1))" "length (fst (ry_inner r1)) = length (fst (ry_inner (cx_inner x))) + Suc (unat (max_retries c))" by blast
  from record_failure_spec [OF Cons.prems(2), of debug t1] Cons.prems(1) obtain b1 where
    b: "record_failure debug cfg t1 (cx_breaker x) = Inr b1" "breaker_inv cfg b1" "cb_last_failure b1 = Some t1"
      "if Suc (unat (cb_failures (cx_breaker x))) = max 1 (unat (failure_threshold cfg)) then cb_state b1 = Cb_Open
       else cb_state b1 = Cb_Closed \<and> unat (cb_failures b1) = Suc (unat (cb_failures (cx_breaker x)))" by auto
  let ?x = "\<lparr>cx_breaker = b1, cx_inner = r1\<rparr>"
  have ex: "circuit_export debug cfg (retry_export debug wake c (recorded inner)) batch (t + d) x =
      Inr (Inl (RetriesExhausted (max_retries c + 1)), t1, ?x)"
    using Cons.prems(1) r(1) b(1) by (simp add: circuit_export_def should_allow_request_def)
  show ?case
  proof (cases "jobs = []")
    case True
    with job ex b(3,4) r(3) Cons.prems(4) show ?thesis by simp
  next
    case False
    then have "Suc (unat (cb_failures (cx_breaker x))) \<noteq> max 1 (unat (failure_threshold cfg))"
      using Cons.prems(4) by (cases jobs) simp_all
    with Cons.prems(4) b(4) have "cb_state b1 = Cb_Closed" "unat (cb_failures b1) + length jobs = max 1 (unat (failure_threshold cfg))"
      by (auto split: if_splits)
    with Cons.IH [of ?x t1] b(2) r(2) obtain rs t' x' where
      "export_run (circuit_export debug cfg (retry_export debug wake c (recorded inner))) jobs t1 ?x = Inr (rs, t', x')"
      "rs = replicate (length jobs) (Inl (RetriesExhausted (max_retries c + 1)))"
      "length (fst (ry_inner (cx_inner x'))) = length (fst (ry_inner r1)) + length jobs * Suc (unat (max_retries c))"
      "cb_state (cx_breaker x') = Cb_Open" "cb_last_failure (cx_breaker x') = Some t'" by auto
    with job ex r(3) show ?thesis by simp
  qed
qed

end

text \<open>
  C19. The composed exporter in front of a backend that always fails: every export is tried exactly
  \<open>max_retries + 1\<close> times and reports \<open>RetriesExhausted\<close>; after \<open>failure_threshold\<close> exports the circuit is
  open, and every export within \<open>reset_timeout\<close> of the last answer is refused with \<open>CircuitOpen\<close>, at once
  and without a call of the backend.
\<close>

theorem resilient_fails_fast:
  assumes "span_exporter inner ok" "\<forall>t. t \<le> wake t" "max_retries (the_retry b) \<noteq> - 1" "ok s" "always_fails inner ok"
    and "length jobs = max 1 (unat (failure_threshold (the_circuit b)))"
  shows "\<exists>rs t' x'. export_run (build_with_retry_and_circuit_breaker debug wake (recorded inner) b) jobs t
             (circuit_new (retrying_new ([], s))) = Inr (rs, t', x') \<and>
           (\<forall>res\<in>set rs. res = Inl (RetriesExhausted (max_retries (the_retry b) + 1))) \<and>
           length (fst (ry_inner (cx_inner x'))) = length jobs * Suc (unat (max_retries (the_retry b))) \<and>
           cb_state (cx_breaker x') = Cb_Open \<and>
           (\<forall>batch d. d < reset_timeout (the_circuit b) \<longrightarrow>
              build_with_retry_and_circuit_breaker debug wake (recorded inner) b batch (t' + d) x' = Inr (Inl CircuitOpen, t' + d, x'))"
proof -
  let ?x = "circuit_new (retrying_new ([] :: (instant \<times> (export_error + unit)) list, s))"
  have "retry_setting inner ok wake (the_retry b)"
    using assms(1-3) by (simp add: retry_setting_def retry_setting_axioms_def)
  moreover have "cb_state (cx_breaker ?x) = Cb_Closed" "breaker_inv (the_circuit b) (cx_breaker ?x)" "ok (snd (ry_inner (cx_inner ?x)))"
    "unat (cb_failures (cx_breaker ?x)) + length jobs = max 1 (unat (failure_threshold (the_circuit b)))"
    using assms(4,6) breaker_new_inv by (simp_all add: circuit_new_def retrying_new_def) (simp_all add: breaker_new_def)
  ultimately obtain rs t' x' where
    r: "export_run (build_with_retry_and_circuit_breaker debug wake (recorded inner) b) jobs t ?x = Inr (rs, t', x')"
      "rs = replicate (length jobs) (Inl (RetriesExhausted (max_retries (the_retry b) + 1)))"
      "length (fst (ry_inner (cx_inner x'))) = length (fst (ry_inner (cx_inner ?x))) + length jobs * Suc (unat (max_retries (the_retry b)))"
      "cb_state (cx_breaker x') = Cb_Open" "cb_last_failure (cx_breaker x') = Some t'"
    unfolding build_with_retry_and_circuit_breaker_def using retry_setting.failing_run [OF _ assms(5)] by metis
  have "build_with_retry_and_circuit_breaker debug wake (recorded inner) b batch (t' + d) x' = Inr (Inl CircuitOpen, t' + d, x')"
    if "d < reset_timeout (the_circuit b)" for batch d
    using r(4,5) that by (simp add: build_with_retry_and_circuit_breaker_def circuit_export_def should_allow_request_def)
  with r show ?thesis by (auto simp: circuit_new_def retrying_new_def)
qed

definition broken :: "unit exporter" where
  "broken batch t s = Inr (Inl Timeout, t + 3, s)"

theorem resilient_fails_fast_witness:
  "\<exists>rs t' x'. export_run (build_with_retry_and_circuit_breaker True (\<lambda>t. t) (recorded broken) builder_new)
       (replicate 5 (1, batch_new 0)) 0 (circuit_new (retrying_new ([], ()))) = Inr (rs, t', x') \<and>
     length (fst (ry_inner (cx_inner x'))) = 20 \<and> cb_state (cx_breaker x') = Cb_Open"
proof -
  have "span_exporter broken (\<lambda>_. True)" by unfold_locales (simp add: broken_def)
  moreover have "always_fails broken (\<lambda>_. True)" by (auto simp: always_fails_def possible_answer_def broken_def retryable_def)
  moreover have d: "max_retries (the_retry builder_new) = 3" "failure_threshold (the_circuit builder_new) = 5"
    by (simp_all add: the_retry_def the_circuit_def builder_new_def retry_config_default_def circuit_breaker_config_default_def)
  ultimately show ?thesis
    using resilient_fails_fast [of broken "\<lambda>_. True" "\<lambda>t. t" builder_new "()" "replicate 5 (1, batch_new 0)" True 0]
    by (simp add: d) blast
qed

end
