(* ===== verification/Batch.thy ===== *)
theory Batch
  imports Spans "HOL-Library.AList" "HOL-Library.Multiset"
begin

text \<open>
  The batch processor (\<open>batch_processor.rs\<close>): spans wait grouped by trace until a size or time
  threshold, and leave as one batch.  The hash map is an association list; \<open>order\<close> is the order in
  which draining it yields its groups, which the language leaves open.
\<close>

record batch_config =
  batch_size_limit :: usize
  batch_timeout :: duration

definition batch_config_default :: batch_config where
  "batch_config_default = \<lparr>batch_size_limit = 10000, batch_timeout = 5000000000\<rparr>"

record batch_metrics =
  spans_exported :: u64
  batches_exported :: u64
  export_errors :: u64

definition batch_metrics_default :: batch_metrics where
  "batch_metrics_default = \<lparr>spans_exported = 0, batches_exported = 0, export_errors = 0\<rparr>"

definition batch_record_success :: "u64 \<Rightarrow> batch_metrics \<Rightarrow> batch_metrics" where
  "batch_record_success span_count m =
     m\<lparr>spans_exported := spans_exported m + span_count, batches_exported := batches_exported m + 1\<rparr>"

definition batch_record_error :: "batch_metrics \<Rightarrow> batch_metrics" where
  "batch_record_error m = m\<lparr>export_errors := export_errors m + 1\<rparr>"

record batch_processor =
  bp_pending :: "(u128 \<times> span list) list"
  bp_config :: batch_config
  bp_metrics :: batch_metrics
  bp_last_flush :: instant

definition processor_new :: "instant \<Rightarrow> batch_config \<Rightarrow> batch_processor" where
  "processor_new now c = \<lparr>bp_pending = [], bp_config = c, bp_metrics = batch_metrics_default, bp_last_flush = now\<rparr>"

definition processor_add :: "span \<Rightarrow> batch_processor \<Rightarrow> batch_processor" where
  "processor_add s bp =
     bp\<lparr>bp_pending := AList.map_default (trace_id s) [s] (\<lambda>ss. ss @ [s]) (bp_pending bp)\<rparr>"

definition total_pending :: "batch_processor \<Rightarrow> nat" where
  "total_pending bp = sum_list (map (length \<circ> snd) (bp_pending bp))"

definition should_flush :: "instant \<Rightarrow> batch_processor \<Rightarrow> bool" where
  "should_flush now bp \<longleftrightarrow>
     bp_pending bp \<noteq> [] \<and>
     (unat (batch_size_limit (bp_config bp)) \<le> total_pending bp \<or> batch_timeout (bp_config bp) \<le> now - bp_last_flush bp)"

text \<open>\<open>pending.drain().flat_map(..).collect()\<close>.\<close>

definition drain_pending :: "((u128 \<times> span list) list \<Rightarrow> (u128 \<times> span list) list) \<Rightarrow> batch_processor \<Rightarrow> span list \<times> batch_processor" where
  "drain_pending order bp = (concat (map snd (order (bp_pending bp))), bp\<lparr>bp_pending := []\<rparr>)"

text \<open>\<open>flush\<close> with an exporter; \<open>sys\<close> is the wall clock.  The spans have left the map when the export fails.\<close>

definition processor_flush ::
    "((u128 \<times> span list) list \<Rightarrow> (u128 \<times> span list) list) \<Rightarrow> system_time \<Rightarrow> 's exporter \<Rightarrow> instant \<Rightarrow> batch_processor \<times> 's \<Rightarrow>
     fault + (export_error + unit) \<times> instant \<times> batch_processor \<times> 's" where
  "processor_flush order sys exporter t x =
     (case x of (bp, s) \<Rightarrow>
        if bp_pending bp = [] then Inr (Inr (), t, bp, s)
        else
          (let (drained, bp1) = drain_pending order bp; span_count = length drained
           in try_bind (exporter (with_spans sys drained) t s) (\<lambda>(res, t1, s1).
                case res of
                  Inr _ \<Rightarrow> Inr (Inr (), t1, bp1\<lparr>bp_metrics := batch_record_success (of_nat span_count) (bp_metrics bp1), bp_last_flush := t1\<rparr>, s1)
                | Inl e \<Rightarrow> Inr (Inl e, t1, bp1\<lparr>bp_metrics := batch_record_error (bp_metrics bp1)\<rparr>, s1))))"

definition take_batch ::
    "((u128 \<times> span list) list \<Rightarrow> (u128 \<times> span list) list) \<Rightarrow> system_time \<Rightarrow> instant \<Rightarrow> batch_processor \<Rightarrow>
     span_batch option \<times> batch_processor" where
  "take_batch order sys now bp =
     (if bp_pending bp = [] then (None, bp)
      else (let (drained, bp1) = drain_pending order bp in (Some (with_spans sys drained), bp1\<lparr>bp_last_flush := now\<rparr>)))"

section \<open>What is pending\<close>

definition pending_spans :: "batch_processor \<Rightarrow> span multiset" where
  "pending_spans bp = mset (concat (map snd (bp_pending bp)))"

text \<open>Every group holds the spans of its trace, each trace has one group, none is empty.\<close>

definition processor_inv :: "batch_processor \<Rightarrow> bool" where
  "processor_inv bp \<longleftrightarrow> distinct (map fst (bp_pending bp)) \<and>
     (\<forall>(k, ss)\<in>set (bp_pending bp). ss \<noteq> [] \<and> (\<forall>s\<in>set ss. trace_id s = k))"

definition hash_map_order :: "('k \<times> 'v) list \<Rightarrow> ('k \<times> 'v) list \<Rightarrow> bool" where
  "hash_map_order xs ys \<longleftrightarrow> mset ys = mset xs"

definition drains :: "((u128 \<times> span list) list \<Rightarrow> (u128 \<times> span list) list) \<Rightarrow> bool" where
  "drains order \<longleftrightarrow> (\<forall>xs. hash_map_order xs (order xs))"

lemma mset_concat_order: "mset ys = mset xs \<Longrightarrow> mset (concat (map snd ys)) = mset (concat (map snd xs))"
proof -
  assume eq: "mset ys = mset xs"
  have "mset (concat (map snd zs)) = \<Sum>\<^sub># (image_mset (mset \<circ> snd) (mset zs))" for zs :: "('a \<times> 'b list) list"
    by (induction zs) auto
  with eq show ?thesis by simp
qed

lemma map_default_concat:
  "mset (concat (map snd (AList.map_default k [s] (\<lambda>ss. ss @ [s]) xs))) = mset (concat (map snd xs)) + {#s#}"
  by (induction xs) auto

lemma processor_add_spec:
  "pending_spans (processor_add s bp) = pending_spans bp + {#s#}"
  "processor_inv bp \<Longrightarrow> processor_inv (processor_add s bp)"
proof -
  show "pending_spans (processor_add s bp) = pending_spans bp + {#s#}"
    unfolding pending_spans_def processor_add_def by (simp add: map_default_concat)
  have "processor_inv (bp\<lparr>bp_pending := AList.map_default (trace_id s) [s] (\<lambda>ss. ss @ [s]) xs\<rparr>)"
    if "processor_inv (bp\<lparr>bp_pending := xs\<rparr>)" for xs
    using that
  proof (induction xs)
    case (Cons x xs)
    have keys: "fst ` set (AList.map_default k v f ys) = insert k (fst ` set ys)" for k v f and ys :: "(u128 \<times> span list) list"
      by (induction ys) auto
    from Cons show ?case by (cases x) (auto simp: processor_inv_def keys)
  qed (simp add: processor_inv_def)
  from this [of "bp_pending bp"] show "processor_inv bp \<Longrightarrow> processor_inv (processor_add s bp)"
    by (simp add: processor_add_def)
qed

lemma processor_add_all:
  "pending_spans (foldl (\<lambda>bp s. processor_add s bp) bp ss) = pending_spans bp + mset ss"
  "processor_inv bp \<Longrightarrow> processor_inv (foldl (\<lambda>bp s. processor_add s bp) bp ss)"
  by (induction ss arbitrary: bp) (simp_all add: processor_add_spec)

lemma total_pending_size: "total_pending bp = size (pending_spans bp)"
proof -
  have "sum_list (map (length \<circ> snd) xs) = size (mset (concat (map snd xs)))" for xs :: "(u128 \<times> span list) list"
    by (induction xs) auto
  then show ?thesis by (simp add: total_pending_def pending_spans_def)
qed

lemma pending_empty: "processor_inv bp \<Longrightarrow> bp_pending bp = [] \<longleftrightarrow> pending_spans bp = {#}"
  by (cases "bp_pending bp") (auto simp: processor_inv_def pending_spans_def)

lemma drain_pending_spec:
  assumes "drains order"
  shows "drain_pending order bp = (ss, bp1) \<Longrightarrow> mset ss = pending_spans bp \<and> pending_spans bp1 = {#} \<and> processor_inv bp1"
  using assms mset_concat_order [of "order (bp_pending bp)" "bp_pending bp"]
  by (auto simp: drain_pending_def pending_spans_def processor_inv_def drains_def hash_map_order_def)

lemma take_batch_spec:
  assumes "drains order" "processor_inv bp" "take_batch order sys now bp = (res, bp1)"
  shows "processor_inv bp1 \<and> pending_spans bp1 = {#} \<and>
     (case res of None \<Rightarrow> pending_spans bp = {#} | Some b \<Rightarrow> mset (spans b) = pending_spans bp \<and> pending_spans bp \<noteq> {#})"
proof (cases "bp_pending bp = []")
  case True
  with assms(2,3) show ?thesis by (auto simp: take_batch_def pending_spans_def)
next
  case False
  obtain ss bp2 where d: "drain_pending order bp = (ss, bp2)" by fastforce
  with assms(3) False have "res = Some (with_spans sys ss)" "bp1 = bp2\<lparr>bp_last_flush := now\<rparr>" by (auto simp: take_batch_def)
  with drain_pending_spec [OF assms(1) d] pending_empty [OF assms(2)] False show ?thesis
    by (auto simp: with_spans_def processor_inv_def pending_spans_def)
qed

text \<open>A failed \<open>flush\<close> loses every span that was pending.\<close>

lemma failed_flush_drops_spans:
  assumes "drains order" "bp_pending bp \<noteq> []" "\<And>batch. exporter batch t s = Inr (Inl e, t1, s1)"
  shows "\<exists>bp1. processor_flush order sys exporter t (bp, s) = Inr (Inl e, t1, bp1, s1) \<and> pending_spans bp1 = {#} \<and>
    spans_exported (bp_metrics bp1) = spans_exported (bp_metrics bp)"
  using assms by (auto simp: processor_flush_def drain_pending_def pending_spans_def batch_record_error_def Let_def)

end
