(* ===== verification/Collector.thy ===== *)
theory Collector
  imports Channel_Trace Batch
begin

text \<open>
  The span collector (\<open>collector.rs\<close>) and its asynchronous front end (\<open>async_bridge.rs\<close>): producers submit
  spans into the rings of a channel; a consumer task moves them into the batch processor and hands
  batches to concurrent export tasks, whose number a semaphore bounds.  The task is a step function
  over the events that can happen next: other threads' submissions, ticks, a permit becoming free, a
  task finishing with some result, shutdown.
\<close>

section \<open>Collector\<close>

record collector_config =
  cc_ring_bits :: u8
  cc_max_producers :: u8
  cc_enable_metrics :: bool

definition collector_config_default :: collector_config where
  "collector_config_default = \<lparr>cc_ring_bits = 12, cc_max_producers = 16, cc_enable_metrics = True\<rparr>"

text \<open>\<open>From<CollectorConfig> for Config\<close>: a struct literal, without the checks of \<open>Config::new\<close>.\<close>

definition to_config :: "collector_config \<Rightarrow> config" where
  "to_config c = \<lparr>ring_bits = cc_ring_bits c, max_producers = ucast (cc_max_producers c), enable_metrics = cc_enable_metrics c\<rparr>"

record collector_metrics =
  cm_spans_submitted :: u64
  cm_spans_consumed :: u64
  cm_full_events :: u64
  cm_reserve_retries :: u64

definition collector_metrics_new :: collector_metrics where
  "collector_metrics_new = \<lparr>cm_spans_submitted = 0, cm_spans_consumed = 0, cm_full_events = 0, cm_reserve_retries = 0\<rparr>"

datatype submit_error = Submit_Full | Submit_Closed

record span_collector =
  sc_channel :: "span channel"
  sc_config :: collector_config
  sc_metrics :: collector_metrics

definition collector_new :: "bool \<Rightarrow> collector_config \<Rightarrow> span_collector" where
  "collector_new debug c = \<lparr>sc_channel = channel_new debug (to_config c), sc_config = c, sc_metrics = collector_metrics_new\<rparr>"

definition collector_register :: "span_collector \<Rightarrow> fault + (channel_error + usize) \<times> span_collector" where
  "collector_register sc = try_bind (channel_register (sc_channel sc)) (\<lambda>(res, ch). Inr (res, sc\<lparr>sc_channel := ch\<rparr>))"

text \<open>
  The consumers count what the callback got in an \<open>i32\<close>, which is widened to \<open>u64\<close> for the metric.
\<close>

definition count_spans :: "32 word \<Rightarrow> span_collector \<Rightarrow> span_collector" where
  "count_spans n sc =
     (if 0 < sint n
      then sc\<lparr>sc_metrics := (sc_metrics sc)\<lparr>cm_spans_consumed := cm_spans_consumed (sc_metrics sc) + word_of_int (sint n)\<rparr>\<rparr>
      else sc)"

definition collector_consume_all_up_to ::
    "usize \<Rightarrow> ('h \<Rightarrow> span \<Rightarrow> 'h) \<Rightarrow> 'h \<Rightarrow> span_collector \<Rightarrow> fault + usize \<times> 'h \<times> span_collector" where
  "collector_consume_all_up_to limit f h sc =
     try_bind (channel_consume_all_up_to_owned limit (\<lambda>(h, n) s. (f h s, n + 1)) (h, 0) (sc_channel sc))
       (\<lambda>(result, (h', n), ch). Inr (result, h', count_spans n (sc\<lparr>sc_channel := ch\<rparr>)))"

definition collector_consume_all ::
    "('h \<Rightarrow> span \<Rightarrow> 'h) \<Rightarrow> 'h \<Rightarrow> span_collector \<Rightarrow> fault + usize \<times> 'h \<times> span_collector" where
  "collector_consume_all f h sc =
     try_bind (channel_consume_all_owned (\<lambda>(h, n) s. (f h s, n + 1)) (h, 0) (sc_channel sc))
       (\<lambda>(result, (h', n), ch). Inr (result, h', count_spans n (sc\<lparr>sc_channel := ch\<rparr>)))"

definition collector_close :: "span_collector \<Rightarrow> fault + span_collector" where
  "collector_close sc = try_bind (channel_close (sc_channel sc)) (\<lambda>ch. Inr (sc\<lparr>sc_channel := ch\<rparr>))"

section \<open>Producers\<close>

text \<open>What both kinds of submission do with the reservation they got.\<close>

definition submit_with ::
    "(span ring \<Rightarrow> fault + reservation option \<times> span ring) \<Rightarrow> usize \<Rightarrow> span \<Rightarrow> span_collector \<Rightarrow>
     fault + (submit_error + unit) \<times> span_collector" where
  "submit_with reserve i s sc =
     try_bind
       (on_ring i (\<lambda>r. try_bind (reserve r) (\<lambda>(res, r1).
          case res of
            None \<Rightarrow> Inr (False, r1)
          | Some v \<Rightarrow> try_bind (reservation_write v 0 s r1) (\<lambda>r2. Inr (True, reservation_commit v r2))))
        (sc_channel sc))
       (\<lambda>(ok, ch).
          let m = sc_metrics sc
          in Inr (if ok
                  then (Inr (), sc\<lparr>sc_channel := ch, sc_metrics := m\<lparr>cm_spans_submitted := cm_spans_submitted m + 1\<rparr>\<rparr>)
                  else (Inl Submit_Full, sc\<lparr>sc_channel := ch, sc_metrics := m\<lparr>cm_full_events := cm_full_events m + 1\<rparr>\<rparr>)))"

definition submit_span ::
    "(nat \<Rightarrow> span ring \<Rightarrow> span ring) \<Rightarrow> usize \<Rightarrow> span \<Rightarrow> span_collector \<Rightarrow> fault + (submit_error + unit) \<times> span_collector" where
  "submit_span env = submit_with (ring_reserve_with_backoff env 1)"

definition try_submit_span :: "usize \<Rightarrow> span \<Rightarrow> span_collector \<Rightarrow> fault + (submit_error + unit) \<times> span_collector" where
  "try_submit_span = submit_with (ring_reserve 1)"

text \<open>
  \<open>AsyncSpanProducer::submit_span\<close>: \<open>wakes\<close> lists what the rest of the system does before each wake-up;
  \<open>None\<close> is a call that is still suspended.
\<close>

fun async_submit_span ::
    "(span_collector \<Rightarrow> span_collector) list \<Rightarrow> usize \<Rightarrow> span \<Rightarrow> span_collector \<Rightarrow>
     fault + (submit_error + unit) option \<times> span_collector" where
  "async_submit_span wakes i s sc =
     try_bind (try_submit_span i s sc) (\<lambda>(res, sc1).
       case res of
         Inr _ \<Rightarrow> Inr (Some (Inr ()), sc1)
       | Inl Submit_Full \<Rightarrow> (case wakes of [] \<Rightarrow> Inr (None, sc1) | w # ws \<Rightarrow> async_submit_span ws i s (w sc1))
       | Inl e \<Rightarrow> Inr (Some (Inl e), sc1))"

declare async_submit_span.simps [simp del]

section \<open>The consumer task\<close>

record export_metrics =
  em_spans_exported :: u64
  em_batches_exported :: u64
  em_export_errors :: u64
  em_inflight :: u64

definition export_metrics_default :: export_metrics where
  "export_metrics_default = \<lparr>em_spans_exported = 0, em_batches_exported = 0, em_export_errors = 0, em_inflight = 0\<rparr>"

definition export_record_success :: "u64 \<Rightarrow> export_metrics \<Rightarrow> export_metrics" where
  "export_record_success span_count m =
     m\<lparr>em_spans_exported := em_spans_exported m + span_count, em_batches_exported := em_batches_exported m + 1\<rparr>"

definition export_record_error :: "export_metrics \<Rightarrow> export_metrics" where
  "export_record_error m = m\<lparr>em_export_errors := em_export_errors m + 1\<rparr>"

definition inc_inflight :: "export_metrics \<Rightarrow> export_metrics" where
  "inc_inflight m = m\<lparr>em_inflight := em_inflight m + 1\<rparr>"

definition dec_inflight :: "export_metrics \<Rightarrow> export_metrics" where
  "dec_inflight m = m\<lparr>em_inflight := em_inflight m - 1\<rparr>"

text \<open>\<open>export_batch\<close> once the exporter has answered \<open>res\<close>.\<close>

definition export_batch :: "export_error + unit \<Rightarrow> u64 \<Rightarrow> export_metrics \<Rightarrow> (export_error + unit) \<times> export_metrics" where
  "export_batch res span_count m =
     (case res of Inr _ \<Rightarrow> (Inr (), export_record_success span_count m) | Inl e \<Rightarrow> (Inl e, export_record_error m))"

record async_config =
  ac_collector_config :: collector_config
  ac_batch_config :: batch_config
  ac_consumer_interval :: duration
  ac_max_consume :: usize
  ac_max_concurrent :: nat

definition async_config_default :: async_config where
  "async_config_default =
     \<lparr>ac_collector_config = collector_config_default, ac_batch_config = batch_config_default,
      ac_consumer_interval = 100000000, ac_max_consume = 10000, ac_max_concurrent = 4\<rparr>"

text \<open>
  The consumer task is in its loop, awaits the final export of the shutdown, joins the spawned exports, has
  ended, or has panicked in the final export.
\<close>

datatype task_phase = Running | Finishing | Joining | Stopped | Crashed

text \<open>
  \<open>as_waiting\<close> is the batch for which the task awaits a permit; \<open>as_tasks\<close> are the spawned exports that have
  not finished; \<open>as_final\<close> is the batch of the final export, while it runs or when it has panicked;
  \<open>as_exported\<close> lists the batches the exporter has answered for, with its answers; \<open>as_lost\<close> those whose
  export panicked or was aborted.
\<close>

record async_collector =
  as_collector :: span_collector
  as_processor :: batch_processor
  as_permits :: nat
  as_tasks :: "span_batch list"
  as_waiting :: "span_batch option"
  as_final :: "span_batch option"
  as_metrics :: export_metrics
  as_notified :: nat
  as_exported :: "(span_batch \<times> (export_error + unit)) list"
  as_lost :: "span_batch list"
  as_signalled :: bool
  as_phase :: task_phase

definition async_new :: "bool \<Rightarrow> instant \<Rightarrow> async_config \<Rightarrow> async_collector" where
  "async_new debug now c =
     \<lparr>as_collector = collector_new debug (ac_collector_config c), as_processor = processor_new now (ac_batch_config c),
      as_permits = ac_max_concurrent c, as_tasks = [], as_waiting = None, as_final = None,
      as_metrics = export_metrics_default, as_notified = 0, as_exported = [], as_lost = [], as_signalled = False, as_phase = Running\<rparr>"

text \<open>
  \<open>Close_Signal\<close> is \<open>AsyncSpanCollector::shutdown\<close> up to its await; a handle that is dropped signals without
  closing.  \<open>Shutdown\<close> is the branch of the task up to the await of the final export, \<open>Final_Done\<close> the answer.
\<close>

datatype async_event =
    Register
  | Submit usize span
  | Tick system_time instant
  | Permit
  | Task_Done nat "export_error + unit"
  | Task_Panicked nat
  | Close_Signal
  | Handle_Dropped
  | Shutdown system_time instant
  | Final_Done "export_error + unit"
  | Final_Panicked
  | Joined

definition async_enabled :: "async_event \<Rightarrow> async_collector \<Rightarrow> bool" where
  "async_enabled ev a =
     (case ev of
        Register \<Rightarrow> True
      | Submit i _ \<Rightarrow> unat i < unat (ch_producer_count (sc_channel (as_collector a)))
      | Tick _ _ \<Rightarrow> as_phase a = Running \<and> as_waiting a = None
      | Permit \<Rightarrow> as_waiting a \<noteq> None \<and> 0 < as_permits a
      | Task_Done k _ \<Rightarrow> k < length (as_tasks a)
      | Task_Panicked k \<Rightarrow> k < length (as_tasks a)
      | Close_Signal \<Rightarrow> \<not> as_signalled a
      | Handle_Dropped \<Rightarrow> \<not> as_signalled a
      | Shutdown _ _ \<Rightarrow> as_phase a = Running \<and> as_waiting a = None \<and> as_signalled a
      | Final_Done _ \<Rightarrow> as_phase a = Finishing
      | Final_Panicked \<Rightarrow> as_phase a = Finishing
      | Joined \<Rightarrow> as_phase a = Joining \<and> as_tasks a = [])"

definition spawn_export :: "async_collector \<Rightarrow> async_collector" where
  "spawn_export a =
     (case as_waiting a of
        None \<Rightarrow> a
      | Some b \<Rightarrow> a\<lparr>as_waiting := None, as_permits := as_permits a - 1, as_metrics := inc_inflight (as_metrics a),
                     as_tasks := as_tasks a @ [b]\<rparr>)"

definition finish_task :: "nat \<Rightarrow> export_error + unit \<Rightarrow> async_collector \<Rightarrow> async_collector" where
  "finish_task k res a =
     (let b = as_tasks a ! k; (res', m) = export_batch res (of_nat (length (spans b))) (as_metrics a)
      in a\<lparr>as_metrics := dec_inflight m, as_permits := as_permits a + 1,
           as_tasks := take k (as_tasks a) @ drop (Suc k) (as_tasks a), as_exported := as_exported a @ [(b, res')]\<rparr>)"

text \<open>
  A spawned export that panics gives its permit back when its stack is unwound, but the line that counts it
  out of the in-flight metric is not reached.
\<close>

definition panic_task :: "nat \<Rightarrow> async_collector \<Rightarrow> async_collector" where
  "panic_task k a =
     a\<lparr>as_permits := as_permits a + 1, as_tasks := take k (as_tasks a) @ drop (Suc k) (as_tasks a),
       as_lost := as_lost a @ [as_tasks a ! k]\<rparr>"

text \<open>The final export panics in the consumer task; dropping the \<open>JoinSet\<close> aborts the spawned exports.\<close>

definition panic_consumer :: "async_collector \<Rightarrow> async_collector" where
  "panic_consumer a =
     a\<lparr>as_phase := Crashed, as_permits := as_permits a + length (as_tasks a), as_tasks := [], as_lost := as_lost a @ as_tasks a\<rparr>"

definition finish_final :: "export_error + unit \<Rightarrow> async_collector \<Rightarrow> async_collector" where
  "finish_final res a =
     (case as_final a of
        None \<Rightarrow> a
      | Some b \<Rightarrow> a\<lparr>as_final := None, as_exported := as_exported a @ [(b, res)], as_phase := Joining\<rparr>)"

text \<open>A step, with the spans it accepted.  The final export takes no permit and is not in the metrics.\<close>

fun async_step ::
    "((u128 \<times> span list) list \<Rightarrow> (u128 \<times> span list) list) \<Rightarrow> async_config \<Rightarrow> async_event \<Rightarrow> async_collector \<Rightarrow>
     fault + span list \<times> async_collector" where
  "async_step order c Register a =
     try_bind (collector_register (as_collector a)) (\<lambda>(_, sc). Inr ([], a\<lparr>as_collector := sc\<rparr>))"
| "async_step order c (Submit i s) a =
     try_bind (try_submit_span i s (as_collector a)) (\<lambda>(res, sc).
       Inr (case res of Inr _ \<Rightarrow> [s] | Inl _ \<Rightarrow> [], a\<lparr>as_collector := sc\<rparr>))"
| "async_step order c (Tick sys now) a =
     try_bind (collector_consume_all_up_to (ac_max_consume c) (\<lambda>bp s. processor_add s bp) (as_processor a) (as_collector a))
       (\<lambda>(consumed, bp, sc).
          let a1 = a\<lparr>as_collector := sc, as_processor := bp, as_notified := (if 0 < consumed then Suc (as_notified a) else as_notified a)\<rparr>
          in if should_flush now bp
             then (let (taken, bp1) = take_batch order sys now bp in Inr ([], a1\<lparr>as_processor := bp1, as_waiting := taken\<rparr>))
             else Inr ([], a1))"
| "async_step order c Permit a = Inr ([], spawn_export a)"
| "async_step order c (Task_Done k res) a = Inr ([], finish_task k res a)"
| "async_step order c (Task_Panicked k) a = Inr ([], panic_task k a)"
| "async_step order c Close_Signal a =
     try_bind (collector_close (as_collector a)) (\<lambda>sc. Inr ([], a\<lparr>as_collector := sc, as_signalled := True\<rparr>))"
| "async_step order c Handle_Dropped a = Inr ([], a\<lparr>as_signalled := True\<rparr>)"
| "async_step order c (Shutdown sys now) a =
     try_bind (collector_consume_all (\<lambda>bp s. processor_add s bp) (as_processor a) (as_collector a)) (\<lambda>(_, bp, sc).
       let (taken, bp1) = take_batch order sys now bp
       in Inr ([], a\<lparr>as_collector := sc, as_processor := bp1, as_final := taken,
                     as_phase := (if taken = None then Joining else Finishing)\<rparr>))"
| "async_step order c (Final_Done res) a = Inr ([], finish_final res a)"
| "async_step order c Final_Panicked a = Inr ([], panic_consumer a)"
| "async_step order c Joined a = Inr ([], a\<lparr>as_phase := Stopped\<rparr>)"

fun async_run ::
    "((u128 \<times> span list) list \<Rightarrow> (u128 \<times> span list) list) \<Rightarrow> async_config \<Rightarrow> async_event list \<Rightarrow> async_collector \<Rightarrow>
     fault + span list \<times> async_collector" where
  "async_run order c [] a = Inr ([], a)"
| "async_run order c (ev # evs) a =
     (if async_enabled ev a
      then try_bind (async_step order c ev a) (\<lambda>(acc, a1).
             try_bind (async_run order c evs a1) (\<lambda>(acc', a2). Inr (acc @ acc', a2)))
      else async_run order c evs a)"

end
