(* ===== verification/Collector_Props.thy ===== *)
theory Collector_Props
  imports Collector
begin

text \<open>
  No span is lost or duplicated on its way from a producer to the exporter, the spawned exports stay within
  the configured concurrency, and a shutdown exports everything that was accepted before its drain.
\<close>

section \<open>The channel under the collector\<close>

definition held :: "'a channel \<Rightarrow> 'a list" where
  "held ch = concat (map ring_contents (ch_rings ch))"

text \<open>A well-formed release-build channel whose unregistered rings are empty.\<close>

definition channel_ok :: "'a channel \<Rightarrow> bool" where
  "channel_ok ch \<longleftrightarrow> channel_inv ch \<and> \<not> ch_debug ch \<and>
     (\<forall>r\<in>set (drop (unat (ch_producer_count ch)) (ch_rings ch)). ring_contents r = [])"

lemma held_queued: "channel_ok ch \<Longrightarrow> held ch = concat (queued ch)"
proof -
  assume ok: "channel_ok ch"
  let ?n = "unat (ch_producer_count ch)"
  have "held ch = concat (map ring_contents (take ?n (ch_rings ch) @ drop ?n (ch_rings ch)))" by (simp add: held_def)
  also have "\<dots> = concat (queued ch) @ concat (map ring_contents (drop ?n (ch_rings ch)))"
    unfolding map_append concat_append by (simp add: queued_def registered_def)
  also have "concat (map ring_contents (drop ?n (ch_rings ch))) = []" using ok by (auto simp: channel_ok_def)
  finally show ?thesis by simp
qed

lemma channel_new_ok: "valid_config c \<Longrightarrow> channel_ok (channel_new False c) \<and> held (channel_new False c) = []"
  using channel_new_inv [of c False]
  by (auto simp: channel_ok_def held_def channel_new_def channel_new_in_def heap.new_in_contents)

lemma same_rest_ok:
  assumes "channel_ok ch" "channel_inv ch'" "same_channel ch ch'"
  shows "channel_ok ch'"
  using assms by (auto simp: channel_ok_def same_channel_def)

lemma drop_contents:
  assumes "map ring_contents rs' = map ring_contents rs" "\<forall>r\<in>set (drop n rs). ring_contents r = []" "n \<le> m"
  shows "\<forall>r\<in>set (drop m rs'). ring_contents r = []"
proof -
  have "map ring_contents (drop m rs') = map ring_contents (drop m rs)" using assms(1) by (simp flip: drop_map)
  from arg_cong [OF this, of set] have "ring_contents ` set (drop m rs') = ring_contents ` set (drop m rs)" by simp
  moreover have "set (drop m rs) \<subseteq> set (drop n rs)" using assms(3) by (rule set_drop_subset_set_drop)
  then have "ring_contents ` set (drop m rs) \<subseteq> {[]}" using assms(2) by auto
  ultimately show ?thesis by auto
qed

lemma register_ok:
  assumes "channel_ok ch"
  shows "\<exists>res ch'. channel_register ch = Inr (res, ch') \<and> channel_ok ch' \<and> held ch' = held ch"
proof -
  have inv: "channel_inv ch" using assms by (simp add: channel_ok_def)
  obtain res ch' where ch: "channel_register ch = Inr (res, ch')" "channel_inv ch'"
      "map ring_contents (ch_rings ch') = map ring_contents (ch_rings ch)"
      "unat (ch_producer_count ch) \<le> unat (ch_producer_count ch')" "\<not> ch_debug ch'"
    using channel_register_spec [OF inv] assms
    by (auto simp: channel_ok_def channel_register_def register_claim_def register_finish_def split: if_splits)
  with drop_contents [OF ch(3) _ ch(4)] assms show ?thesis by (auto simp: channel_ok_def held_def)
qed

lemma close_ok:
  assumes "channel_ok ch"
  shows "\<exists>ch'. channel_close ch = Inr ch' \<and> channel_ok ch' \<and> held ch' = held ch"
proof -
  have "channel_inv ch" using assms by (simp add: channel_ok_def)
  from channel_close_spec [OF this] obtain ch' where ch: "channel_close ch = Inr ch'" "channel_inv ch'"
    "ch_producer_count ch' = ch_producer_count ch" "ch_debug ch' = ch_debug ch"
    "map ring_contents (ch_rings ch') = map ring_contents (ch_rings ch)" by blast
  with drop_contents [OF ch(5), of "unat (ch_producer_count ch)" "unat (ch_producer_count ch)"] assms show ?thesis
    by (auto simp: channel_ok_def held_def)
qed

lemma mset_concat_update:
  "k < length xss \<Longrightarrow> mset (concat (xss[k := xss ! k @ ys])) = mset (concat xss) + mset ys"
proof (induction xss arbitrary: k)
  case (Cons xs xss)
  then show ?case by (cases k) auto
qed simp

lemma push_ok:
  assumes ok: "channel_ok ch" and i: "unat i < unat (ch_producer_count ch)"
  shows "\<exists>acc ch'. producer_push i x ch = Inr (acc, ch') \<and> channel_ok ch' \<and>
           mset (held ch') = mset (held ch) + (if acc then {#x#} else {#}) \<and> ch_producer_count ch' = ch_producer_count ch"
proof -
  have inv: "channel_inv ch" using ok by (simp add: channel_ok_def)
  let ?acc = "occupied (ch_rings ch ! unat i) < cap (r_config (ch_rings ch ! unat i))"
  from producer_push_spec [OF inv i, of x] obtain r' where
    p: "producer_push i x ch = Inr (?acc, ch\<lparr>ch_rings := (ch_rings ch)[unat i := r']\<rparr>)"
      "channel_inv (ch\<lparr>ch_rings := (ch_rings ch)[unat i := r']\<rparr>)"
      "ring_contents r' = ring_contents (ch_rings ch ! unat i) @ (if ?acc then [x] else [])" by auto
  have lt: "unat i < length (ch_rings ch)" using inv i by (simp add: channel_inv_def)
  have "map ring_contents ((ch_rings ch)[unat i := r']) =
      (map ring_contents (ch_rings ch))[unat i := map ring_contents (ch_rings ch) ! unat i @ (if ?acc then [x] else [])]"
    using lt p(3) by (simp add: map_update)
  then have "mset (held (ch\<lparr>ch_rings := (ch_rings ch)[unat i := r']\<rparr>)) = mset (held ch) + mset (if ?acc then [x] else [])"
    unfolding held_def using lt mset_concat_update [of "unat i" "map ring_contents (ch_rings ch)"] by simp
  moreover have "channel_ok (ch\<lparr>ch_rings := (ch_rings ch)[unat i := r']\<rparr>)" using ok p(2) i by (auto simp: channel_ok_def)
  ultimately show ?thesis using p(1) by (auto split: if_splits)
qed

section \<open>Collector operations\<close>

lemma try_submit_push:
  "try_submit_span i s sc = try_bind (producer_push i s (sc_channel sc)) (\<lambda>(ok, ch).
     let m = sc_metrics sc
     in Inr (if ok then (Inr (), sc\<lparr>sc_channel := ch, sc_metrics := m\<lparr>cm_spans_submitted := cm_spans_submitted m + 1\<rparr>\<rparr>)
             else (Inl Submit_Full, sc\<lparr>sc_channel := ch, sc_metrics := m\<lparr>cm_full_events := cm_full_events m + 1\<rparr>\<rparr>)))"
  by (simp add: try_submit_span_def submit_with_def producer_push_def ring_push_def [abs_def])

lemma foldl_counted:
  "foldl (\<lambda>(h, n) s. (f h s, n + 1)) (h, n :: 32 word) xs = (foldl f h xs, n + of_nat (length xs))"
  by (induction xs arbitrary: h n) (simp_all add: ac_simps)

lemma sc_channel_count [simp]: "sc_channel (count_spans n sc) = sc_channel sc"
  by (simp add: count_spans_def)

lemma consume_all_up_to_ok:
  assumes ok: "channel_ok (sc_channel sc)"
  shows "\<exists>n ss sc'. collector_consume_all_up_to limit f h sc = Inr (n, foldl f h ss, sc') \<and> channel_ok (sc_channel sc') \<and>
           mset ss + mset (held (sc_channel sc')) = mset (held (sc_channel sc)) \<and>
           ch_producer_count (sc_channel sc') = ch_producer_count (sc_channel sc)"
proof -
  let ?ch = "sc_channel sc"
  have inv: "channel_inv ?ch" "\<not> ch_debug ?ch" using ok by (simp_all add: channel_ok_def)
  from channel_consume_all_up_to_owned_spec [OF inv, of limit "\<lambda>(h, n) s. (f h s, n + 1)" "(h, 0 :: 32 word)"] obtain ch' where
    c: "channel_consume_all_up_to_owned limit (\<lambda>(h, n) s. (f h s, n + 1)) (h, 0 :: 32 word) ?ch =
        Inr (of_nat (min (length (concat (queued ?ch))) (unat limit)),
             foldl (\<lambda>(h, n) s. (f h s, n + 1)) (h, 0) (take (unat limit) (concat (queued ?ch))), ch')"
      "channel_inv ch'" "concat (queued ch') = drop (unat limit) (concat (queued ?ch))" "same_channel ?ch ch'" by blast
  have ok': "channel_ok ch'" by (rule same_rest_ok [OF ok c(2,4)])
  have "mset (take (unat limit) (concat (queued ?ch))) + mset (held ch') = mset (held ?ch)"
    unfolding held_queued [OF ok] held_queued [OF ok'] c(3) by (metis append_take_drop_id mset_append)
  with ok' c(1,4) show ?thesis
    by (auto simp: collector_consume_all_up_to_def foldl_counted same_channel_def)
qed

lemma consume_all_ok:
  assumes ok: "channel_ok (sc_channel sc)"
  shows "\<exists>n ss sc'. collector_consume_all f h sc = Inr (n, foldl f h ss, sc') \<and> channel_ok (sc_channel sc') \<and>
           mset ss = mset (held (sc_channel sc)) \<and> held (sc_channel sc') = []"
proof -
  let ?ch = "sc_channel sc"
  have inv: "channel_inv ?ch" "\<not> ch_debug ?ch" using ok by (simp_all add: channel_ok_def)
  from channel_consume_all_owned_spec [OF inv(1), of "\<lambda>(h, n) s. (f h s, n + 1)" "(h, 0 :: 32 word)"] inv(2) obtain ch' where
    c: "channel_consume_all_owned (\<lambda>(h, n) s. (f h s, n + 1)) (h, 0 :: 32 word) ?ch =
        Inr (of_nat (length (concat (queued ?ch))), foldl (\<lambda>(h, n) s. (f h s, n + 1)) (h, 0) (concat (queued ?ch)), ch')"
      "channel_inv ch'" "\<forall>r\<in>set (registered ch'). ring_contents r = []" "same_channel ?ch ch'" by auto
  have ok': "channel_ok ch'" by (rule same_rest_ok [OF ok c(2,4)])
  have "held ch' = []" unfolding held_queued [OF ok'] using c(3) by (simp add: queued_def)
  with ok' c(1) show ?thesis
    by (auto simp: collector_consume_all_def foldl_counted held_queued [OF ok])
qed

section \<open>Invariant of the task\<close>

definition exported_spans :: "async_collector \<Rightarrow> span multiset" where
  "exported_spans a = mset (concat (map (spans \<circ> fst) (as_exported a)))"

definition inflight_spans :: "async_collector \<Rightarrow> span multiset" where
  "inflight_spans a = mset (concat (map spans (as_tasks a)))"

definition waiting_spans :: "async_collector \<Rightarrow> span multiset" where
  "waiting_spans a = (case as_waiting a of None \<Rightarrow> {#} | Some b \<Rightarrow> mset (spans b))"

definition final_spans :: "async_collector \<Rightarrow> span multiset" where
  "final_spans a = (case as_final a of None \<Rightarrow> {#} | Some b \<Rightarrow> mset (spans b))"

definition lost_spans :: "async_collector \<Rightarrow> span multiset" where
  "lost_spans a = mset (concat (map spans (as_lost a)))"

text \<open>The exports that run: the spawned ones and the final one.\<close>

definition running_exports :: "async_collector \<Rightarrow> nat" where
  "running_exports a = length (as_tasks a) + (if as_phase a = Finishing then 1 else 0)"

definition async_inv :: "async_config \<Rightarrow> span list \<Rightarrow> async_collector \<Rightarrow> bool" where
  "async_inv c acc a \<longleftrightarrow>
     channel_ok (sc_channel (as_collector a)) \<and> processor_inv (as_processor a) \<and>
     mset acc = exported_spans a + lost_spans a + inflight_spans a + final_spans a + waiting_spans a +
       pending_spans (as_processor a) + mset (held (sc_channel (as_collector a))) \<and>
     as_permits a + length (as_tasks a) = ac_max_concurrent c \<and>
     em_inflight (as_metrics a) = of_nat (length (as_tasks a) + length (as_lost a)) \<and>
     (as_phase a \<noteq> Running \<longrightarrow> as_waiting a = None \<and> pending_spans (as_processor a) = {#}) \<and>
     (as_phase a \<in> {Finishing, Crashed} \<longleftrightarrow> as_final a \<noteq> None) \<and>
     (as_phase a \<in> {Stopped, Crashed} \<longrightarrow> as_tasks a = [])"

lemmas async_inv_simps = async_inv_def exported_spans_def inflight_spans_def waiting_spans_def final_spans_def lost_spans_def

lemma async_new_inv:
  assumes "valid_config (to_config (ac_collector_config c))"
  shows "async_inv c [] (async_new False now c)"
  using channel_new_ok [OF assms]
  by (simp add: async_inv_simps async_new_def collector_new_def processor_new_def processor_inv_def pending_spans_def
      export_metrics_default_def)

lemma tick_inv:
  assumes inv: "async_inv c acc a" and ord: "drains order" and en: "as_phase a = Running" "as_waiting a = None"
  shows "\<exists>a'. async_step order c (Tick sys now) a = Inr ([], a') \<and> async_inv c acc a'"
proof -
  have ok: "channel_ok (sc_channel (as_collector a))" and bp: "processor_inv (as_processor a)"
    using inv by (simp_all add: async_inv_def)
  from consume_all_up_to_ok [OF ok, of "ac_max_consume c" "\<lambda>bp s. processor_add s bp" "as_processor a"] obtain n ss sc where
    s: "collector_consume_all_up_to (ac_max_consume c) (\<lambda>bp s. processor_add s bp) (as_processor a) (as_collector a) =
          Inr (n, foldl (\<lambda>bp s. processor_add s bp) (as_processor a) ss, sc)" "channel_ok (sc_channel sc)"
      "mset ss + mset (held (sc_channel sc)) = mset (held (sc_channel (as_collector a)))" by blast
  define bp1 where "bp1 = foldl (\<lambda>bp s. processor_add s bp) (as_processor a) ss"
  have p1: "pending_spans bp1 = pending_spans (as_processor a) + mset ss" "processor_inv bp1"
    using processor_add_all bp by (simp_all add: bp1_def)
  define a1 where "a1 = a\<lparr>as_collector := sc, as_processor := bp1, as_notified := (if 0 < n then Suc (as_notified a) else as_notified a)\<rparr>"
  have a1: "async_inv c acc a1"
    using inv en s(2) p1 by (auto simp: async_inv_simps a1_def ac_simps simp flip: s(3))
  obtain taken bp2 where t: "take_batch order sys now bp1 = (taken, bp2)" by fastforce
  note tb = take_batch_spec [OF ord p1(2) t]
  have "async_inv c acc (a1\<lparr>as_processor := bp2, as_waiting := taken\<rparr>)"
    using a1 en tb by (cases taken) (simp_all add: async_inv_simps a1_def)
  with a1 s(1) t show ?thesis by (simp add: Let_def flip: bp1_def a1_def)
qed

lemma shutdown_inv:
  assumes inv: "async_inv c acc a" and ord: "drains order" and en: "as_phase a = Running" "as_waiting a = None"
  shows "\<exists>a'. async_step order c (Shutdown sys now) a = Inr ([], a') \<and> async_inv c acc a' \<and>
           held (sc_channel (as_collector a')) = [] \<and> as_phase a' \<in> {Finishing, Joining}"
proof -
  have ok: "channel_ok (sc_channel (as_collector a))" and bp: "processor_inv (as_processor a)" and nf: "as_final a = None"
    using inv en by (auto simp: async_inv_def)
  from consume_all_ok [OF ok, of "\<lambda>bp s. processor_add s bp" "as_processor a"] obtain n ss sc where
    s: "collector_consume_all (\<lambda>bp s. processor_add s bp) (as_processor a) (as_collector a) =
          Inr (n, foldl (\<lambda>bp s. processor_add s bp) (as_processor a) ss, sc)" "channel_ok (sc_channel sc)"
      "mset ss = mset (held (sc_channel (as_collector a)))" "held (sc_channel sc) = []" by blast
  define bp1 where "bp1 = foldl (\<lambda>bp s. processor_add s bp) (as_processor a) ss"
  have p1: "pending_spans bp1 = pending_spans (as_processor a) + mset ss" "processor_inv bp1"
    using processor_add_all bp by (simp_all add: bp1_def)
  obtain taken bp2 where t: "take_batch order sys now bp1 = (taken, bp2)" by fastforce
  note tb = take_batch_spec [OF ord p1(2) t]
  define a2 where "a2 = a\<lparr>as_collector := sc, as_processor := bp2, as_final := taken,
    as_phase := (if taken = None then Joining else Finishing)\<rparr>"
  have "async_inv c acc a2"
    using inv en nf s(2,3,4) p1(1) tb by (cases taken) (auto simp: async_inv_simps a2_def ac_simps)
  moreover have "held (sc_channel (as_collector a2)) = []" "as_phase a2 \<in> {Finishing, Joining}" using s(4) by (simp_all add: a2_def)
  ultimately show ?thesis using s(1) t by (simp add: Let_def a2_def flip: bp1_def)
qed

lemma finish_task_fields:
  "as_collector (finish_task k res a) = as_collector a" "as_processor (finish_task k res a) = as_processor a"
  "as_waiting (finish_task k res a) = as_waiting a" "as_final (finish_task k res a) = as_final a"
  "as_lost (finish_task k res a) = as_lost a" "as_phase (finish_task k res a) = as_phase a"
  "as_permits (finish_task k res a) = Suc (as_permits a)"
  "as_tasks (finish_task k res a) = take k (as_tasks a) @ drop (Suc k) (as_tasks a)"
  "as_exported (finish_task k res a) = as_exported a @ [(as_tasks a ! k, res)]"
  "em_inflight (as_metrics (finish_task k res a)) = em_inflight (as_metrics a) - 1"
  by (cases res; simp add: finish_task_def export_batch_def export_record_success_def export_record_error_def
      dec_inflight_def Let_def)+

lemma finish_task_inv:
  assumes inv: "async_inv c acc a" and k: "k < length (as_tasks a)"
  shows "async_inv c acc (finish_task k res a)"
proof -
  have split: "as_tasks a = take k (as_tasks a) @ as_tasks a ! k # drop (Suc k) (as_tasks a)" using k by (rule id_take_nth_drop)
  have "mset (concat (map spans (as_tasks a))) =
      mset (concat (map spans (take k (as_tasks a) @ drop (Suc k) (as_tasks a)))) + mset (spans (as_tasks a ! k))"
    by (subst split) (simp add: ac_simps)
  then have sum: "exported_spans (finish_task k res a) + lost_spans (finish_task k res a) + inflight_spans (finish_task k res a) =
      exported_spans a + lost_spans a + inflight_spans a"
    by (simp add: exported_spans_def inflight_spans_def lost_spans_def finish_task_fields ac_simps)
  have len: "length (as_tasks (finish_task k res a)) = length (as_tasks a) - 1" using k by (simp add: finish_task_fields min_def)
  have "length (as_tasks a) + length (as_lost a) = Suc (length (as_tasks a) - 1 + length (as_lost a))" using k by simp
  then have "(of_nat (length (as_tasks a) + length (as_lost a)) :: u64) - 1 = of_nat (length (as_tasks a) - 1 + length (as_lost a))"
    by (metis add_diff_cancel_left' of_nat_Suc)
  with inv k len show ?thesis
    unfolding async_inv_def sum waiting_spans_def final_spans_def by (auto simp: finish_task_fields)
qed

lemma panic_task_inv:
  assumes inv: "async_inv c acc a" and k: "k < length (as_tasks a)"
  shows "async_inv c acc (panic_task k a)"
proof -
  have split: "as_tasks a = take k (as_tasks a) @ as_tasks a ! k # drop (Suc k) (as_tasks a)" using k by (rule id_take_nth_drop)
  have "mset (concat (map spans (as_tasks a))) =
      mset (concat (map spans (take k (as_tasks a) @ drop (Suc k) (as_tasks a)))) + mset (spans (as_tasks a ! k))"
    by (subst split) (simp add: ac_simps)
  then have sum: "exported_spans (panic_task k a) + lost_spans (panic_task k a) + inflight_spans (panic_task k a) =
      exported_spans a + lost_spans a + inflight_spans a"
    by (simp add: exported_spans_def inflight_spans_def lost_spans_def panic_task_def ac_simps)
  have "length (as_tasks (panic_task k a)) = length (as_tasks a) - 1" "length (as_lost (panic_task k a)) = Suc (length (as_lost a))"
    using k by (simp_all add: panic_task_def min_def)
  moreover have "length (as_tasks a) - 1 + Suc (length (as_lost a)) = length (as_tasks a) + length (as_lost a)" using k by simp
  ultimately show ?thesis using inv k
    unfolding async_inv_def sum waiting_spans_def final_spans_def by (auto simp: panic_task_def)
qed

lemma final_inv:
  assumes inv: "async_inv c acc a" and p: "as_phase a = Finishing"
  shows "async_inv c acc (finish_final res a)" "async_inv c acc (panic_consumer a)"
proof -
  obtain b where b: "as_final a = Some b" using inv p by (auto simp: async_inv_def)
  show "async_inv c acc (finish_final res a)" "async_inv c acc (panic_consumer a)"
    using inv p b by (auto simp: async_inv_simps finish_final_def panic_consumer_def ac_simps)
qed

lemma spawn_export_inv:
  assumes inv: "async_inv c acc a" and b: "as_waiting a = Some b" "0 < as_permits a"
  shows "async_inv c acc (spawn_export a)"
proof -
  have sum: "exported_spans (spawn_export a) = exported_spans a" "lost_spans (spawn_export a) = lost_spans a"
    "final_spans (spawn_export a) = final_spans a" "inflight_spans (spawn_export a) = inflight_spans a + mset (spans b)"
    "waiting_spans (spawn_export a) = {#}" "waiting_spans a = mset (spans b)"
    using b by (simp_all add: exported_spans_def inflight_spans_def waiting_spans_def final_spans_def lost_spans_def spawn_export_def)
  have "as_permits a - 1 + Suc (length (as_tasks a)) = as_permits a + length (as_tasks a)" using b(2) by simp
  with inv b show ?thesis unfolding async_inv_def sum by (auto simp: spawn_export_def inc_inflight_def ac_simps)
qed

lemma async_step_inv:
  assumes inv: "async_inv c acc a" and ord: "drains order" and en: "async_enabled ev a"
  shows "\<exists>new a'. async_step order c ev a = Inr (new, a') \<and> async_inv c (acc @ new) a'"
proof -
  have ok: "channel_ok (sc_channel (as_collector a))" using inv by (simp add: async_inv_def)
  show ?thesis
  proof (cases ev)
    case Register
    from register_ok [OF ok] obtain res ch where
      "channel_register (sc_channel (as_collector a)) = Inr (res, ch)" "channel_ok ch" "held ch = held (sc_channel (as_collector a))" by blast
    with Register inv show ?thesis by (simp add: collector_register_def async_inv_simps)
  next
    case (Submit i s)
    then have "unat i < unat (ch_producer_count (sc_channel (as_collector a)))" using en by (simp add: async_enabled_def)
    from push_ok [OF ok this, of s] obtain b ch where
      "producer_push i s (sc_channel (as_collector a)) = Inr (b, ch)" "channel_ok ch"
      "mset (held ch) = mset (held (sc_channel (as_collector a))) + (if b then {#s#} else {#})" by blast
    with Submit inv show ?thesis by (cases b) (simp_all add: try_submit_push Let_def async_inv_simps)
  next
    case (Tick sys now)
    then have "as_phase a = Running" "as_waiting a = None" using en by (simp_all add: async_enabled_def)
    from tick_inv [OF inv ord this, of sys now] show ?thesis unfolding Tick by (metis append_Nil2)
  next
    case Permit
    then obtain b where b: "as_waiting a = Some b" "0 < as_permits a" using en by (auto simp: async_enabled_def)
    with Permit spawn_export_inv [OF inv b] show ?thesis by simp
  next
    case (Task_Done k res)
    with finish_task_inv [OF inv, of k res] en show ?thesis by (simp add: async_enabled_def)
  next
    case Close_Signal
    from close_ok [OF ok] obtain ch where
      "channel_close (sc_channel (as_collector a)) = Inr ch" "channel_ok ch" "held ch = held (sc_channel (as_collector a))" by blast
    with Close_Signal inv show ?thesis by (simp add: collector_close_def async_inv_simps)
  next
    case (Shutdown sys now)
    then have "as_phase a = Running" "as_waiting a = None" using en by (simp_all add: async_enabled_def)
    from shutdown_inv [OF inv ord this, of sys now] show ?thesis unfolding Shutdown by (metis append_Nil2)
  next
    case (Task_Panicked k)
    with panic_task_inv [OF inv, of k] en show ?thesis by (simp add: async_enabled_def)
  next
    case (Final_Done res)
    with final_inv(1) [OF inv] en show ?thesis by (simp add: async_enabled_def)
  next
    case Final_Panicked
    with final_inv(2) [OF inv] en show ?thesis by (simp add: async_enabled_def)
  next
    case Joined
    with inv en show ?thesis by (simp add: async_inv_simps async_enabled_def)
  qed (use inv in \<open>simp add: async_inv_simps\<close>)
qed

lemma async_run_inv:
  assumes "async_inv c acc a" "drains order"
  shows "\<exists>new a'. async_run order c evs a = Inr (new, a') \<and> async_inv c (acc @ new) a'"
  using assms(1)
proof (induction evs arbitrary: acc a)
  case (Cons ev evs)
  show ?case
  proof (cases "async_enabled ev a")
    case True
    from async_step_inv [OF Cons.prems assms(2) True] obtain new a1 where
      "async_step order c ev a = Inr (new, a1)" "async_inv c (acc @ new) a1" by blast
    with Cons.IH [of "acc @ new" a1] True show ?thesis by force
  qed (use Cons in simp)
qed simp

section \<open>Properties\<close>


definition small_async :: async_config where
  "small_async = \<lparr>ac_collector_config = \<lparr>cc_ring_bits = 1, cc_max_producers = 2, cc_enable_metrics = False\<rparr>,
     ac_batch_config = \<lparr>batch_size_limit = 1, batch_timeout = 10\<rparr>, ac_consumer_interval = 1, ac_max_consume = 10, ac_max_concurrent = 4\<rparr>"

definition one_span :: span where
  "one_span = \<lparr>trace_id = 7, span_id = 1, parent_span_id = 0, start_time = 0, end_time = 0, span_name = ''op'', attributes = Map.empty,
     status = Status_Unset, kind = Kind_Internal\<rparr>"

lemma small_async_ok: "valid_config (to_config (ac_collector_config small_async))" "drains (\<lambda>xs. xs)"
  by (simp_all add: small_async_def valid_config_def to_config_def drains_def hash_map_order_def)


text \<open>The bound is reached: with one permit, the final export runs beside a spawned one.\<close>

lemma final_export_exceeds_limit:
  "map_sum id (\<lambda>(_, a). (running_exports a, em_inflight (as_metrics a)))
     (async_run (\<lambda>xs. xs) (small_async\<lparr>ac_max_concurrent := 1\<rparr>)
        [Register, Submit 0 one_span, Tick 0 0, Permit, Submit 0 one_span, Close_Signal, Shutdown 0 1]
        (async_new False 0 (small_async\<lparr>ac_max_concurrent := 1\<rparr>))) = Inr (2, 1)"
  by code_simp

text \<open>Two exports that panic stay in the metric, although at most one runs at a time.\<close>

lemma panics_stay_in_flight:
  "map_sum id (\<lambda>(_, a). (running_exports a, em_inflight (as_metrics a)))
     (async_run (\<lambda>xs. xs) (small_async\<lparr>ac_max_concurrent := 1\<rparr>)
        [Register, Submit 0 one_span, Tick 0 0, Permit, Task_Panicked 0, Submit 0 one_span, Tick 0 0, Permit, Task_Panicked 0]
        (async_new False 0 (small_async\<lparr>ac_max_concurrent := 1\<rparr>))) = Inr (0, 2)"
  by code_simp

lemma async_run_append:
  "async_run order c (evs @ evs') a =
     try_bind (async_run order c evs a) (\<lambda>(acc, a1). try_bind (async_run order c evs' a1) (\<lambda>(acc', a2). Inr (acc @ acc', a2)))"
proof (induction evs arbitrary: a)
  case Nil
  then show ?case by (cases "async_run order c evs' a") auto
next
  case (Cons ev evs)
  then show ?case
    by (cases "async_enabled ev a"; cases "async_step order c ev a")
      (auto simp: try_bind_def split: sum.splits prod.splits)
qed

lemma finish_all_tasks:
  assumes "async_inv c acc a" "length rs = length (as_tasks a)"
  shows "\<exists>a'. async_run order c (map (Task_Done 0) rs) a = Inr ([], a') \<and> async_inv c acc a' \<and> as_tasks a' = [] \<and>
           as_collector a' = as_collector a \<and> as_phase a' = as_phase a \<and> as_lost a' = as_lost a"
  using assms
proof (induction rs arbitrary: a)
  case (Cons r rs)
  have k: "0 < length (as_tasks a)" using Cons.prems(2) by (cases "as_tasks a") simp_all
  have "length rs = length (as_tasks (finish_task 0 r a))" using Cons.prems(2) by (simp add: finish_task_fields)
  from Cons.IH [OF finish_task_inv [OF Cons.prems(1) k] this] obtain a' where
    "async_run order c (map (Task_Done 0) rs) (finish_task 0 r a) = Inr ([], a')" "async_inv c acc a'" "as_tasks a' = []"
    "as_collector a' = as_collector a" "as_phase a' = as_phase a" "as_lost a' = as_lost a" by (auto simp: finish_task_fields)
  with k show ?case by (simp add: async_enabled_def)
qed simp

text \<open>After the drain of the shutdown the rings hold what was accepted since, and nothing takes it out.\<close>

definition late_spans :: "span list \<Rightarrow> async_collector \<Rightarrow> bool" where
  "late_spans late a \<longleftrightarrow> as_phase a \<noteq> Running \<and> mset late = mset (held (sc_channel (as_collector a)))"

lemma late_step:
  assumes inv: "async_inv c acc a" and late: "late_spans late a" and en: "async_enabled ev a"
    and step: "async_step order c ev a = Inr (new, a')"
  shows "late_spans (late @ new) a'"
proof -
  have ok: "channel_ok (sc_channel (as_collector a))" using inv by (simp add: async_inv_def)
  have ph: "as_phase a \<noteq> Running" and wait: "as_waiting a = None" using inv late by (auto simp: late_spans_def async_inv_def)
  show ?thesis
  proof (cases ev)
    case Register
    with register_ok [OF ok] late step show ?thesis by (auto simp: late_spans_def collector_register_def)
  next
    case (Submit i s)
    then have "unat i < unat (ch_producer_count (sc_channel (as_collector a)))" using en by (simp add: async_enabled_def)
    from push_ok [OF ok this, of s] obtain b ch where
      "producer_push i s (sc_channel (as_collector a)) = Inr (b, ch)"
      "mset (held ch) = mset (held (sc_channel (as_collector a))) + (if b then {#s#} else {#})" by blast
    with Submit late step show ?thesis by (cases b) (auto simp: late_spans_def try_submit_push Let_def)
  next
    case (Task_Done k res)
    with late step show ?thesis by (auto simp: late_spans_def finish_task_fields)
  next
    case Close_Signal
    with close_ok [OF ok] late step show ?thesis by (auto simp: late_spans_def collector_close_def)
  qed (use late step en ph wait in
      \<open>auto simp: late_spans_def async_enabled_def panic_task_def panic_consumer_def finish_final_def split: option.splits\<close>)
qed

lemma late_run:
  assumes "async_inv c acc a" "drains order" "late_spans late a"
  shows "\<exists>new a'. async_run order c evs a = Inr (new, a') \<and> async_inv c (acc @ new) a' \<and> late_spans (late @ new) a'"
  using assms(1,3)
proof (induction evs arbitrary: acc late a)
  case (Cons ev evs)
  show ?case
  proof (cases "async_enabled ev a")
    case True
    from async_step_inv [OF Cons.prems(1) assms(2) True] obtain new a1 where
      s: "async_step order c ev a = Inr (new, a1)" "async_inv c (acc @ new) a1" by blast
    from Cons.IH [OF s(2) late_step [OF Cons.prems True s(1)]] s(1) True show ?thesis by force
  qed (use Cons in simp)
qed simp


definition before_shutdown :: "async_event list" where
  "before_shutdown = [Register, Submit 0 one_span, Tick 0 0, Permit, Submit 0 one_span, Close_Signal]"

lemma before_shutdown_reaches:
  "\<exists>acc a. async_run (\<lambda>xs. xs) small_async before_shutdown (async_new False 0 small_async) = Inr (acc, a) \<and> map span_id acc = [1, 1] \<and>
     as_phase a = Running \<and> as_waiting a = None \<and> as_signalled a \<and> length (as_tasks a) = 1"
proof -
  let ?r = "async_run (\<lambda>xs. xs) small_async before_shutdown (async_new False 0 small_async)"
  have "case ?r of Inr (acc, a) \<Rightarrow> map span_id acc = [1, 1] \<and> as_phase a = Running \<and> Option.is_none (as_waiting a) \<and> as_signalled a \<and>
        length (as_tasks a) = 1
      | Inl _ \<Rightarrow> False"
    by code_simp
  then show ?thesis by (cases ?r) (auto simp: Option.is_none_def)
qed

text \<open>A submission slips in between the drain and the end of the final export.\<close>

lemma after_drain_reaches:
  assumes "async_run (\<lambda>xs. xs) small_async before_shutdown (async_new False 0 small_async) = Inr (acc, a)"
  shows "\<exists>late a1. async_run (\<lambda>xs. xs) small_async (Shutdown 0 1 # [Submit 0 one_span]) a = Inr (late, a1) \<and> map span_id late = [1] \<and>
     as_phase a1 \<noteq> Crashed \<and> length (as_tasks a1) = 1"
proof -
  let ?r = "try_bind (async_run (\<lambda>xs. xs) small_async before_shutdown (async_new False 0 small_async)) (\<lambda>(_, a).
    async_run (\<lambda>xs. xs) small_async (Shutdown 0 1 # [Submit 0 one_span]) a)"
  have "case ?r of Inr (late, a1) \<Rightarrow> map span_id late = [1] \<and> as_phase a1 = Finishing \<and> length (as_tasks a1) = 1 | Inl _ \<Rightarrow> False"
    by code_simp
  then show ?thesis unfolding assms
    by (cases "async_run (\<lambda>xs. xs) small_async (Shutdown 0 1 # [Submit 0 one_span]) a") (auto simp del: async_run.simps)
qed


end
