(* ===== verification/Spec2Isabelle.thy ===== *)
theory Spec2Isabelle
  imports Ring_Props Mpsc Allocators Wal_Asserts Wal_Workload Real_Wal Store_Props Resilient_Props Collector_Props
begin

text \<open>
  A verification of the ringmpsc workspace: lock-free rings and channels (\<open>crates/ringmpsc\<close>), an
  asynchronous stream over them (\<open>crates/ringmpsc-stream\<close>), a write-ahead log (\<open>crates/ringwal\<close>) with a
  store (\<open>crates/ringwal-store\<close>) and a fault-injecting simulator (\<open>crates/ringwal-sim\<close>), and a collector of
  tracing spans (\<open>crates/span_collector\<close>).  Paths below are relative to these crates' \<open>src\<close> directories.

  How the parts fit together.  A channel owns one ring per producer; each ring has one producer and one
  consumer.  The stream wraps a channel with back-pressure and shutdown.  The log sends envelopes through
  a stream to one flusher task, which writes batches to segment files, syncs them and acknowledges the
  commits in the batch (group commit); recovery reads the segments back, classifies transactions and can
  replay them into a store; the simulator runs log and recovery on an in-memory file system that loses
  what was not synced.  The span collector feeds a channel into batches and hands these to exporters
  behind retries and a circuit breaker.

  \<^bold>\<open>Theories and sources.\<close>

  \<^item> \<open>Prelude\<close>: machine integers (a 64-bit target: \<open>usize\<close> and \<open>u64\<close> are 64-bit words, arithmetic wraps),
    faults (a panic, an index out of bounds, a read of an uninitialised slot), Rust's \<open>?\<close> as \<open>try_bind\<close>,
    slots of a \<open>MaybeUninit\<close> buffer, windows of a circular buffer.

  \<^item> \<open>Ring_Config\<close> (\<open>config.rs\<close>, \<open>metrics.rs\<close>, \<open>backoff.rs\<close>), \<open>Ring_Asserts\<close> (\<open>invariants.rs\<close>), \<open>Ring\<close> (\<open>ring.rs\<close>,
    \<open>reservation.rs\<close>): the ring as a record of free-running head and tail, cached positions and slots, with
    every operation as a function on it.  \<open>Ring_Refine\<close>: the invariant, and that the operations implement a
    bounded list.  \<open>Ring_Interface\<close>: the contracts of producing and consuming as locales, in which the
    loops over all rings are proved once; both kinds of ring interpret them.  \<open>Channel\<close> and \<open>Channel_Trace\<close>
    (\<open>channel.rs\<close>): registration, the consumers, and whole runs.  \<open>Stack_Ring\<close>, \<open>Stack_Channel\<close>
    (\<open>stack_ring.rs\<close>, \<open>stack_channel.rs\<close>): the const-generic variants, read as heap rings.  \<open>Spsc\<close>: producer
    and consumer of one ring interleaved at their atomic accesses; \<open>Mpsc\<close>: registering threads, producers, the
    consumer and closing on the whole channel, where registration is a sequence of steps.  \<open>Ring_Props\<close>: the
    properties.  \<open>Allocators\<close> (\<open>allocator.rs\<close>, \<open>numa.rs\<close>): addresses, sizes and node choice of the buffers, with
    the answers of the system calls as parameters.

  \<^item> \<open>Ring_Stream\<close> (\<open>channel.rs\<close>, \<open>sender.rs\<close>, \<open>receiver.rs\<close>, \<open>shutdown.rs\<close>, \<open>config.rs\<close>, \<open>error.rs\<close> of the stream crate):
    sends, the \<open>Sink\<close> protocol and \<open>poll_next\<close>, where the readiness of a notification and the number of
    elapsed timer ticks are arguments of a poll.  \<open>Stream_Refine\<close>: a poll delivers the next undelivered
    item.  \<open>Stream_Props\<close>: order, shutdown, progress.

  \<^item> \<open>Wal_Entry\<close> (\<open>entry.rs\<close>, \<open>error.rs\<close>), \<open>Wal_Segment\<close> (\<open>segment.rs\<close>, over the operations of \<open>io/mod.rs\<close> as a
    record of functions), \<open>Wal_Recovery\<close> (\<open>recovery.rs\<close>), \<open>Wal_Log\<close>: the locale of a durable I/O engine and the
    log a segment manager maintains on it.  \<open>Log_Run\<close>: runs of a segment manager on any such engine, and what
    recovery reads of them after a crash.  \<open>Sim_Io\<close> (\<open>sim_io.rs\<close>, \<open>fault.rs\<close>, \<open>clock.rs\<close>): files with a write
    buffer, a kernel buffer and durable bytes; without faults it is such an engine.  \<open>Real_Io\<close> (\<open>io/real.rs\<close>): the production engine, files behind a
    \<open>BufWriter\<close> over an operating system that may accept part of a write or fail; over one that makes progress
    it is such an engine too.  \<open>Wal_Durability\<close>,
    \<open>Wal_Props\<close>: runs, crashes and recovery.  \<open>Wal_Flusher\<close> (\<open>wal.rs\<close>): the flusher task as a step function
    over the events it selects between, in all sync modes.  \<open>Wal_Commit\<close>: group commit, with
    the log on any engine as the locales \<open>synced_log\<close> and \<open>recoverable_log\<close>, which both engines interpret.  \<open>Wal_Asserts\<close>
    (\<open>invariants.rs\<close>): the debug assertions and the numberings they are about.  \<open>Wal_Writer\<close>
    (\<open>config.rs\<close>, \<open>writer.rs\<close>, \<open>transaction.rs\<close>, \<open>Wal::open\<close> and checkpointing) and \<open>Wal_Tx\<close>: what a transaction
    sends.  \<open>Wal_System\<close>: transactions, stream and flusher as one system, up to a crash and the recovery;
    \<open>Real_Wal\<close>: the same on the production engine.  \<open>Wal_Store\<close> (\<open>store.rs\<close>, \<open>oracle.rs\<close>), \<open>Wal_Sim\<close> and \<open>Wal_Workload\<close>
    (\<open>harness.rs\<close>): the harness, and its random workload run on that system; \<open>Store_Props\<close>.

  \<^item> \<open>Spans\<close> (\<open>span.rs\<close>, \<open>exporter.rs\<close>), \<open>Resilient\<close> and \<open>Resilient_Props\<close> (\<open>resilient_exporter.rs\<close>,
    \<open>rate_limiter.rs\<close>), \<open>Batch\<close> (\<open>batch_processor.rs\<close>), \<open>Collector\<close> and \<open>Collector_Props\<close> (\<open>collector.rs\<close>,
    \<open>async_bridge.rs\<close>): the exporter contract as a locale that every wrapper preserves, the circuit breaker as
    a step relation under overlapping exports, and the consumer task as a step function over its events.

  \<^bold>\<open>What the lemmas show.\<close>  Rings and channels: every operation on a well-formed ring stays clear of faults
  and acts on the list of its contents; per producer, what the consumer got followed by what the ring holds
  is what was pushed, for every sequence of operations and for every interleaving of the accesses
  of the threads; buffers lie inside the memory obtained for them.  Stream: the same up to the receiver, and that polling delivers.  Log: whatever was
  synced survives a crash; transactions are recovered whole or not at all; a commit that was acknowledged
  in a mode that syncs first is recovered, also for the whole path from the transaction through the
  stream and the flusher to the disk, on the simulated and on the production engine; torn and corrupt tails cost only themselves; the simulator's
  random workload passes its own check on every run without faults; a store holds the committed values.  Collector: no span is
  lost or exported twice, exports stay within their bound, retries and the circuit breaker obey their
  limits.  Some theorems record defects: reads of unwritten slots after mixing \<open>recv\<close> and \<open>consume_batch\<close>,
  overlapping reservations, a registration race, acknowledged commits whose background sync failed, acknowledged
  commits behind a torn entry, a panic
  on a corrupt length, an allocation whose padding wraps, a store that depends on the order of a hash set, a late success that closes an open
  circuit.

  \<^bold>\<open>Parameters.\<close>  Third-party code is an argument: the checksum, bincode's encoder and decoder, the random
  generator, the JSON encoder, the timers of the runtime, the operating system's answers to \<open>write\<close> and \<open>fsync\<close>, and the iteration order of hash sets and maps,
  with what is documented of it as a named hypothesis (an iteration order is a permutation, a timer does not
  fire early, decoding inverts encoding).  Witnesses instantiate each of them.

  \<^bold>\<open>Bounds and fuel.\<close>  Every function is total.  The loops are structural or have a termination proof, so no
  fuel is needed; where the code waits for other tasks, the list of what these do meanwhile is an argument
  and a call that is still suspended is a value.  The hypotheses that a log is shorter than \<open>2^64\<close> bytes and
  a sequence number below its wrap are stated where they are used.

  \<^bold>\<open>Not modelled.\<close>  The weak memory model (interleavings are sequentially consistent), the loss
  of directory entries in a crash (which the code does not sync), the wall clock, the pointer assertions of the ring, the assertion macros of
  the stream crate (called with constant arguments or not at all), printing exporters, demos, benchmarks and tests.  Floating-point rates and delays are rational numbers.
\<close>

end
